(* ===== verification/Prelude.thy ===== *)
theory Prelude
  imports Main "HOL-Library.Sublist"
begin

section \<open>Prelude: shared types, hint collections and list lemmas\<close>

text \<open>
  What every component of the gateway shares: the names of the model's basic types, the
  collections of rewrite rules the component theories fill, and generic facts on lists and
  association lists that the proofs about paths, caches and maps use.

  A Go string and a Go byte slice are both sequences of bytes; \<^typ>\<open>char\<close> is the type of
  bytes, so both are \<^typ>\<open>string\<close>.
\<close>

type_synonym bytes = string

abbreviation slash :: char where
  "slash \<equiv> CHR ''/''"

abbreviation dot :: char where
  "dot \<equiv> CHR ''.''"

named_theorems gostr \<open>defining equations of the string and path library\<close>
named_theorems golist \<open>how the container/list operations change the ring\<close>
named_theorems handler_defs \<open>definitions of the request handler\<close>

subsection \<open>Lists\<close>

lemma takeWhile_dropWhile_neq:
  "c \<in> set s \<Longrightarrow> s = takeWhile (\<lambda>x. x \<noteq> c) s @ c # tl (dropWhile (\<lambda>x. x \<noteq> c) s)"
proof -
  assume "c \<in> set s"
  then have ne: "dropWhile (\<lambda>x. x \<noteq> c) s \<noteq> []"
    by (auto simp: dropWhile_eq_Nil_conv)
  then have "hd (dropWhile (\<lambda>x. x \<noteq> c) s) = c"
    using hd_dropWhile [of "\<lambda>x. x \<noteq> c" s] by simp
  with ne have "dropWhile (\<lambda>x. x \<noteq> c) s = c # tl (dropWhile (\<lambda>x. x \<noteq> c) s)"
    by (metis list.collapse)
  then show ?thesis
    by (metis takeWhile_dropWhile_id)
qed

lemma takeWhile_append_sep [simp]: "c \<notin> set a \<Longrightarrow> takeWhile (\<lambda>x. x \<noteq> c) (a @ c # b) = a"
  by (induction a) auto

lemma dropWhile_append_sep [simp]: "c \<notin> set a \<Longrightarrow> dropWhile (\<lambda>x. x \<noteq> c) (a @ c # b) = c # b"
  by (induction a) auto

lemma length_tl_dropWhile_less [termination_simp]:
  "c \<in> set s \<Longrightarrow> length (tl (dropWhile (\<lambda>x. x \<noteq> c) s)) < length s"
proof -
  assume "c \<in> set s"
  then have "length s = length (takeWhile (\<lambda>x. x \<noteq> c) s @ c # tl (dropWhile (\<lambda>x. x \<noteq> c) s))"
    using takeWhile_dropWhile_neq by metis
  then show ?thesis by simp
qed

lemma length_tl_dropWhile_less' [termination_simp]:
  "c \<in> set s \<Longrightarrow> length (dropWhile (\<lambda>x. x \<noteq> c) s) - Suc 0 < length s"
  using length_tl_dropWhile_less [of c s] by simp

subsection \<open>Association lists in a fixed order\<close>

lemma map_of_filter_neq:
  "map_of (filter (\<lambda>p. fst p \<noteq> k) xs) = (map_of xs)(k := None)"
  by (induction xs) auto

lemma distinct_fst_filter: "distinct (map fst xs) \<Longrightarrow> distinct (map fst (filter P xs))"
  by (induction xs) auto

lemma sum_list_map_nonneg: "(\<And>x. x \<in> set xs \<Longrightarrow> 0 \<le> f x) \<Longrightarrow> 0 \<le> sum_list (map f xs :: int list)"
  by (induction xs) auto

lemma sum_drop:
  fixes f f' :: "'a \<Rightarrow> nat"
  assumes le: "\<And>u. f' u + (if u = t then 1 else 0) \<le> f u" and A: "finite A" "t \<in> A"
  shows "Suc (\<Sum>u\<in>A. f' u) \<le> (\<Sum>u\<in>A. f u)"
proof -
  have "f' t < f t" using le [of t] by simp
  with le A have "(\<Sum>u\<in>A. f' u) < (\<Sum>u\<in>A. f u)"
    by (intro sum_strict_mono_ex1) (auto intro: le_trans [OF le_add1])
  then show ?thesis by simp
qed

lemma map_leD: "m \<subseteq>\<^sub>m m' \<Longrightarrow> m k = Some v \<Longrightarrow> m' k = Some v"
  by (metis domI map_le_def)

lemma map_leI: "(\<And>k v. m k = Some v \<Longrightarrow> m' k = Some v) \<Longrightarrow> m \<subseteq>\<^sub>m m'"
  by (auto simp: map_le_def)

lemma butlast_map_of_subset:
  "distinct (map fst xs) \<Longrightarrow> map_of (butlast xs) \<subseteq>\<^sub>m map_of xs"
proof (cases "xs = []")
  case False
  then show ?thesis
    by (metis append_butlast_last_id map_le_map_add map_of_append)
qed simp

end
