(* ===== verification/GoStrings.thy ===== *)
theory GoStrings
  imports Prelude
begin

section \<open>The string functions of Go's standard library that the gateway calls\<close>

text \<open>
  The functions of package \<^verbatim>\<open>strings\<close> the sources use, on byte strings and with Go's own
  conventions (an empty prefix is a prefix, \<^verbatim>\<open>SplitN\<close> keeps the unsplit remainder as the last
  element, \<^verbatim>\<open>Split\<close> of the empty string is one empty string). They stand for no file of the
  repository; the component theories build on them.
\<close>

subsection \<open>Prefixes and suffixes\<close>

definition HasPrefix :: "string \<Rightarrow> string \<Rightarrow> bool" where
  "HasPrefix s p \<longleftrightarrow> take (length p) s = p"

definition HasSuffix :: "string \<Rightarrow> string \<Rightarrow> bool" where
  "HasSuffix s p \<longleftrightarrow> length p \<le> length s \<and> drop (length s - length p) s = p"

definition TrimPrefix :: "string \<Rightarrow> string \<Rightarrow> string" where
  "TrimPrefix s p = (if HasPrefix s p then drop (length p) s else s)"

definition TrimSuffix :: "string \<Rightarrow> string \<Rightarrow> string" where
  "TrimSuffix s p = (if HasSuffix s p then take (length s - length p) s else s)"

text \<open>\<^verbatim>\<open>TrimLeft\<close> with a cutset of one ASCII byte.\<close>

definition TrimLeft :: "string \<Rightarrow> char \<Rightarrow> string" where
  "TrimLeft s c = dropWhile (\<lambda>x. x = c) s"

fun Contains :: "string \<Rightarrow> string \<Rightarrow> bool" where
  "Contains [] sub = (sub = [])"
| "Contains (c # s) sub = (HasPrefix (c # s) sub \<or> Contains s sub)"

lemmas [gostr] = HasPrefix_def HasSuffix_def TrimPrefix_def TrimSuffix_def TrimLeft_def

lemma HasPrefix_iff: "HasPrefix s p \<longleftrightarrow> (\<exists>t. s = p @ t)"
  by (metis HasPrefix_def append_eq_conv_conj append_take_drop_id)

lemma HasPrefix_append [simp]: "HasPrefix (p @ t) p"
  by (auto simp: HasPrefix_iff)

lemma HasPrefix_Cons [simp]: "HasPrefix (c # s) [d] \<longleftrightarrow> c = d"
  by (auto simp: HasPrefix_def)

lemma HasPrefix_Nil [simp]: "HasPrefix [] (d # p) = False" "HasPrefix s [] = True"
  by (auto simp: HasPrefix_def)

lemma HasSuffix_iff: "HasSuffix s p \<longleftrightarrow> (\<exists>t. s = t @ p)"
proof
  assume "HasSuffix s p"
  then have "s = take (length s - length p) s @ p"
    by (metis HasSuffix_def append_take_drop_id)
  then show "\<exists>t. s = t @ p" by blast
qed (auto simp: HasSuffix_def)

lemma HasSuffix_snoc [simp]: "HasSuffix s [c] \<longleftrightarrow> s \<noteq> [] \<and> last s = c"
  by (metis HasSuffix_iff append_butlast_last_id last_snoc snoc_eq_iff_butlast)

lemma TrimPrefix_append [simp]: "TrimPrefix (p @ t) p = t"
  by (simp add: TrimPrefix_def)

lemma TrimPrefix_Cons [simp]: "TrimPrefix (c # s) [c] = s"
  by (simp add: TrimPrefix_def)

lemma TrimPrefix_id: "\<not> HasPrefix s p \<Longrightarrow> TrimPrefix s p = s"
  by (simp add: TrimPrefix_def)

lemma TrimLeft_no_prefix: "\<not> HasPrefix (TrimLeft s c) [c]"
proof (cases "TrimLeft s c")
  case (Cons d t)
  then have "d = hd (dropWhile (\<lambda>x. x = c) s)" "dropWhile (\<lambda>x. x = c) s \<noteq> []"
    by (auto simp: TrimLeft_def)
  then have "d \<noteq> c"
    using hd_dropWhile [of "\<lambda>x. x = c" s] by simp
  with Cons show ?thesis by simp
qed simp

lemma TrimLeft_id: "\<not> HasPrefix s [c] \<Longrightarrow> TrimLeft s c = s"
  by (cases s) (auto simp: TrimLeft_def)

lemma Contains_iff: "Contains s sub \<longleftrightarrow> (\<exists>a b. s = a @ sub @ b)"
proof (induction s)
  case (Cons c s)
  show ?case
  proof
    assume "Contains (c # s) sub"
    then consider "HasPrefix (c # s) sub" | "\<exists>a b. s = a @ sub @ b"
      using Cons.IH by auto
    then show "\<exists>a b. c # s = a @ sub @ b"
      by cases (metis HasPrefix_iff append_Nil, metis append_Cons)
  next
    assume "\<exists>a b. c # s = a @ sub @ b"
    then obtain a b where ab: "c # s = a @ sub @ b" by blast
    show "Contains (c # s) sub"
    proof (cases a)
      case Nil
      with ab have "HasPrefix (c # s) sub" by simp
      then show ?thesis by simp
    next
      case (Cons d a')
      with ab have "s = a' @ sub @ b" by simp
      with Cons.IH show ?thesis by auto
    qed
  qed
qed auto

subsection \<open>Splitting at a one-byte separator\<close>

fun Split :: "char \<Rightarrow> string \<Rightarrow> string list" where
  "Split c s =
     (if c \<in> set s
      then takeWhile (\<lambda>x. x \<noteq> c) s # Split c (tl (dropWhile (\<lambda>x. x \<noteq> c) s))
      else [s])"

declare Split.simps [simp del]

fun SplitN :: "nat \<Rightarrow> char \<Rightarrow> string \<Rightarrow> string list" where
  "SplitN 0 c s = []"
| "SplitN (Suc 0) c s = [s]"
| "SplitN (Suc (Suc n)) c s =
     (if c \<in> set s
      then takeWhile (\<lambda>x. x \<noteq> c) s # SplitN (Suc n) c (tl (dropWhile (\<lambda>x. x \<noteq> c) s))
      else [s])"

text \<open>The inverse of splitting: \<^verbatim>\<open>strings.Join\<close> with a one-byte separator.\<close>

fun join_sep :: "char \<Rightarrow> string list \<Rightarrow> string" where
  "join_sep c [] = []"
| "join_sep c [x] = x"
| "join_sep c (x # y # ys) = x @ c # join_sep c (y # ys)"

lemma Split_no_sep [simp]: "c \<notin> set s \<Longrightarrow> Split c s = [s]"
  by (subst Split.simps) simp

lemma Split_append: "c \<notin> set a \<Longrightarrow> Split c (a @ c # b) = a # Split c b"
  by (subst Split.simps) simp

lemma Split_Cons_sep [simp]: "Split c (c # s) = [] # Split c s"
  using Split_append [of c "[]" s] by simp

lemma Split_not_Nil [simp]: "Split c s \<noteq> []"
  by (subst Split.simps) simp

lemma Split_elems: "x \<in> set (Split c s) \<Longrightarrow> c \<notin> set x"
proof (induction c s rule: Split.induct)
  case (1 c s)
  then show ?case
    by (cases "c \<in> set s") (auto simp: Split.simps [of c s] dest: set_takeWhileD)
qed

lemma join_sep_snoc: "join_sep c (xs @ [y]) = (if xs = [] then y else join_sep c xs @ c # y)"
  by (induction c xs rule: join_sep.induct) auto

lemma join_sep_Cons: "join_sep c (x # xs) = (if xs = [] then x else x @ c # join_sep c xs)"
  by (cases xs) auto

lemma join_Split: "join_sep c (Split c s) = s"
proof (induction c s rule: Split.induct)
  case (1 c s)
  show ?case
  proof (cases "c \<in> set s")
    case True
    then have "join_sep c (Split c s) =
        takeWhile (\<lambda>x. x \<noteq> c) s @ c # join_sep c (Split c (tl (dropWhile (\<lambda>x. x \<noteq> c) s)))"
      by (subst Split.simps) (simp add: join_sep_Cons)
    also have "\<dots> = s"
      using 1 True takeWhile_dropWhile_neq [OF True] by simp
    finally show ?thesis .
  qed simp
qed

lemma Split_join:
  "xs \<noteq> [] \<Longrightarrow> (\<And>x. x \<in> set xs \<Longrightarrow> c \<notin> set x) \<Longrightarrow> Split c (join_sep c xs) = xs"
  by (induction c xs rule: join_sep.induct) (auto simp: Split_append)

lemma join_sep_append:
  "xs \<noteq> [] \<Longrightarrow> ys \<noteq> [] \<Longrightarrow> join_sep c (xs @ ys) = join_sep c xs @ c # join_sep c ys"
  by (induction c xs rule: join_sep.induct) (auto simp: join_sep_Cons)

lemma Split_append_sep: "Split c (a @ c # b) = Split c a @ Split c b"
proof -
  have "Split c (join_sep c (Split c a @ Split c b)) = Split c a @ Split c b"
    by (rule Split_join) (auto dest: Split_elems)
  then show ?thesis by (simp add: join_sep_append join_Split)
qed

lemma Split_append_no_sep:
  assumes "c \<notin> set b"
  shows "Split c (a @ b) = butlast (Split c a) @ [last (Split c a) @ b]"
proof -
  let ?ss = "butlast (Split c a) @ [last (Split c a) @ b]"
  have "Split c a = butlast (Split c a) @ [last (Split c a)]"
    by simp
  then have "join_sep c ?ss = join_sep c (Split c a) @ b"
    by (metis append_assoc append_Cons join_sep_snoc)
  moreover have "Split c (join_sep c ?ss) = ?ss"
    using assms Split_elems [of _ c a] last_in_set [of "Split c a"]
    by (intro Split_join) (auto dest: in_set_butlastD)
  ultimately show ?thesis by (simp add: join_Split)
qed

text \<open>\<^verbatim>\<open>SplitN\<close> loses nothing either, and only its last element may hold a separator.\<close>

lemma join_SplitN: "0 < n \<Longrightarrow> join_sep c (SplitN n c s) = s"
proof (induction n c s rule: SplitN.induct)
  case (3 n c s)
  show ?case
  proof (cases "c \<in> set s")
    case True
    have "SplitN (Suc n) c t \<noteq> []" for t
      by (cases n) auto
    then show ?thesis
      using 3 True takeWhile_dropWhile_neq [OF True] by (simp add: join_sep_Cons)
  qed simp
qed auto

lemma SplitN_append:
  "c \<notin> set a \<Longrightarrow> SplitN (Suc (Suc n)) c (a @ c # b) = a # SplitN (Suc n) c b"
  by simp

lemma SplitN_elems:
  "x \<in> set (butlast (SplitN n c s)) \<Longrightarrow> c \<notin> set x"
proof (induction n c s rule: SplitN.induct)
  case (3 n c s)
  then show ?case
    by (cases "c \<in> set s") (auto split: if_splits dest: set_takeWhileD)
qed auto

lemma length_SplitN: "length (SplitN n c s) \<le> n"
  by (induction n c s rule: SplitN.induct) auto

subsection \<open>White space\<close>

text \<open>
  \<^verbatim>\<open>TrimSpace\<close> trims the code points of \<^verbatim>\<open>unicode.IsSpace\<close>; these are their UTF-8 encodings.
  Each starts with a byte that cannot continue another encoding, so trimming encoded runes is
  trimming these byte sequences from either end.
\<close>

definition space_runes :: "string list" where
  "space_runes =
     [[CHR 0x09], [CHR 0x0A], [CHR 0x0B], [CHR 0x0C], [CHR 0x0D], [CHR 0x20],
      [CHR 0xC2, CHR 0x85], [CHR 0xC2, CHR 0xA0], [CHR 0xE1, CHR 0x9A, CHR 0x80],
      [CHR 0xE2, CHR 0x80, CHR 0x80], [CHR 0xE2, CHR 0x80, CHR 0x81], [CHR 0xE2, CHR 0x80, CHR 0x82],
      [CHR 0xE2, CHR 0x80, CHR 0x83], [CHR 0xE2, CHR 0x80, CHR 0x84], [CHR 0xE2, CHR 0x80, CHR 0x85],
      [CHR 0xE2, CHR 0x80, CHR 0x86], [CHR 0xE2, CHR 0x80, CHR 0x87], [CHR 0xE2, CHR 0x80, CHR 0x88],
      [CHR 0xE2, CHR 0x80, CHR 0x89], [CHR 0xE2, CHR 0x80, CHR 0x8A], [CHR 0xE2, CHR 0x80, CHR 0xA8],
      [CHR 0xE2, CHR 0x80, CHR 0xA9], [CHR 0xE2, CHR 0x80, CHR 0xAF], [CHR 0xE2, CHR 0x81, CHR 0x9F],
      [CHR 0xE3, CHR 0x80, CHR 0x80]]"

function trim_runes :: "string list \<Rightarrow> string \<Rightarrow> string" where
  "trim_runes rs s =
     (case find (\<lambda>r. r \<noteq> [] \<and> HasPrefix s r) rs of
        None \<Rightarrow> s
      | Some r \<Rightarrow> trim_runes rs (drop (length r) s))"
  by pat_completeness auto
termination
  by (relation "measure (\<lambda>(rs, s). length s)") (auto simp: find_Some_iff HasPrefix_iff)

declare trim_runes.simps [simp del]

definition TrimSpace :: "string \<Rightarrow> string" where
  "TrimSpace s = rev (trim_runes (map rev space_runes) (rev (trim_runes space_runes s)))"

lemma trim_runes_id:
  "(\<And>r. r \<in> set rs \<Longrightarrow> r \<noteq> [] \<Longrightarrow> \<not> HasPrefix s r) \<Longrightarrow> trim_runes rs s = s"
proof -
  assume "\<And>r. r \<in> set rs \<Longrightarrow> r \<noteq> [] \<Longrightarrow> \<not> HasPrefix s r"
  then have "find (\<lambda>r. r \<noteq> [] \<and> HasPrefix s r) rs = None"
    unfolding find_None_iff by blast
  then show ?thesis by (subst trim_runes.simps) simp
qed

lemma trim_runes_suffix: "\<exists>a. s = a @ trim_runes rs s"
proof (induction rs s rule: trim_runes.induct)
  case (1 rs s)
  show ?case
  proof (cases "find (\<lambda>r. r \<noteq> [] \<and> HasPrefix s r) rs")
    case None
    then show ?thesis by (subst trim_runes.simps) simp
  next
    case (Some r)
    then obtain t where "s = r @ t" by (auto simp: find_Some_iff HasPrefix_iff)
    moreover from 1 [OF Some] obtain a where "drop (length r) s = a @ trim_runes rs (drop (length r) s)"
      by blast
    moreover have "trim_runes rs s = trim_runes rs (drop (length r) s)"
      using Some by (subst trim_runes.simps) simp
    ultimately have "s = (r @ a) @ trim_runes rs s" by simp
    then show ?thesis by blast
  qed
qed

text \<open>A byte that no space encoding starts or ends with stops the trimming.\<close>

definition space_free :: "char \<Rightarrow> bool" where
  "space_free c \<longleftrightarrow> (\<forall>r \<in> set space_runes. hd r \<noteq> c \<and> last r \<noteq> c)"

lemma TrimSpace_id:
  assumes "s \<noteq> []" "space_free (hd s)" "space_free (last s)"
  shows "TrimSpace s = s"
proof -
  have front: "trim_runes space_runes s = s"
  proof (rule trim_runes_id)
    fix r assume "r \<in> set space_runes" "r \<noteq> []"
    with assms show "\<not> HasPrefix s r"
      by (cases s; cases r) (auto simp: space_free_def HasPrefix_iff)
  qed
  have "trim_runes (map rev space_runes) (rev s) = rev s"
  proof (rule trim_runes_id)
    fix r assume "r \<in> set (map rev space_runes)" "r \<noteq> []"
    then obtain r' where r': "r' \<in> set space_runes" "r = rev r'" "r' \<noteq> []" by auto
    show "\<not> HasPrefix (rev s) r"
    proof
      assume "HasPrefix (rev s) r"
      then obtain t where "rev s = rev r' @ t" using r' by (auto simp: HasPrefix_iff)
      then have "s = rev t @ r'" by (metis rev_append rev_rev_ident)
      then have "last s = last r'" using r' by simp
      with r' assms show False by (auto simp: space_free_def)
    qed
  qed
  with front show ?thesis by (simp add: TrimSpace_def)
qed

lemma TrimSpace_blank: "TrimSpace (CHR 0x20 # s) = TrimSpace s"
proof -
  have "trim_runes space_runes (CHR 0x20 # s) = trim_runes space_runes s"
    by (subst trim_runes.simps) (simp add: space_runes_def HasPrefix_def)
  then show ?thesis by (simp add: TrimSpace_def)
qed

lemma TrimSpace_Nil [simp]: "TrimSpace [] = []"
  by (simp add: TrimSpace_def trim_runes_id HasPrefix_def)

subsection \<open>Lower case\<close>

text \<open>
  \<^verbatim>\<open>strings.ToLower\<close> as the gateway can observe it: the result is only ever looked up in a table
  of ASCII keys. ASCII letters are lowered; two non-ASCII code points have an ASCII lower case,
  U+0130 (bytes C4 B0, lower case i) and U+212A (bytes E2 84 AA, lower case k); every other
  non-ASCII code point lowers to a non-ASCII one, whose bytes are kept here and match no key
  either way.
\<close>

definition lower_byte :: "char \<Rightarrow> char" where
  "lower_byte c =
     (let n = of_char c :: nat in if 65 \<le> n \<and> n \<le> 90 then char_of (n + 32) else c)"

fun ToLower :: "string \<Rightarrow> string" where
  "ToLower [] = []"
| "ToLower (a # s) =
     (if a = CHR 0xC4 \<and> take 1 s = [CHR 0xB0] then CHR ''i'' # ToLower (drop 1 s)
      else if a = CHR 0xE2 \<and> take 2 s = [CHR 0x84, CHR 0xAA] then CHR ''k'' # ToLower (drop 2 s)
      else lower_byte a # ToLower s)"

end
