(* ===== verification/GoPath.thy ===== *)
theory GoPath
  imports GoStrings
begin

section \<open>Package path of Go's standard library: Clean, Join, Ext\<close>

text \<open>
  \<^verbatim>\<open>path.Clean\<close> is modelled as the standard library writes it: one left-to-right scan with an
  output buffer (kept reversed here, so that Go's write index is its length) and the index
  \<open>dotdot\<close> below which a \<^verbatim>\<open>..\<close> element must not backtrack. The buffer algorithm is then
  proved to compute a stack of path elements (\<open>Clean_segments\<close>), the abstract specification
  every proof about request paths and storage keys uses.
\<close>

subsection \<open>The scan\<close>

text \<open>Go's inner loop that pops the last element of the buffer.\<close>

fun backtrack :: "nat \<Rightarrow> string \<Rightarrow> string" where
  "backtrack dd [] = []"
| "backtrack dd (c # out) = (if dd < length out \<and> c \<noteq> slash then backtrack dd out else out)"

definition at_end :: "string \<Rightarrow> bool" where
  "at_end s \<longleftrightarrow> (case s of [] \<Rightarrow> True | c # _ \<Rightarrow> c = slash)"

lemma at_end_simps [simp]: "at_end []" "at_end (c # s) \<longleftrightarrow> c = slash"
  by (simp_all add: at_end_def)

definition second_dot :: "string \<Rightarrow> bool" where
  "second_dot s \<longleftrightarrow> (case s of [] \<Rightarrow> False | c # r \<Rightarrow> c = dot \<and> at_end r)"

lemma second_dot_simps [simp]: "\<not> second_dot []" "second_dot (c # s) \<longleftrightarrow> c = dot \<and> at_end s"
  by (simp_all add: second_dot_def)

function clean_loop :: "bool \<Rightarrow> nat \<Rightarrow> string \<Rightarrow> string \<Rightarrow> string" where
  "clean_loop rooted dd out [] = out"
| "clean_loop rooted dd out (c # cs) =
     (if c = slash then clean_loop rooted dd out cs
      else if c = dot \<and> at_end cs then clean_loop rooted dd out cs
      else if c = dot \<and> second_dot cs then
        (if dd < length out then clean_loop rooted dd (backtrack dd out) (tl cs)
         else if \<not> rooted then
           (let out' = dot # dot # (if 0 < length out then slash # out else out)
            in clean_loop rooted (length out') out' (tl cs))
         else clean_loop rooted dd out (tl cs))
      else
        (let out' = (if (rooted \<and> length out \<noteq> 1) \<or> (\<not> rooted \<and> length out \<noteq> 0)
                     then slash # out else out)
         in clean_loop rooted dd (rev (takeWhile (\<lambda>x. x \<noteq> slash) (c # cs)) @ out')
              (dropWhile (\<lambda>x. x \<noteq> slash) (c # cs))))"
  by pat_completeness auto
termination
  by (relation "measure (\<lambda>(rooted, dd, out, rest). length rest)")
     (auto simp: less_Suc_eq_le length_dropWhile_le)

definition Clean :: "string \<Rightarrow> string" where
  "Clean p =
     (case p of
        [] \<Rightarrow> [dot]
      | c # r \<Rightarrow>
          (let rooted = (c = slash);
               out = (if rooted then clean_loop True 1 [slash] r else clean_loop False 0 [] p)
           in if out = [] then [dot] else rev out))"

text \<open>\<^verbatim>\<open>path.Join\<close>: leading empty elements are skipped, later ones only add a slash.\<close>

fun join_buf :: "string \<Rightarrow> string list \<Rightarrow> string" where
  "join_buf buf [] = buf"
| "join_buf buf (e # es) =
     join_buf (if buf \<noteq> [] then buf @ slash # e else if e \<noteq> [] then e else buf) es"

definition Join :: "string list \<Rightarrow> string" where
  "Join es = (if concat es = [] then [] else Clean (join_buf [] es))"

text \<open>\<^verbatim>\<open>path.Ext\<close> scans from the right; the suffix seen so far is its second argument.\<close>

fun ext_scan :: "string \<Rightarrow> string \<Rightarrow> string" where
  "ext_scan [] acc = []"
| "ext_scan (c # cs) acc =
     (if c = slash then [] else if c = dot then c # acc else ext_scan cs (c # acc))"

definition Ext :: "string \<Rightarrow> string" where
  "Ext p = ext_scan (rev p) []"

subsection \<open>The specification: a stack of path elements\<close>

definition dots :: string where
  "dots = [dot, dot]"

text \<open>What one element does to the stack (top first).\<close>

definition seg_step :: "bool \<Rightarrow> string \<Rightarrow> string list \<Rightarrow> string list" where
  "seg_step rooted s st =
     (if s = [] \<or> s = [dot] then st
      else if s = dots then
        (case st of
           [] \<Rightarrow> if rooted then [] else [dots]
         | t # ts \<Rightarrow> if t = dots then dots # st else ts)
      else s # st)"

definition segments :: "bool \<Rightarrow> string \<Rightarrow> string list" where
  "segments rooted r = rev (fold (seg_step rooted) (Split slash r) [])"

text \<open>A path element that names something.\<close>

definition norm_seg :: "string \<Rightarrow> bool" where
  "norm_seg s \<longleftrightarrow> s \<noteq> [] \<and> s \<noteq> [dot] \<and> s \<noteq> dots \<and> slash \<notin> set s"

text \<open>The stacks the scan goes through: named elements above \<^verbatim>\<open>..\<close> elements, the
  latter only in a relative path.\<close>

definition stack_ok :: "bool \<Rightarrow> string list \<Rightarrow> bool" where
  "stack_ok rooted st \<longleftrightarrow>
     (\<exists>ns k. st = ns @ replicate k dots \<and> (\<forall>s \<in> set ns. norm_seg s) \<and> (rooted \<longrightarrow> k = 0))"

definition render :: "bool \<Rightarrow> string list \<Rightarrow> string" where
  "render rooted st = (if rooted then [slash] else []) @ join_sep slash (rev st)"

definition dd_of :: "bool \<Rightarrow> string list \<Rightarrow> nat" where
  "dd_of rooted st =
     (if rooted then 1 else length (render False (filter (\<lambda>s. s = dots) st)))"

subsection \<open>The scan computes the stack\<close>

lemma not_norm_dots [simp]: "\<not> norm_seg dots"
  by (simp add: norm_seg_def)

lemma stack_ok_Nil [simp]: "stack_ok rooted []"
  by (auto simp: stack_ok_def)

lemma stack_ok_Cons_cases:
  assumes "stack_ok rooted (t # ts)"
  shows "(norm_seg t \<and> stack_ok rooted ts) \<or>
         (t = dots \<and> \<not> rooted \<and> (\<forall>s \<in> set (t # ts). s = dots) \<and> stack_ok rooted ts)"
proof -
  from assms obtain ns k where st: "t # ts = ns @ replicate k dots"
    and ns: "\<forall>s \<in> set ns. norm_seg s" and k: "rooted \<longrightarrow> k = 0"
    by (auto simp: stack_ok_def)
  show ?thesis
  proof (cases ns)
    case Nil
    with st obtain m where "k = Suc m" "ts = replicate m dots" "t = dots"
      by (cases k) auto
    with k show ?thesis by (auto simp: stack_ok_def intro: exI [of _ "[]"])
  next
    case (Cons n ns')
    with st have "t = n" "ts = ns' @ replicate k dots" by auto
    with Cons ns k show ?thesis by (auto simp: stack_ok_def)
  qed
qed

lemma stack_ok_push: "norm_seg s \<Longrightarrow> stack_ok rooted st \<Longrightarrow> stack_ok rooted (s # st)"
  unfolding stack_ok_def by (metis append_Cons set_ConsD)

lemma stack_ok_push_dots:
  "(\<forall>s \<in> set st. s = dots) \<Longrightarrow> stack_ok False (dots # st)"
  unfolding stack_ok_def
  by (rule exI [of _ "[]"], rule exI [of _ "Suc (length st)"]) (auto simp: replicate_length_same)

lemma seg_step_ok:
  assumes "stack_ok rooted st" "slash \<notin> set s"
  shows "stack_ok rooted (seg_step rooted s st)"
proof (cases st)
  case Nil
  with assms show ?thesis
    by (cases rooted) (auto simp: seg_step_def norm_seg_def stack_ok_push stack_ok_push_dots)
next
  case (Cons t ts)
  with stack_ok_Cons_cases [of rooted t ts] assms show ?thesis
    by (auto simp: seg_step_def norm_seg_def intro!: stack_ok_push_dots intro: stack_ok_push)
qed

lemma segments_ok: "stack_ok rooted (rev (segments rooted r))"
proof -
  have "(\<forall>s \<in> set xs. slash \<notin> set s) \<Longrightarrow> stack_ok rooted st \<Longrightarrow>
      stack_ok rooted (fold (seg_step rooted) xs st)" for xs st
    by (induction xs arbitrary: st) (auto simp: seg_step_ok)
  from this [of "Split slash r" "[]"] show ?thesis
    by (auto simp: segments_def dest: Split_elems)
qed

lemma segments_norm: "s \<in> set (segments True r) \<Longrightarrow> norm_seg s"
  using segments_ok [of True r] by (auto simp: stack_ok_def)

lemma render_Cons:
  "render rooted (s # ts) = render rooted ts @ (if ts = [] then [] else [slash]) @ s"
  by (auto simp: render_def join_sep_snoc)

lemma backtrack_seg:
  "slash \<notin> set s \<Longrightarrow> s \<noteq> [] \<Longrightarrow> dd \<le> length out \<Longrightarrow>
   backtrack dd (s @ out) = (if dd < length out then backtrack dd out else out)"
proof (induction s)
  case (Cons c s)
  then show ?case by (cases "s = []") auto
qed simp

lemma dd_of_le:
  "stack_ok rooted st \<Longrightarrow> dd_of rooted st \<le> length (render rooted st)"
proof (induction st)
  case (Cons t ts)
  with stack_ok_Cons_cases [of rooted t ts] show ?case
    by (auto simp: dd_of_def render_Cons)
qed (auto simp: dd_of_def render_def)

lemma dd_of_less:
  assumes "stack_ok rooted st"
  shows "dd_of rooted st < length (render rooted st) \<longleftrightarrow> st \<noteq> [] \<and> hd st \<noteq> dots"
proof (cases st)
  case (Cons t ts)
  consider (norm) "norm_seg t" "stack_ok rooted ts"
    | (dots) "t = dots" "\<not> rooted" "\<forall>s \<in> set (t # ts). s = dots"
    using stack_ok_Cons_cases [of rooted t ts] assms Cons by blast
  then show ?thesis
  proof cases
    case norm
    then obtain c t' where "dd_of rooted st = dd_of rooted ts" "t = c # t'" "t \<noteq> dots"
      using Cons by (cases t) (auto simp: dd_of_def norm_seg_def)
    with norm dd_of_le [of rooted ts] Cons show ?thesis
      by (auto simp: render_Cons)
  next
    case dots
    then have "filter (\<lambda>s. s = dots) st = st"
      using Cons by (intro filter_True) auto
    with dots Cons show ?thesis by (simp add: dd_of_def)
  qed
qed (simp add: dd_of_def render_def)

lemma backtrack_render:
  assumes ok: "stack_ok rooted (t # ts)" and t: "norm_seg t"
  shows "backtrack (dd_of rooted (t # ts)) (rev (render rooted (t # ts))) = rev (render rooted ts)"
proof -
  have dd: "dd_of rooted (t # ts) = dd_of rooted ts"
    using t by (auto simp: dd_of_def)
  have le: "dd_of rooted ts \<le> length (render rooted ts)"
    using stack_ok_Cons_cases [OF ok] t by (intro dd_of_le) auto
  show ?thesis
  proof (cases "ts = []")
    case True
    then have "dd_of rooted [t] = length (render rooted [])"
      using dd by (simp add: dd_of_def render_def)
    with True t show ?thesis
      by (simp add: render_Cons backtrack_seg norm_seg_def)
  next
    case False
    with t le show ?thesis
      by (simp add: dd render_Cons norm_seg_def backtrack_seg
            [of "rev t" "dd_of rooted ts" "slash # rev (render rooted ts)"])
  qed
qed

lemma render_start:
  assumes "stack_ok rooted st"
  shows "(rooted \<and> length (render rooted st) \<noteq> Suc 0) \<or> (\<not> rooted \<and> render rooted st \<noteq> [])
         \<longleftrightarrow> st \<noteq> []"
proof (cases st)
  case (Cons t ts)
  with stack_ok_Cons_cases [of rooted t ts] assms have "t \<noteq> []"
    by (auto simp: norm_seg_def dots_def)
  with Cons show ?thesis by (auto simp: render_Cons) (auto simp: render_def)
qed (simp add: render_def)

lemma at_end_Split:
  "at_end r \<Longrightarrow> slash \<notin> set e \<Longrightarrow> fold (seg_step rooted) (Split slash (e @ r)) st =
   fold (seg_step rooted) (Split slash r) (seg_step rooted e st)"
proof (cases r)
  case (Cons c r')
  assume "at_end r" "slash \<notin> set e"
  with Cons show ?thesis by (simp add: Split_append) (simp add: seg_step_def)
qed (simp add: seg_step_def)

lemma at_end_dropWhile: "at_end (dropWhile (\<lambda>x. x \<noteq> slash) s)"
  by (induction s) auto

lemma takeWhile_slash_at_end: "takeWhile (\<lambda>x. x \<noteq> slash) cs = [] \<Longrightarrow> at_end cs"
  by (cases cs) (simp_all split: if_splits)

lemma takeWhile_slash_second_dot:
  assumes "takeWhile (\<lambda>x. x \<noteq> slash) cs = [dot]"
  shows "second_dot cs"
proof (cases cs)
  case (Cons d r)
  with assms have "d = dot" "takeWhile (\<lambda>x. x \<noteq> slash) r = []"
    by (simp_all split: if_splits)
  with Cons show ?thesis by (simp add: takeWhile_slash_at_end)
qed (use assms in simp)

lemma element_norm:
  assumes c: "c \<noteq> slash" and dot: "\<not> (c = dot \<and> at_end cs)" and dots: "\<not> (c = dot \<and> second_dot cs)"
  shows "norm_seg (takeWhile (\<lambda>x. x \<noteq> slash) (c # cs))"
proof -
  have e: "takeWhile (\<lambda>x. x \<noteq> slash) (c # cs) = c # takeWhile (\<lambda>x. x \<noteq> slash) cs"
    using c by simp
  have "takeWhile (\<lambda>x. x \<noteq> slash) cs \<noteq> []" if "c = dot"
    using dot takeWhile_slash_at_end that by blast
  moreover have "takeWhile (\<lambda>x. x \<noteq> slash) cs \<noteq> [dot]" if "c = dot"
    using dots takeWhile_slash_second_dot that by blast
  moreover have "slash \<notin> set (takeWhile (\<lambda>x. x \<noteq> slash) cs)"
    by (blast dest: set_takeWhileD)
  ultimately show ?thesis
    unfolding norm_seg_def dots_def e using c by simp
qed

text \<open>One iteration of the scan, on the buffer that renders a stack.\<close>

lemma clean_loop_dots:
  assumes "stack_ok rooted st" "at_end cs"
  shows "clean_loop rooted (dd_of rooted st) (rev (render rooted st)) (dot # dot # cs) =
         clean_loop rooted (dd_of rooted (seg_step rooted dots st))
           (rev (render rooted (seg_step rooted dots st))) cs"
proof (cases "st = [] \<or> hd st = dots")
  case True
  have [simp]: "\<not> dd_of rooted st < length (render rooted st)"
    using dd_of_less [OF assms(1)] True by simp
  show ?thesis
  proof (cases st)
    case Nil
    then show ?thesis
      using assms by (simp add: seg_step_def dots_def dd_of_def render_def)
  next
    case (Cons t ts)
    with True stack_ok_Cons_cases [of rooted t ts] assms
    have all: "t = dots" "\<not> rooted" "\<forall>s \<in> set ts. s = dots" by auto
    then have "filter (\<lambda>s. s = dots) ts = ts" by (intro filter_True) auto
    with all Cons assms show ?thesis
      by (simp add: seg_step_def dots_def dd_of_def render_Cons Let_def)
  qed
next
  case False
  then obtain t ts where st: "st = t # ts" "t \<noteq> dots" by (cases st) auto
  with stack_ok_Cons_cases [of rooted t ts] assms have t: "norm_seg t" by auto
  have "dd_of rooted st < length (render rooted st)"
    using dd_of_less [OF assms(1)] False by simp
  with st t assms backtrack_render [of rooted t ts] show ?thesis
    by (simp add: seg_step_def dots_def dd_of_def)
qed

lemma clean_loop_elem:
  assumes ok: "stack_ok rooted st"
    and c: "c \<noteq> slash" "\<not> (c = dot \<and> at_end cs)" "\<not> (c = dot \<and> second_dot cs)"
    and e: "norm_seg (takeWhile (\<lambda>x. x \<noteq> slash) (c # cs))"
  shows "clean_loop rooted (dd_of rooted st) (rev (render rooted st)) (c # cs) =
         clean_loop rooted (dd_of rooted (takeWhile (\<lambda>x. x \<noteq> slash) (c # cs) # st))
           (rev (render rooted (takeWhile (\<lambda>x. x \<noteq> slash) (c # cs) # st)))
           (dropWhile (\<lambda>x. x \<noteq> slash) (c # cs))"
proof -
  have dd: "dd_of rooted (takeWhile (\<lambda>x. x \<noteq> slash) (c # cs) # st) = dd_of rooted st"
    using e by (auto simp: dd_of_def)
  have start: "((rooted \<and> length (rev (render rooted st)) \<noteq> 1) \<or>
      (\<not> rooted \<and> length (rev (render rooted st)) \<noteq> 0)) = (st \<noteq> [])"
    using render_start [OF ok] by simp
  show ?thesis
    unfolding clean_loop.simps dd start render_Cons Let_def using c by auto
qed

lemma clean_loop_stack:
  assumes "stack_ok rooted st"
  shows "clean_loop rooted (dd_of rooted st) (rev (render rooted st)) r =
         rev (render rooted (fold (seg_step rooted) (Split slash r) st))"
  using assms
proof (induction "length r" arbitrary: st r rule: less_induct)
  case less
  note ok = less.prems
  show ?case
  proof (cases r)
    case Nil
    then show ?thesis by (simp add: seg_step_def)
  next
    case (Cons c cs)
    have IH: "length r' \<le> length cs \<Longrightarrow> stack_ok rooted st' \<Longrightarrow>
        clean_loop rooted (dd_of rooted st') (rev (render rooted st')) r' =
        rev (render rooted (fold (seg_step rooted) (Split slash r') st'))" for r' st'
      using less.hyps Cons by simp
    consider (slash) "c = slash" | (dot) "c = dot" "at_end cs"
      | (dots) "c = dot" "\<not> at_end cs" "second_dot cs"
      | (elem) "c \<noteq> slash" "\<not> (c = dot \<and> at_end cs)" "\<not> (c = dot \<and> second_dot cs)"
      by blast
    then show ?thesis
    proof cases
      case slash
      with Cons IH [OF _ ok, of cs] show ?thesis by (simp add: seg_step_def)
    next
      case dot
      with at_end_Split [of cs "[dot]" rooted st] Cons IH [OF _ ok, of cs]
      show ?thesis by (simp add: seg_step_def)
    next
      case dots
      then obtain cs' where cs: "cs = dot # cs'" "at_end cs'" by (cases cs) auto
      with at_end_Split [of cs' dots rooted st] Cons dots
      have spec: "fold (seg_step rooted) (Split slash r) st =
          fold (seg_step rooted) (Split slash cs') (seg_step rooted dots st)"
        by (simp add: dots_def)
      have "slash \<notin> set dots" by (simp add: dots_def)
      note ok' = seg_step_ok [OF ok this]
      show ?thesis unfolding spec
        using IH [OF _ ok', of cs'] dots cs Cons clean_loop_dots [OF ok, of cs'] by simp
    next
      case elem
      let ?e = "takeWhile (\<lambda>x. x \<noteq> slash) (c # cs)" and ?r = "dropWhile (\<lambda>x. x \<noteq> slash) (c # cs)"
      have e: "norm_seg ?e" using element_norm elem by blast
      then have step: "seg_step rooted ?e st = ?e # st"
        by (auto simp: seg_step_def norm_seg_def)
      have spec: "fold (seg_step rooted) (Split slash r) st =
          fold (seg_step rooted) (Split slash ?r) (?e # st)"
        using at_end_Split [OF at_end_dropWhile [of "c # cs"], of ?e rooted st] e Cons
        by (simp only: takeWhile_dropWhile_id step norm_seg_def) simp
      have "length ?r \<le> length cs" using elem by (simp add: length_dropWhile_le)
      then show ?thesis unfolding spec
        using IH [OF _ stack_ok_push [OF e ok], of ?r] elem Cons clean_loop_elem [OF ok elem e]
        by simp
    qed
  qed
qed

subsection \<open>Consequences for Clean and Join\<close>

theorem Clean_rooted: "Clean (slash # r) = slash # join_sep slash (segments True r)"
  using clean_loop_stack [of True "[]" r]
  by (simp add: Clean_def Let_def segments_def render_def dd_of_def)

lemma join_sep_eq_Nil: "join_sep c xs = [] \<longleftrightarrow> xs = [] \<or> xs = [[]]"
  by (cases xs; cases "tl xs") auto

theorem Clean_relative:
  assumes "p \<noteq> []" "hd p \<noteq> slash"
  shows "Clean p = (if segments False p = [] then [dot] else join_sep slash (segments False p))"
proof -
  let ?st = "fold (seg_step False) (Split slash p) []"
  have loop: "clean_loop False 0 [] p = rev (render False ?st)"
    using clean_loop_stack [of False "[]" p] by (simp add: render_def dd_of_def)
  have "stack_ok False ?st"
    using segments_ok [of False p] by (simp add: segments_def)
  then have "render False ?st = [] \<longleftrightarrow> ?st = []"
    using render_start [of False ?st] by simp
  with loop assms show ?thesis
    by (cases p) (auto simp: Clean_def Let_def segments_def render_def)
qed

lemma fold_seg_step_norm:
  "\<forall>s \<in> set xs. norm_seg s \<Longrightarrow> fold (seg_step rooted) xs st = rev xs @ st"
  by (induction xs arbitrary: st) (auto simp: seg_step_def norm_seg_def)

lemma segments_join:
  "\<forall>s \<in> set xs. norm_seg s \<Longrightarrow> segments rooted (join_sep slash xs) = xs"
proof (cases "xs = []")
  case True
  then show ?thesis by (simp add: segments_def seg_step_def)
next
  case False
  assume norm: "\<forall>s \<in> set xs. norm_seg s"
  then have "Split slash (join_sep slash xs) = xs"
    using False by (intro Split_join) (auto simp: norm_seg_def)
  then show ?thesis
    by (simp add: segments_def fold_seg_step_norm [OF norm])
qed

lemma join_buf_join_sep:
  "buf \<noteq> [] \<Longrightarrow> join_buf buf es = join_sep slash (buf # es)"
  by (induction buf es rule: join_buf.induct) (auto simp: join_sep_Cons)

lemma join_buf_start: "e \<noteq> [] \<Longrightarrow> join_buf [] (e # es) = join_sep slash (e # es)"
  by (simp add: join_buf_join_sep)

theorem Join_norm:
  assumes "es \<noteq> []" "\<forall>e \<in> set es. norm_seg e"
  shows "Join es = join_sep slash es"
proof -
  from assms obtain e es' where es: "es = e # es'" "norm_seg e" by (cases es) auto
  then have e: "e \<noteq> []" "hd e \<noteq> slash"
    by (auto simp: norm_seg_def) (metis hd_in_set)
  have buf: "join_buf [] es = join_sep slash es"
    unfolding es(1) by (rule join_buf_start [OF e(1)])
  have hd: "hd (join_sep slash es) \<noteq> slash" and ne: "join_sep slash es \<noteq> []"
    using e unfolding es(1) by (auto simp: join_sep_Cons)
  show ?thesis
    using e es Clean_relative [OF ne hd] segments_join [OF assms(2)] buf
    by (simp add: Join_def)
qed

subsection \<open>Ext\<close>

lemma ext_scan_spec:
  "dot \<notin> set acc \<Longrightarrow> slash \<notin> set acc \<Longrightarrow>
   (ext_scan r acc = [] \<longleftrightarrow> dot \<notin> set (takeWhile (\<lambda>x. x \<noteq> slash) r)) \<and>
   (ext_scan r acc \<noteq> [] \<longrightarrow>
     (\<exists>r' e. ext_scan r acc = dot # e \<and> rev r @ acc = r' @ dot # e \<and> dot \<notin> set e \<and> slash \<notin> set e))"
proof (induction r arbitrary: acc)
  case (Cons c r)
  then show ?case
    by (cases "c = slash"; cases "c = dot") auto
qed simp

lemma Ext_suffix:
  "Ext p \<noteq> [] \<Longrightarrow> \<exists>stem e. Ext p = dot # e \<and> p = stem @ dot # e \<and> dot \<notin> set e \<and> slash \<notin> set e"
  using ext_scan_spec [of "[]" "rev p"] by (auto simp: Ext_def)

lemma Ext_append:
  assumes "dot \<notin> set e" "slash \<notin> set e"
  shows "Ext (stem @ dot # e) = dot # e"
proof -
  have "ext_scan (e' @ dot # r) acc = dot # rev e' @ acc"
    if "dot \<notin> set e'" "slash \<notin> set e'" for e' r acc
    using that by (induction e' arbitrary: acc) auto
  from this [of "rev e"] assms show ?thesis by (simp add: Ext_def)
qed

lemma Ext_Nil_iff: "Ext p = [] \<longleftrightarrow> dot \<notin> set (takeWhile (\<lambda>x. x \<noteq> slash) (rev p))"
  using ext_scan_spec [of "[]" "rev p"] by (simp add: Ext_def)

end
