(* ===== verification/Resolve.thy ===== *)
theory Resolve
  imports GoPath
begin

section \<open>internal/resolve: clean-URL resolution\<close>

text \<open>
  \<^verbatim>\<open>resolve.go\<close> in full: the outcome type, \<^verbatim>\<open>normalize\<close>, \<^verbatim>\<open>joinIndex\<close>, \<^verbatim>\<open>miss\<close> and
  \<^verbatim>\<open>Resolve\<close>, over an arbitrary set of logical paths given by the lookup function. The
  abstract specification is the list of candidate documents of a request (\<open>candidates\<close>):
  \<^verbatim>\<open>Resolve\<close> serves the first candidate the release has, and otherwise falls back.
\<close>

subsection \<open>The code\<close>

datatype Kind = Hit | NotFound | SPAFallback

record Result =
  Kind :: Kind
  Path :: string

definition indexHTML :: string where
  "indexHTML = ''index.html''"

definition normalize_path :: "string \<Rightarrow> string" where
  "normalize_path reqPath =
     (let cleaned = Clean (slash # reqPath);
          logical = TrimPrefix cleaned [slash]
      in if logical = [dot] then [] else logical)"

definition joinIndex :: "string \<Rightarrow> string" where
  "joinIndex dir0 =
     (let dir = TrimSuffix dir0 [slash]
      in if dir = [] then indexHTML else dir @ slash # indexHTML)"

definition miss :: "(string \<Rightarrow> bool) \<Rightarrow> bool \<Rightarrow> Result" where
  "miss ex spa =
     (if spa \<and> ex indexHTML then \<lparr>Kind = SPAFallback, Path = indexHTML\<rparr>
      else \<lparr>Kind = NotFound, Path = []\<rparr>)"

definition Resolve :: "string \<Rightarrow> (string \<Rightarrow> bool) \<Rightarrow> bool \<Rightarrow> Result" where
  "Resolve reqPath ex spa =
     (let logical = normalize_path reqPath in
      if logical = [] then
        (if ex indexHTML then \<lparr>Kind = Hit, Path = indexHTML\<rparr> else miss ex spa)
      else if HasSuffix reqPath [slash] then
        (let cand = joinIndex logical
         in if ex cand then \<lparr>Kind = Hit, Path = cand\<rparr> else miss ex spa)
      else if ex logical then \<lparr>Kind = Hit, Path = logical\<rparr>
      else if Ext logical = [] then
        (let cand = joinIndex logical in
         if ex cand then \<lparr>Kind = Hit, Path = cand\<rparr>
         else
           (let cand' = logical @ ''.html''
            in if ex cand' then \<lparr>Kind = Hit, Path = cand'\<rparr> else miss ex spa))
      else miss ex spa)"

subsection \<open>Specification: the candidate documents of a request\<close>

text \<open>A logical path is \<^emph>\<open>canonical\<close> when it is a slash-separated list of named elements:
  no empty, \<^verbatim>\<open>.\<close> or \<^verbatim>\<open>..\<close> element, no leading or trailing slash.\<close>

definition canonical :: "string \<Rightarrow> bool" where
  "canonical p \<longleftrightarrow> p \<noteq> [] \<and> (\<forall>s \<in> set (Split slash p). norm_seg s)"

definition candidates :: "string \<Rightarrow> string list" where
  "candidates reqPath =
     (let l = normalize_path reqPath in
      if l = [] then [indexHTML]
      else if HasSuffix reqPath [slash] then [l @ slash # indexHTML]
      else l # (if Ext l = [] then [l @ slash # indexHTML, l @ ''.html''] else []))"

subsection \<open>Normalization confines a request path\<close>

lemma normalize_segments: "normalize_path r = join_sep slash (segments True r)"
proof -
  have "join_sep slash (segments True r) \<noteq> [dot]"
  proof
    assume *: "join_sep slash (segments True r) = [dot]"
    then have "segments True r \<noteq> []" by auto
    then have "Split slash (join_sep slash (segments True r)) = segments True r"
      using segments_norm [of _ r] by (intro Split_join) (auto simp: norm_seg_def)
    with * have "segments True r = [[dot]]" by simp
    then have "norm_seg [dot]" using segments_norm [of "[dot]" r] by simp
    then show False by (simp add: norm_seg_def)
  qed
  then show ?thesis
    by (simp add: normalize_path_def Clean_rooted Let_def)
qed

lemma normalize_Nil [simp]: "normalize_path [] = []"
  by (simp add: normalize_segments segments_def seg_step_def)

lemma Split_normalize:
  "normalize_path r \<noteq> [] \<Longrightarrow> Split slash (normalize_path r) = segments True r"
  unfolding normalize_segments
  using segments_norm [of _ r] by (intro Split_join) (auto simp: norm_seg_def)

lemma normalize_canonical: "normalize_path r = [] \<or> canonical (normalize_path r)"
  using Split_normalize [of r] segments_norm [of _ r] by (auto simp: canonical_def)

lemma canonical_segments: "canonical p \<Longrightarrow> segments True p = Split slash p"
  using segments_join [of "Split slash p" True] by (simp add: canonical_def join_Split)

lemma normalize_canonical_id: "canonical p \<Longrightarrow> normalize_path p = p"
  by (simp add: normalize_segments canonical_segments join_Split)

lemma segments_leading_slash: "segments True (slash # p) = segments True p"
  by (simp add: segments_def seg_step_def)

lemma normalize_leading_slash: "normalize_path (slash # p) = normalize_path p"
  by (simp add: normalize_segments segments_leading_slash)

lemma canonical_first_last:
  assumes "canonical p"
  shows "hd p \<noteq> slash" "last p \<noteq> slash"
proof -
  from assms have ne: "p \<noteq> []" and norm: "\<forall>s \<in> set (Split slash p). norm_seg s"
    by (auto simp: canonical_def)
  show "hd p \<noteq> slash"
  proof
    assume "hd p = slash"
    with ne have "[] \<in> set (Split slash p)" by (cases p) auto
    with norm show False by (auto simp: norm_seg_def)
  qed
  show "last p \<noteq> slash"
  proof
    assume "last p = slash"
    with ne obtain q where p: "p = q @ [slash]" by (metis append_butlast_last_id)
    let ?ss = "Split slash q @ [[]]"
    have "join_sep slash ?ss = p"
      by (simp add: p join_sep_snoc join_Split)
    moreover have "Split slash (join_sep slash ?ss) = ?ss"
      by (rule Split_join) (auto dest: Split_elems)
    ultimately have "[] \<in> set (Split slash p)" by simp
    with norm show False by (auto simp: norm_seg_def)
  qed
qed

lemma canonical_append:
  "canonical a \<Longrightarrow> canonical b \<Longrightarrow> canonical (a @ slash # b)"
  by (auto simp: canonical_def Split_append_sep)

lemma canonical_append_name:
  assumes "canonical a" "slash \<notin> set b" "2 < length b"
  shows "canonical (a @ b)"
proof -
  have "norm_seg (last (Split slash a) @ b)"
    using assms last_in_set [of "Split slash a"] Split_elems [of "last (Split slash a)" slash a]
    by (auto simp: norm_seg_def dots_def Cons_eq_append_conv append_eq_Cons_conv)
  with assms show ?thesis
    by (auto simp: canonical_def Split_append_no_sep dest: in_set_butlastD)
qed

lemma canonical_indexHTML: "canonical indexHTML"
  by (simp add: canonical_def indexHTML_def norm_seg_def dots_def)

lemma joinIndex_canonical: "canonical d \<Longrightarrow> joinIndex d = d @ slash # indexHTML"
  using canonical_first_last(2) [of d]
  by (auto simp: joinIndex_def TrimSuffix_def canonical_def Let_def)

lemma candidates_canonical: "c \<in> set (candidates r) \<Longrightarrow> canonical c"
  using normalize_canonical [of r] canonical_indexHTML
  by (auto simp: candidates_def Let_def split: if_splits
      intro: canonical_append canonical_append_name)

subsection \<open>Resolve serves the first candidate\<close>

lemma Resolve_by_candidates:
  "Resolve r ex spa =
     (case find ex (candidates r) of
        Some p \<Rightarrow> \<lparr>Kind = Hit, Path = p\<rparr>
      | None \<Rightarrow> miss ex spa)"
proof (cases "normalize_path r = []")
  case True
  then show ?thesis by (simp add: Resolve_def candidates_def)
next
  case False
  then have "joinIndex (normalize_path r) = normalize_path r @ slash # indexHTML"
    using normalize_canonical joinIndex_canonical by blast
  with False show ?thesis
    by (simp add: Resolve_def candidates_def Let_def del: HasSuffix_snoc)
qed

text \<open>C22: refinement. Resolution is exactly: walk the candidate documents of the request in
  order, serve the first one the release contains, and fall back to \<^verbatim>\<open>miss\<close> when there is
  none.\<close>

theorem Resolve_refines_candidates:
  "Resolve r ex spa =
     (case find ex (candidates r) of
        Some p \<Rightarrow> \<lparr>Kind = Hit, Path = p\<rparr>
      | None \<Rightarrow> miss ex spa)"
  by (rule Resolve_by_candidates)

lemmas Resolve_cases =
  Resolve_by_candidates miss_def find_Some_iff find_None_iff

lemma Resolve_served:
  assumes "Kind (Resolve r ex spa) \<noteq> NotFound"
  shows "ex (Path (Resolve r ex spa)) \<and> canonical (Path (Resolve r ex spa))"
proof (cases "find ex (candidates r)")
  case None
  with assms show ?thesis
    by (auto simp: Resolve_by_candidates miss_def canonical_indexHTML split: if_splits)
next
  case (Some p)
  then have "p \<in> set (candidates r)" "ex p"
    by (auto simp: find_Some_iff)
  with Some show ?thesis
    by (simp add: Resolve_by_candidates candidates_canonical)
qed

text \<open>C23: safety. Confinement: whatever bytes the request path holds, the document a hit or an
  SPA fallback serves is one the release contains, and its logical path is canonical: no
  empty, \<^verbatim>\<open>.\<close> or \<^verbatim>\<open>..\<close> element and no leading or trailing slash.\<close>

theorem Resolve_confined:
  assumes "Kind (Resolve r ex spa) \<noteq> NotFound"
  shows "ex (Path (Resolve r ex spa)) \<and>
    (\<forall>s \<in> set (Split slash (Path (Resolve r ex spa))). s \<noteq> [] \<and> s \<noteq> ''.'' \<and> s \<noteq> ''..'')"
  using Resolve_served [OF assms] by (auto simp: canonical_def norm_seg_def dots_def)

text \<open>A small Hugo tree (the shape of the package's own tests) for the witnesses.\<close>

definition hugoSite :: "string list" where
  "hugoSite = [''index.html'', ''404.html'', ''sitemap.xml'', ''style/main.css'', ''blog/index.html'',
     ''docs/intro/index.html'', ''contact.html'']"

definition hugo :: "string \<Rightarrow> bool" where
  "hugo p \<longleftrightarrow> p \<in> set hugoSite"

lemma Resolve_confined_witness:
  "hugo (Path (Resolve ''/../../docs//./x/../intro/'' hugo False)) \<and>
   Path (Resolve ''/../../docs//./x/../intro/'' hugo False) = ''docs/intro/index.html''"
proof -
  have r: "Resolve ''/../../docs//./x/../intro/'' hugo False =
      \<lparr>Kind = Hit, Path = ''docs/intro/index.html''\<rparr>"
    by code_simp
  show ?thesis
    using Resolve_confined [of "''/../../docs//./x/../intro/''" hugo False] by (simp add: r)
qed

lemma candidates_exact:
  assumes "canonical p"
  shows "\<exists>cs. candidates (slash # p) = p # cs" "\<exists>cs. candidates p = p # cs"
proof -
  have "p \<noteq> []" using assms by (simp add: canonical_def)
  then show "\<exists>cs. candidates (slash # p) = p # cs" "\<exists>cs. candidates p = p # cs"
    using canonical_first_last(2) [OF assms] normalize_canonical_id [OF assms]
    by (auto simp: candidates_def normalize_leading_slash)
qed

text \<open>Every file is reachable: a request for the canonical path of a file of the
  release, with or without the leading slash, serves that file whatever else the release holds.\<close>

theorem Resolve_exact:
  assumes "canonical p" "ex p"
  shows "Resolve (slash # p) ex spa = \<lparr>Kind = Hit, Path = p\<rparr> \<and> Resolve p ex spa = \<lparr>Kind = Hit, Path = p\<rparr>"
  using candidates_exact [OF assms(1)] assms(2) by (auto simp: Resolve_by_candidates)

lemma Resolve_exact_witness:
  "canonical ''style/main.css'' \<and>
   Resolve ''/style/main.css'' hugo True = \<lparr>Kind = Hit, Path = ''style/main.css''\<rparr>"
proof -
  have "canonical ''style/main.css''" "hugo ''style/main.css''"
    by code_simp+
  with Resolve_exact [of "''style/main.css''" hugo True] show ?thesis by simp
qed

text \<open>A request for a page directory: with a trailing slash only the directory
  index is served, never the bare file; without one the exact file wins, then, for a name without
  an extension, the directory index wins over the flat page.\<close>

theorem Resolve_clean_url:
  assumes "canonical d"
  shows "Resolve (slash # d @ ''/'') ex spa =
           (if ex (d @ ''/index.html'') then \<lparr>Kind = Hit, Path = d @ ''/index.html''\<rparr> else miss ex spa) \<and>
         Resolve (slash # d) ex spa =
           (if ex d then \<lparr>Kind = Hit, Path = d\<rparr>
            else if Ext d = [] \<and> ex (d @ ''/index.html'') then \<lparr>Kind = Hit, Path = d @ ''/index.html''\<rparr>
            else if Ext d = [] \<and> ex (d @ ''.html'') then \<lparr>Kind = Hit, Path = d @ ''.html''\<rparr>
            else miss ex spa)"
proof -
  have d: "d \<noteq> []" "last d \<noteq> slash" "normalize_path d = d"
    using assms canonical_first_last(2) normalize_canonical_id by (auto simp: canonical_def)
  have "segments True (d @ [slash]) = segments True d"
    using Split_append_sep [of slash d "[]"] by (simp add: segments_def seg_step_def)
  then have "normalize_path (d @ [slash]) = d"
    using d(3) by (simp add: normalize_segments)
  with d have "candidates (slash # d @ ''/'') = [d @ ''/index.html'']"
    and "candidates (slash # d) = d # (if Ext d = [] then [d @ ''/index.html'', d @ ''.html''] else [])"
    by (auto simp: candidates_def normalize_leading_slash indexHTML_def)
  then show ?thesis
    by (simp add: Resolve_by_candidates)
qed

lemma Resolve_clean_url_witness:
  "canonical ''blog'' \<and> Resolve ''/blog'' hugo False = \<lparr>Kind = Hit, Path = ''blog/index.html''\<rparr> \<and>
   Resolve ''/contact/'' hugo False = \<lparr>Kind = NotFound, Path = []\<rparr>"
proof -
  have c: "canonical ''blog''" "canonical ''contact''" by code_simp+
  have e: "Ext ''blog'' = []" "\<not> hugo ''blog''" "hugo ''blog/index.html''" "\<not> hugo ''contact/index.html''"
    by code_simp+
  have "Resolve ''/blog'' hugo False = \<lparr>Kind = Hit, Path = ''blog/index.html''\<rparr>"
    using Resolve_clean_url [OF c(1), of hugo False, THEN conjunct2] e(1-3) by simp
  moreover have "Resolve ''/contact/'' hugo False = \<lparr>Kind = NotFound, Path = []\<rparr>"
    using Resolve_clean_url [OF c(2), of hugo False, THEN conjunct1] e(4) by (simp add: miss_def)
  ultimately show ?thesis using c(1) by blast
qed

text \<open>Resolution sees a request path only through the path elements it cleans to
  and its trailing slash: two spellings that agree on both (doubled slashes, \<^verbatim>\<open>.\<close> and \<^verbatim>\<open>..\<close>
  elements, attempts to climb above the root) resolve alike in every release.\<close>

theorem Resolve_spelling:
  assumes "segments True r = segments True r'"
    and "HasSuffix r ''/'' = HasSuffix r' ''/'' \<or> segments True r = []"
  shows "Resolve r ex spa = Resolve r' ex spa"
proof -
  have n: "normalize_path r = normalize_path r'"
    using assms(1) by (simp add: normalize_segments)
  show ?thesis
  proof (cases "segments True r = []")
    case True
    then have "normalize_path r' = []" using assms(1) by (simp add: normalize_segments)
    with n show ?thesis by (simp add: Resolve_def)
  next
    case False
    with assms(2) have "HasSuffix r [slash] = HasSuffix r' [slash]" by blast
    then show ?thesis unfolding Resolve_def n by (rule arg_cong)
  qed
qed

lemma Resolve_spelling_witness:
  "segments True ''/../a/./b//../c/'' = segments True ''/a/c/'' \<and>
   Resolve ''/../a/./b//../c/'' hugo True = Resolve ''/a/c/'' hugo True"
proof -
  have "segments True ''/../a/./b//../c/'' = segments True ''/a/c/''" by code_simp
  with Resolve_spelling [of "''/../a/./b//../c/''" "''/a/c/''" hugo True] show ?thesis by simp
qed

text \<open>The not-found outcome: exactly when the release has none of the request's
  candidate documents and is not a single-page application with an index document; then no path
  is reported.\<close>

theorem Resolve_NotFound_iff:
  "Resolve r ex spa = \<lparr>Kind = NotFound, Path = []\<rparr> \<longleftrightarrow>
     filter ex (candidates r) = [] \<and> \<not> (spa \<and> ex indexHTML)"
proof -
  have "find ex (candidates r) = None \<longleftrightarrow> filter ex (candidates r) = []"
    by (auto simp: find_None_iff filter_empty_conv)
  then show ?thesis
    by (auto simp: Resolve_by_candidates miss_def split: option.split)
qed

lemma Resolve_Kind_NotFound: "Kind (Resolve r ex spa) = NotFound \<Longrightarrow> Resolve r ex spa = \<lparr>Kind = NotFound, Path = []\<rparr>"
  by (auto simp: Resolve_by_candidates miss_def split: option.splits if_splits)

end
