(* ===== verification/CacheHeader.thy ===== *)
theory CacheHeader
  imports GoStrings
begin

section \<open>internal/cacheheader: Cache-Control, ETag and the If-None-Match decision\<close>

text \<open>
  \<^verbatim>\<open>cacheheader.go\<close> in full. \<^verbatim>\<open>CacheClass\<close> is a Go string type with two named constants, so a
  manifest can carry any other string; it is kept a string here.
\<close>

type_synonym CacheClass = string

definition ClassImmutable :: CacheClass where
  "ClassImmutable = ''immutable''"

definition ClassHTML :: CacheClass where
  "ClassHTML = ''html''"

definition cacheControlImmutable :: string where
  "cacheControlImmutable = ''public, max-age=31536000, immutable''"

definition cacheControlHTML :: string where
  "cacheControlHTML = ''public, max-age=0, must-revalidate''"

definition CacheControl :: "CacheClass \<Rightarrow> string" where
  "CacheControl c =
     (if c = ClassImmutable then cacheControlImmutable
      else if c = ClassHTML then cacheControlHTML
      else cacheControlHTML)"

definition quote :: char where
  "quote = CHR 0x22"

definition ETag :: "string \<Rightarrow> string" where
  "ETag sha256 = [quote] @ sha256 @ [quote]"

definition normalizeETag :: "string \<Rightarrow> string" where
  "normalizeETag tag =
     TrimSpace (TrimPrefix (TrimPrefix (TrimSpace tag) ''W/'') ''w/'')"

definition NotModified :: "string \<Rightarrow> string \<Rightarrow> bool" where
  "NotModified ifNoneMatch0 etag =
     (let ifNoneMatch = TrimSpace ifNoneMatch0 in
      if ifNoneMatch = [] then False
      else if ifNoneMatch = ''*'' then True
      else list_ex (\<lambda>candidate. normalizeETag candidate = normalizeETag etag)
             (Split CHR '','' ifNoneMatch))"

subsection \<open>Validators\<close>

text \<open>An entity tag as a client sends it back: with or without the weak prefix.\<close>

definition client_tag :: "bool \<times> string \<Rightarrow> string" where
  "client_tag t = (if fst t then ''W/'' else []) @ ETag (snd t)"

fun tag_list :: "(bool \<times> string) list \<Rightarrow> string" where
  "tag_list [] = []"
| "tag_list [t] = client_tag t"
| "tag_list (t # u # ts) = client_tag t @ '', '' @ tag_list (u # ts)"

lemma space_free_quote [simp]: "space_free quote" "space_free CHR ''W''"
  by (simp_all add: space_free_def space_runes_def quote_def)

lemma TrimSpace_ETag [simp]: "TrimSpace (ETag x) = ETag x"
  by (rule TrimSpace_id) (auto simp: ETag_def)

lemma TrimSpace_client_tag [simp]: "TrimSpace (client_tag t) = client_tag t"
  by (rule TrimSpace_id) (auto simp: client_tag_def ETag_def)

lemma TrimPrefix_ETag [simp]:
  "TrimPrefix (ETag x) (CHR ''W'' # r) = ETag x" "TrimPrefix (ETag x) (CHR ''w'' # r) = ETag x"
  by (auto simp: TrimPrefix_def ETag_def HasPrefix_def quote_def)

lemma normalizeETag_client_tag [simp]: "normalizeETag (client_tag t) = ETag (snd t)"
proof -
  have "TrimPrefix (''W/'' @ ETag x) ''W/'' = ETag x" for x
    by (rule TrimPrefix_append)
  then have "TrimPrefix (client_tag t) ''W/'' = ETag (snd t)"
    by (cases "fst t") (simp_all add: client_tag_def)
  then show ?thesis by (simp add: normalizeETag_def)
qed

lemma normalizeETag_ETag [simp]: "normalizeETag (ETag x) = ETag x"
  using normalizeETag_client_tag [of "(False, x)"] by (simp add: client_tag_def)

lemma ETag_inject [simp]: "ETag x = ETag y \<longleftrightarrow> x = y"
  by (simp add: ETag_def)

lemma tag_list_props:
  assumes "ts \<noteq> []"
  shows "tag_list ts \<noteq> []" "space_free (hd (tag_list ts))" "last (tag_list ts) = quote"
    "hd (tag_list ts) \<noteq> CHR ''*''"
  using assms
  by (induction ts rule: tag_list.induct) (auto simp: client_tag_def ETag_def quote_def space_free_quote [unfolded quote_def])

lemma normalizeETag_blank: "normalizeETag (CHR 0x20 # t) = normalizeETag t"
  by (simp add: normalizeETag_def TrimSpace_blank)

lemma list_ex_tag_list:
  assumes "\<forall>t \<in> set ts. CHR '','' \<notin> set (snd t)" "ts \<noteq> []"
  shows "list_ex (\<lambda>c. normalizeETag c = ETag x) (Split CHR '','' (tag_list ts)) \<longleftrightarrow> x \<in> snd ` set ts"
  using assms
proof (induction ts rule: tag_list.induct)
  case (2 t)
  then have "CHR '','' \<notin> set (client_tag t)"
    by (auto simp: client_tag_def ETag_def quote_def)
  then show ?case by auto
next
  case (3 t u ts)
  then have "CHR '','' \<notin> set (client_tag t)"
    by (auto simp: client_tag_def ETag_def quote_def)
  then have split: "Split CHR '','' (tag_list (t # u # ts)) =
      client_tag t # Split CHR '','' (CHR 0x20 # tag_list (u # ts))"
    by (simp add: Split_append)
  obtain a b where ab: "Split CHR '','' (tag_list (u # ts)) = a # b"
    by (cases "Split CHR '','' (tag_list (u # ts))") auto
  have "Split CHR '','' (CHR 0x20 # tag_list (u # ts)) = (CHR 0x20 # a) # b"
    using ab by (subst Split.simps) (subst (asm) Split.simps, auto split: if_splits)
  then show ?case
    using 3 ab unfolding split by (auto simp: normalizeETag_blank)
qed simp

text \<open>C40: functional. \<^verbatim>\<open>If-None-Match\<close> is compared weakly against the whole list: for any list of
  validators, each strong or weak, a request that sends them back is answered 304 exactly when the
  blob's digest is among them.\<close>

theorem NotModified_client_list:
  assumes "\<forall>t \<in> set ts. CHR '','' \<notin> set (snd t)"
  shows "NotModified (tag_list ts) (ETag sha) \<longleftrightarrow> sha \<in> snd ` set ts"
proof (cases "ts = []")
  case True
  then show ?thesis by (simp add: NotModified_def)
next
  case False
  note p = tag_list_props [OF False]
  have "TrimSpace (tag_list ts) = tag_list ts"
    using p by (intro TrimSpace_id) auto
  moreover have "tag_list ts \<noteq> ''*''"
    using p(4) by auto
  ultimately show ?thesis
    using list_ex_tag_list [OF assms False, of sha] p(1) by (simp add: NotModified_def)
qed

lemma NotModified_client_list_witness:
  "NotModified (tag_list [(False, ''00ff''), (True, ''a1b2'')]) (ETag ''a1b2'') \<and>
   \<not> NotModified (tag_list [(False, ''00ff'')]) (ETag ''a1b2'')"
  using NotModified_client_list [of "[(False, ''00ff''), (True, ''a1b2'')]" "''a1b2''"]
    NotModified_client_list [of "[(False, ''00ff'')]" "''a1b2''"]
  by simp

text \<open>Only a blob the manifest classes as immutable gets the year-long lifetime; every
  other class string, known or not, is revalidated on each use.\<close>

theorem CacheControl_conservative:
  "CacheControl c = ''public, max-age=31536000, immutable'' \<longleftrightarrow> c = ''immutable''"
  by (simp add: CacheControl_def ClassImmutable_def ClassHTML_def cacheControlImmutable_def cacheControlHTML_def)

lemma CacheControl_otherwise:
  "c \<noteq> ClassImmutable \<Longrightarrow> CacheControl c = cacheControlHTML"
  by (simp add: CacheControl_def)

end
