(* ===== verification/ContentType.thy ===== *)
theory ContentType
  imports GoPath
begin

section \<open>internal/contenttype: the canonical extension table\<close>

text \<open>
  \<^verbatim>\<open>contenttype.go\<close> in full. The Go map literal has distinct keys and is never written, so it is
  an association list here.
\<close>

definition Default :: string where
  "Default = ''application/octet-stream''"

definition ctable :: "(string \<times> string) list" where
  "ctable =
    [(''html'', ''text/html; charset=utf-8''),
     (''htm'', ''text/html; charset=utf-8''),
     (''css'', ''text/css; charset=utf-8''),
     (''js'', ''text/javascript; charset=utf-8''),
     (''mjs'', ''text/javascript; charset=utf-8''),
     (''json'', ''application/json; charset=utf-8''),
     (''xml'', ''application/xml; charset=utf-8''),
     (''txt'', ''text/plain; charset=utf-8''),
     (''map'', ''application/json; charset=utf-8''),
     (''svg'', ''image/svg+xml''),
     (''png'', ''image/png''),
     (''jpg'', ''image/jpeg''),
     (''jpeg'', ''image/jpeg''),
     (''gif'', ''image/gif''),
     (''webp'', ''image/webp''),
     (''avif'', ''image/avif''),
     (''ico'', ''image/x-icon''),
     (''woff2'', ''font/woff2''),
     (''woff'', ''font/woff''),
     (''ttf'', ''font/ttf''),
     (''otf'', ''font/otf''),
     (''eot'', ''application/vnd.ms-fontobject''),
     (''wasm'', ''application/wasm''),
     (''pdf'', ''application/pdf'')]"

definition FromPath :: "string \<Rightarrow> string" where
  "FromPath p =
     (let ext = Ext p in
      if ext = [] then Default
      else
        (let ext' = ToLower (TrimPrefix ext ''.'')
         in case map_of ctable ext' of Some ct \<Rightarrow> ct | None \<Rightarrow> Default))"

definition FromExt :: "string \<Rightarrow> string" where
  "FromExt ext =
     (let ext' = ToLower (TrimPrefix ext ''.'') in
      if ext' = [] then Default
      else case map_of ctable ext' of Some ct \<Rightarrow> ct | None \<Rightarrow> Default)"

lemma ctable_no_empty: "map_of ctable [] = None"
  by (simp add: ctable_def)

lemma FromPath_FromExt: "FromPath p = FromExt (Ext p)"
  by (auto simp: FromPath_def FromExt_def Let_def ctable_no_empty TrimPrefix_def HasPrefix_def split: option.split)

text \<open>The two entry points agree, and a path's type depends on nothing but the text
  after its last dot, in any case: for any directory and stem, the type of \<^verbatim>\<open>stem.ext\<close> is the type of
  the bare extension, written with or without its dot.\<close>

theorem FromPath_last_extension:
  assumes "dot \<notin> set e" "slash \<notin> set e"
  shows "FromPath (stem @ dot # e) = FromExt e \<and> FromExt (dot # e) = FromExt e"
proof -
  have "TrimPrefix e ''.'' = e"
    using assms(1) by (cases e) (auto simp: TrimPrefix_def HasPrefix_def)
  then have "FromExt (dot # e) = FromExt e"
    by (simp add: FromExt_def)
  with Ext_append [OF assms, of stem] show ?thesis
    by (simp add: FromPath_FromExt)
qed

lemma FromPath_last_extension_witness:
  "FromPath ''css/main.4f3a9b.min.CsS'' = FromExt ''CsS'' \<and> FromExt ''CsS'' = ''text/css; charset=utf-8''"
proof -
  have "FromExt ''CsS'' = ''text/css; charset=utf-8''" by code_simp
  with FromPath_last_extension [of "''CsS''" "''css/main.4f3a9b.min''"] show ?thesis by simp
qed

lemma ctable_types:
  "(k, v) \<in> set ctable \<Longrightarrow> (HasPrefix v ''text/'' \<longrightarrow> HasSuffix v ''; charset=utf-8'') \<and>
     (HasPrefix v ''text/html'' \<longleftrightarrow> k = ''html'' \<or> k = ''htm'')"
proof -
  have "list_all (\<lambda>(k, v). (HasPrefix v ''text/'' \<longrightarrow> HasSuffix v ''; charset=utf-8'') \<and>
     (HasPrefix v ''text/html'' \<longleftrightarrow> k = ''html'' \<or> k = ''htm'')) ctable"
    by code_simp
  then show "(k, v) \<in> set ctable \<Longrightarrow> ?thesis" by (auto simp: list_all_iff)
qed

lemma ctable_html: "map_of ctable ''html'' \<noteq> None" "map_of ctable ''htm'' \<noteq> None"
  by (simp_all add: ctable_def)

text \<open>Every type the table can answer is well formed: every text type carries
  the utf-8 charset, and an HTML type is answered
  only for the html and htm extensions.\<close>

theorem FromPath_types:
  "(HasPrefix (FromPath p) ''text/'' \<longrightarrow> HasSuffix (FromPath p) ''; charset=utf-8'') \<and>
   (HasPrefix (FromPath p) ''text/html'' \<longleftrightarrow>
      ToLower (TrimPrefix (Ext p) ''.'') = ''html'' \<or> ToLower (TrimPrefix (Ext p) ''.'') = ''htm'')"
proof (cases "map_of ctable (ToLower (TrimPrefix (Ext p) ''.''))")
  case None
  then have "FromPath p = Default"
    by (auto simp: FromPath_def Let_def)
  moreover have "\<not> HasPrefix Default ''text/''" "\<not> HasPrefix Default ''text/html''"
    by (simp_all add: Default_def HasPrefix_def)
  ultimately show ?thesis
    using None ctable_html by auto
next
  case (Some ct)
  moreover from Some have "Ext p \<noteq> []"
    by (auto simp: ctable_no_empty TrimPrefix_def HasPrefix_def)
  ultimately have "FromPath p = ct"
    by (simp add: FromPath_def)
  with ctable_types [OF map_of_SomeD [OF Some]] show ?thesis by simp
qed

lemma FromPath_types_witness:
  "HasSuffix (FromPath ''robots.txt'') ''; charset=utf-8'' \<and> HasPrefix (FromPath ''A/B.HTM'') ''text/html''"
proof -
  have "HasPrefix (FromPath ''robots.txt'') ''text/''" "ToLower (TrimPrefix (Ext ''A/B.HTM'') ''.'') = ''htm''"
    by code_simp+
  with FromPath_types [of "''robots.txt''"] FromPath_types [of "''A/B.HTM''"] show ?thesis by blast
qed

end
