(* ===== verification/GoTime.thy ===== *)
theory GoTime
  imports GoStrconv "HOL-Library.Monad_Syntax"
begin

section \<open>Package time: instants, RFC 3339 and the HTTP date\<close>

text \<open>
  An instant is the number of seconds since 1 January of year 1, 00:00:00 UTC, and nanoseconds
  within the second: the representation in which \<^verbatim>\<open>IsZero\<close> is "both are zero" and
  \<^verbatim>\<open>Truncate(time.Second)\<close> drops the nanoseconds. The calendar is the proleptic Gregorian one
  that package \<^verbatim>\<open>time\<close> uses. \<^verbatim>\<open>time.Parse(time.RFC3339, v)\<close> is the general layout parser with its
  leniencies (a one-digit hour, a fraction after a dot or a comma whatever the layout says, zone
  offsets up to 24:60); the strict fast path of the library accepts a subset of that with the
  same result.
\<close>

datatype gotime = GoTime (t_sec: int) (t_nsec: int)

instantiation gotime :: linorder
begin

definition less_eq_gotime :: "gotime \<Rightarrow> gotime \<Rightarrow> bool" where
  "less_eq_gotime a b \<longleftrightarrow> t_sec a < t_sec b \<or> (t_sec a = t_sec b \<and> t_nsec a \<le> t_nsec b)"

definition less_gotime :: "gotime \<Rightarrow> gotime \<Rightarrow> bool" where
  "less_gotime a b \<longleftrightarrow> t_sec a < t_sec b \<or> (t_sec a = t_sec b \<and> t_nsec a < t_nsec b)"

instance
  by standard (auto simp: less_eq_gotime_def less_gotime_def gotime.expand)

end

definition zeroTime :: gotime where
  "zeroTime = GoTime 0 0"

definition IsZero :: "gotime \<Rightarrow> bool" where
  "IsZero t \<longleftrightarrow> t = zeroTime"

definition After :: "gotime \<Rightarrow> gotime \<Rightarrow> bool" where
  "After t u \<longleftrightarrow> u < t"

definition TruncateSecond :: "gotime \<Rightarrow> gotime" where
  "TruncateSecond t = GoTime (t_sec t) 0"

text \<open>\<^verbatim>\<open>UnixNano\<close>, within the years its 64 bits can hold (1678 to 2262).\<close>

definition UnixNano :: "gotime \<Rightarrow> int" where
  "UnixNano t = (t_sec t - 62135596800) * 1000000000 + t_nsec t"

definition AddNanos :: "gotime \<Rightarrow> int \<Rightarrow> gotime" where
  "AddNanos t d =
     (let n = t_nsec t + d in GoTime (t_sec t + n div 1000000000) (n mod 1000000000))"

lemma UnixNano_Add: "UnixNano (AddNanos t d) = UnixNano t + d"
  by (simp add: UnixNano_def AddNanos_def Let_def algebra_simps)

subsection \<open>The calendar\<close>

definition is_leap :: "int \<Rightarrow> bool" where
  "is_leap y \<longleftrightarrow> y mod 4 = 0 \<and> (y mod 100 \<noteq> 0 \<or> y mod 400 = 0)"

definition days_before_year :: "int \<Rightarrow> int" where
  "days_before_year y = 365 * (y - 1) + (y - 1) div 4 - (y - 1) div 100 + (y - 1) div 400"

text \<open>Days before each month in a common year.\<close>

definition month_starts :: "int list" where
  "month_starts = [0, 31, 59, 90, 120, 151, 181, 212, 243, 273, 304, 334]"

definition days_before_month :: "bool \<Rightarrow> nat \<Rightarrow> int" where
  "days_before_month leap m =
     (if 1 \<le> m \<and> m \<le> 12 then month_starts ! (m - 1) else 0) + (if leap \<and> 2 < m then 1 else 0)"

definition days_in :: "nat \<Rightarrow> int \<Rightarrow> int" where
  "days_in m y =
     (if m = 2 then (if is_leap y then 29 else 28)
      else if m = 4 \<or> m = 6 \<or> m = 9 \<or> m = 11 then 30 else 31)"

definition date_days :: "int \<Rightarrow> nat \<Rightarrow> int \<Rightarrow> int" where
  "date_days y m d = days_before_year y + days_before_month (is_leap y) m + d - 1"

text \<open>The inverse: year and day of the year by 400, 100, 4 and 1 year cycles, then the month.\<close>

definition year_yday :: "int \<Rightarrow> int \<times> int" where
  "year_yday n =
     (let n400 = n div 146097; r400 = n mod 146097;
          n100 = min 3 (r400 div 36524); r100 = r400 - 36524 * n100;
          n4 = r100 div 1461; r4 = r100 mod 1461;
          n1 = min 3 (r4 div 365)
      in (400 * n400 + 100 * n100 + 4 * n4 + n1 + 1, r4 - 365 * n1))"

fun month_of :: "bool \<Rightarrow> int \<Rightarrow> nat \<Rightarrow> nat" where
  "month_of leap yday 0 = 1"
| "month_of leap yday (Suc m) =
     (if days_before_month leap (Suc m) \<le> yday then Suc m else month_of leap yday m)"

definition month_at :: "bool \<Rightarrow> int \<Rightarrow> nat" where
  "month_at leap yday = month_of leap yday 12"

definition civil_of_days :: "int \<Rightarrow> int \<times> nat \<times> int" where
  "civil_of_days n =
     (let (y, yday) = year_yday n; m = month_at (is_leap y) yday
      in (y, m, yday - days_before_month (is_leap y) m + 1))"

definition weekday :: "int \<Rightarrow> nat" where
  "weekday n = nat ((n + 1) mod 7)"

text \<open>The cycle counts, as a system of linear constraints.\<close>

lemma year_yday_cycles:
  assumes "year_yday n = (y, yd)"
  obtains a b c e where "n = 146097 * a + 36524 * b + 1461 * c + 365 * e + yd"
    "y = 400 * a + 100 * b + 4 * c + e + 1"
    "0 \<le> b" "b \<le> 3" "0 \<le> c" "c \<le> 24" "0 \<le> e" "e \<le> 3" "0 \<le> yd" "yd \<le> 365"
    "yd = 365 \<longrightarrow> e = 3 \<and> (c = 24 \<longrightarrow> b = 3)"
proof -
  define r where "r = n mod 146097"
  define b where "b = min 3 (r div 36524)"
  define r2 where "r2 = r - 36524 * b"
  define r3 where "r3 = r2 mod 1461"
  define c where "c = r2 div 1461"
  define e where "e = min 3 (r3 div 365)"
  have y: "y = 400 * (n div 146097) + 100 * b + 4 * c + e + 1" and yd: "yd = r3 - 365 * e"
    using assms unfolding year_yday_def Let_def r_def [symmetric] b_def [symmetric] r2_def [symmetric]
      r3_def [symmetric] c_def [symmetric] e_def [symmetric] prod.inject
    by (blast intro: sym)+
  have r: "0 \<le> r" "r \<le> 146096" by (simp_all add: r_def)
  define q where "q = r div 36524"
  have "r = 36524 * q + r mod 36524" "0 \<le> r mod 36524" "r mod 36524 < 36524"
    by (simp_all add: q_def)
  with r have q: "0 \<le> q" "36524 * q \<le> r" "r < 36524 * q + 36524" "q \<le> 4"
    by linarith+
  with r have b: "0 \<le> b" "b \<le> 3" "0 \<le> r2" "r2 \<le> 36524" "r2 = 36524 \<longrightarrow> b = 3"
    unfolding r2_def b_def q_def [symmetric] min_def using q by (auto split: if_splits)
  have r2: "r2 = 1461 * c + r3" by (simp add: c_def r3_def)
  have r3: "0 \<le> r3" "r3 \<le> 1460" by (simp_all add: r3_def)
  have c: "0 \<le> c" "c \<le> 24" using b r2 r3 by linarith+
  have e: "0 \<le> e" "e \<le> 3" "0 \<le> yd" "yd \<le> 365" "yd = 365 \<longrightarrow> e = 3 \<and> r3 = 1460"
    unfolding yd e_def using r3 by linarith+
  show thesis
  proof
    show "n = 146097 * (n div 146097) + 36524 * b + 1461 * c + 365 * e + yd"
      using r2 yd div_mult_mod_eq [of n 146097] unfolding r2_def r_def by linarith
    show "yd = 365 \<longrightarrow> e = 3 \<and> (c = 24 \<longrightarrow> b = 3)"
      using e b r2 by auto
  qed (use y b c e in auto)
qed

lemma year_yday_inverse:
  assumes "year_yday n = (y, yd)"
  shows "days_before_year y + yd = n" "0 \<le> yd" "yd < (if is_leap y then 366 else 365)"
proof -
  from assms obtain a b c e where n: "n = 146097 * a + 36524 * b + 1461 * c + 365 * e + yd"
    and y: "y = 400 * a + 100 * b + 4 * c + e + 1"
    and bounds: "0 \<le> b" "b \<le> 3" "0 \<le> c" "c \<le> 24" "0 \<le> e" "e \<le> 3" "0 \<le> yd" "yd \<le> 365"
    and last: "yd = 365 \<longrightarrow> e = 3 \<and> (c = 24 \<longrightarrow> b = 3)"
    by (rule year_yday_cycles)
  have q: "(y - 1) div 4 = 100 * a + 25 * b + c" "(y - 1) div 100 = 4 * a + b" "(y - 1) div 400 = a"
    unfolding y using bounds by linarith+
  show "days_before_year y + yd = n"
    unfolding days_before_year_def q n by (simp add: y)
  show "0 \<le> yd" by (rule bounds)
  have "is_leap y" if "yd = 365"
  proof (cases "c = 24")
    case True
    with last that y have "y = 400 * (a + 1)" by simp
    then show ?thesis by (simp add: is_leap_def)
  next
    case False
    with last that y bounds have y': "y = (4 * c + 4) + 100 * (4 * a + b)" "c < 24" by auto
    have "y mod 100 = (4 * c + 4) mod 100" unfolding y' by (rule mod_mult_self2)
    also have "\<dots> = 4 * c + 4" using y'(2) bounds(3) by (intro mod_pos_pos_trivial) auto
    finally have "y mod 100 \<noteq> 0" using bounds(3) by simp
    moreover have "y mod 4 = 0"
    proof -
      have "y = 4 * (25 * (4 * a + b) + c + 1)" using y' by simp
      then show ?thesis by simp
    qed
    ultimately show ?thesis by (simp add: is_leap_def)
  qed
  then show "yd < (if is_leap y then 366 else 365)" using bounds(8) by fastforce
qed

lemma month_of_range:
  "0 \<le> yd \<Longrightarrow> 1 \<le> month_of leap yd m \<and> month_of leap yd m \<le> max 1 m"
  by (induction m) auto

lemma civil_of_days_cases:
  assumes "civil_of_days n = (y, m, d)"
  obtains yd where "year_yday n = (y, yd)" "m = month_at (is_leap y) yd"
    "d = yd - days_before_month (is_leap y) m + 1"
  using assms by (auto simp: civil_of_days_def Let_def split: prod.splits)

lemma civil_of_days_inverse:
  assumes "civil_of_days n = (y, m, d)"
  shows "date_days y m d = n"
proof -
  from assms obtain yd where "year_yday n = (y, yd)" "d = yd - days_before_month (is_leap y) m + 1"
    by (rule civil_of_days_cases)
  with year_yday_inverse(1) show ?thesis
    unfolding date_days_def by fastforce
qed

text \<open>The day computed is a day of the month.\<close>

lemma civil_of_days_valid:
  assumes "civil_of_days n = (y, m, d)"
  shows "1 \<le> m \<and> m \<le> 12 \<and> 1 \<le> d \<and> d \<le> days_in m y"
proof -
  from assms obtain yd where yd: "year_yday n = (y, yd)" and m: "m = month_at (is_leap y) yd"
    and d: "d = yd - days_before_month (is_leap y) m + 1"
    by (rule civil_of_days_cases)
  have "0 \<le> yd" "yd < (if is_leap y then 366 else 365)"
    using year_yday_inverse [OF yd] by auto
  then show ?thesis
    unfolding d m
    by (auto simp: month_at_def numeral_eq_Suc days_before_month_def month_starts_def days_in_def split: if_splits)
qed

subsection \<open>time.Parse(time.RFC3339, value)\<close>

definition isDigit :: "char \<Rightarrow> bool" where
  "isDigit c \<longleftrightarrow> digit_value c \<noteq> None"

fun getnum :: "bool \<Rightarrow> string \<Rightarrow> (nat \<times> string) option" where
  "getnum fixed (a # b # r) =
     (case (digit_value a, digit_value b) of
        (Some x, Some y) \<Rightarrow> Some (10 * x + y, r)
      | (Some x, None) \<Rightarrow> if fixed then None else Some (x, b # r)
      | _ \<Rightarrow> None)"
| "getnum fixed [a] =
     (case digit_value a of Some x \<Rightarrow> if fixed then None else Some (x, []) | None \<Rightarrow> None)"
| "getnum fixed [] = None"

fun expect :: "char \<Rightarrow> string \<Rightarrow> string option" where
  "expect c [] = None"
| "expect c (d # r) = (if c = d then Some r else None)"

definition check :: "bool \<Rightarrow> unit option" where
  "check b = (if b then Some () else None)"

definition parse_fraction :: "string \<Rightarrow> nat \<times> string" where
  "parse_fraction v =
     (case v of
        p # c # r \<Rightarrow>
          if (p = dot \<or> p = CHR '','') \<and> isDigit c
          then (let ds = takeWhile isDigit (c # r); ds9 = take 9 ds
                in (case read_nat ds9 of None \<Rightarrow> 0 | Some n \<Rightarrow> n * 10 ^ (9 - length ds9),
                    dropWhile isDigit (c # r)))
          else (0, v)
      | _ \<Rightarrow> (0, v))"

text \<open>The zone offset in seconds.\<close>

definition parse_zone :: "string \<Rightarrow> (int \<times> string) option" where
  "parse_zone v =
     (if take 1 v = ''Z'' then Some (0, drop 1 v)
      else if length v < 6 \<or> v ! 3 \<noteq> CHR '':'' then None
      else do {
        (hr, _) \<leftarrow> getnum True (take 2 (drop 1 v));
        (mm, _) \<leftarrow> getnum True (take 2 (drop 4 v));
        check (hr \<le> 24 \<and> mm \<le> 60);
        let off = int (hr * 60 + mm) * 60;
        if hd v = CHR ''+'' then Some (off, drop 6 v)
        else if hd v = CHR ''-'' then Some (- off, drop 6 v)
        else None
      })"

definition parse_RFC3339 :: "string \<Rightarrow> gotime option" where
  "parse_RFC3339 value = do {
     check (4 \<le> length value);
     year \<leftarrow> read_nat (take 4 value);
     v \<leftarrow> expect CHR ''-'' (drop 4 value);
     (month, v) \<leftarrow> getnum True v;
     v \<leftarrow> expect CHR ''-'' v;
     (day, v) \<leftarrow> getnum True v;
     v \<leftarrow> expect CHR ''T'' v;
     (hour, v) \<leftarrow> getnum False v;
     v \<leftarrow> expect CHR '':'' v;
     (mi, v) \<leftarrow> getnum True v;
     v \<leftarrow> expect CHR '':'' v;
     (sec, v) \<leftarrow> getnum True v;
     let (nsec, v) = parse_fraction v;
     (off, v) \<leftarrow> parse_zone v;
     check (v = [] \<and> 1 \<le> month \<and> month \<le> 12 \<and> hour < 24 \<and> mi < 60 \<and> sec < 60 \<and>
            1 \<le> day \<and> int day \<le> days_in month (int year));
     Some (GoTime (86400 * date_days (int year) month (int day) +
                   int (3600 * hour + 60 * mi + sec) - off) (int nsec))
   }"

lemma parse_RFC3339_Nil: "parse_RFC3339 [] = None"
  by (simp add: parse_RFC3339_def check_def)

subsection \<open>Format(http.TimeFormat) of a UTC time\<close>

definition shortDayNames :: "string list" where
  "shortDayNames = [''Sun'', ''Mon'', ''Tue'', ''Wed'', ''Thu'', ''Fri'', ''Sat'']"

definition shortMonthNames :: "string list" where
  "shortMonthNames = [''Jan'', ''Feb'', ''Mar'', ''Apr'', ''May'', ''Jun'', ''Jul'', ''Aug'', ''Sep'',
     ''Oct'', ''Nov'', ''Dec'']"

definition pad :: "nat \<Rightarrow> nat \<Rightarrow> string" where
  "pad w n = (let s = show_nat n in replicate (w - length s) CHR ''0'' @ s)"

definition format_HTTP :: "gotime \<Rightarrow> string" where
  "format_HTTP t =
     (let days = t_sec t div 86400; tod = nat (t_sec t mod 86400);
          (y, m, d) = civil_of_days days
      in shortDayNames ! weekday days @ '', '' @ pad 2 (nat d) @ '' '' @
         shortMonthNames ! (m - 1) @ '' '' @
         (if y < 0 then ''-'' @ pad 4 (nat (- y)) else pad 4 (nat y)) @ '' '' @
         pad 2 (tod div 3600) @ '':'' @ pad 2 (tod mod 3600 div 60) @ '':'' @ pad 2 (tod mod 60) @
         '' GMT'')"

text \<open>The indices the formatter uses are in range for every instant.\<close>

lemma format_HTTP_indices:
  "weekday n < length shortDayNames" "civil_of_days n = (y, m, d) \<Longrightarrow> m - 1 < length shortMonthNames"
proof -
  have "0 \<le> (n + 1) mod 7" "(n + 1) mod 7 < 7" by simp_all
  then show "weekday n < length shortDayNames"
    unfolding weekday_def shortDayNames_def by (simp add: nat_less_iff)
  show "civil_of_days n = (y, m, d) \<Longrightarrow> m - 1 < length shortMonthNames"
    using civil_of_days_valid [of n y m d] by (auto simp: shortMonthNames_def)
qed

lemma format_HTTP_not_Nil: "format_HTTP t \<noteq> []"
  by (simp add: format_HTTP_def Let_def split: prod.split)

text \<open>Evaluation on a closed instant, for the witnesses.\<close>

lemma month_of_numeral:
  "month_of leap yd (numeral k) =
     (if days_before_month leap (numeral k) \<le> yd then numeral k else month_of leap yd (pred_numeral k))"
  by (simp add: numeral_eq_Suc)

lemmas civil_eval = civil_of_days_def month_at_def month_of_numeral is_leap_def days_before_month_def
  month_starts_def
lemmas parse_eval = parse_RFC3339_def check_def read_nat_def digit_value_def isDigit_def
  parse_fraction_def parse_zone_def date_days_def days_in_def is_leap_def days_before_year_def
  days_before_month_def month_starts_def
lemmas format_eval = format_HTTP_def pad_def show_nat.simps weekday_def shortDayNames_def
  shortMonthNames_def

lemma example_date: "year_yday 739779 = (2026, 163)"
  by (simp add: year_yday_def)

lemma parse_format_example:
  "parse_RFC3339 ''2026-06-13T12:30:05.25+02:30'' = Some (GoTime 63916941605 250000000) \<and>
   format_HTTP (GoTime 63916941605 250000000) = ''Sat, 13 Jun 2026 10:00:05 GMT''"
proof
  show "parse_RFC3339 ''2026-06-13T12:30:05.25+02:30'' = Some (GoTime 63916941605 250000000)"
    by (simp add: parse_eval)
  have "civil_of_days 739779 = (2026, 6, 13)"
    by (simp add: example_date civil_eval)
  then show "format_HTTP (GoTime 63916941605 250000000) = ''Sat, 13 Jun 2026 10:00:05 GMT''"
    by (simp add: format_eval)
qed

end
