(* ===== verification/ReleaseManifest.thy ===== *)
theory ReleaseManifest
  imports CacheHeader GoTime "HOL-Library.AList" "HOL-Library.Multiset" "HOL-Library.Char_ord"
    "HOL-Library.List_Lexorder"
begin

section \<open>internal/manifest: the release manifest and its loader\<close>

text \<open>
  \<^verbatim>\<open>manifest.go\<close>: the types, the accessors, \<^verbatim>\<open>precompute\<close>, \<^verbatim>\<open>canonicalizeFileKeys\<close> and \<^verbatim>\<open>Load\<close>.

  A Go map is \<open>None\<close> when nil and otherwise the list of its entries, with distinct keys. Go
  iterates a map in an order it chooses anew for each \<^verbatim>\<open>range\<close> statement: the model takes that choice
  as an argument \<open>rng\<close>, \<open>rng i\<close> being the order of the \<open>i\<close>-th \<^verbatim>\<open>range\<close> that \<^verbatim>\<open>Load\<close> runs, and
  \<open>go_range\<close> says it visits every entry once. Theorems quantify over \<open>rng\<close>; what depends on it is
  nondeterminism of the program.

  The JSON decoder is an argument as well (\<open>dec\<close>): bytes to an error or the struct it fills.
\<close>

subsection \<open>Data\<close>

type_synonym 'v gomap = "(string \<times> 'v) list option"

definition gomap_entries :: "'v gomap \<Rightarrow> (string \<times> 'v) list" where
  "gomap_entries m = (case m of None \<Rightarrow> [] | Some xs \<Rightarrow> xs)"

record File =
  Blob :: string
  ContentType :: string
  Cache :: CacheClass

definition zeroFile :: File where
  "zeroFile = \<lparr>Blob = [], ContentType = [], Cache = []\<rparr>"

record Manifest =
  Release :: string
  CreatedAt :: string
  Environment :: string
  SPA :: bool
  NotFoundName :: string
  Files :: "File gomap"
  modTime :: gotime
  lastModified :: string
  approxBytes :: int

definition fileEntryBytes :: int where
  "fileEntryBytes = 96"

definition manifestBaseBytes :: int where
  "manifestBaseBytes = 512"

definition DefaultNotFound :: string where
  "DefaultNotFound = ''404.html''"

definition EnvironmentProduction :: string where
  "EnvironmentProduction = ''production''"

definition IsProduction :: "Manifest \<Rightarrow> bool" where
  "IsProduction m \<longleftrightarrow> Environment m = EnvironmentProduction"

definition NotFoundDoc :: "Manifest \<Rightarrow> string" where
  "NotFoundDoc m = (if NotFoundName m = [] then DefaultNotFound else NotFoundName m)"

definition Lookup :: "Manifest \<Rightarrow> string \<Rightarrow> File \<times> bool" where
  "Lookup m p =
     (case map_of (gomap_entries (Files m)) p of Some f \<Rightarrow> (f, True) | None \<Rightarrow> (zeroFile, False))"

definition ModTime :: "Manifest \<Rightarrow> gotime" where
  "ModTime m = modTime m"

definition LastModified :: "Manifest \<Rightarrow> string" where
  "LastModified m = lastModified m"

definition ApproxSize :: "Manifest \<Rightarrow> int" where
  "ApproxSize m = approxBytes m"

subsection \<open>Iteration order\<close>

type_synonym rng = "nat \<Rightarrow> (string \<times> File) list \<Rightarrow> (string \<times> File) list"

definition go_range :: "rng \<Rightarrow> bool" where
  "go_range rng \<longleftrightarrow> (\<forall>i xs. mset (rng i xs) = mset xs)"

definition SortedPaths :: "rng \<Rightarrow> Manifest \<Rightarrow> string list" where
  "SortedPaths rng m = sort (map fst (rng 5 (gomap_entries (Files m))))"

subsection \<open>Loading\<close>

definition precompute :: "rng \<Rightarrow> Manifest \<Rightarrow> Manifest" where
  "precompute rng m0 =
     (let m = (if CreatedAt m0 \<noteq> [] then
                 (case parse_RFC3339 (CreatedAt m0) of
                    Some t \<Rightarrow> m0\<lparr>modTime := t, lastModified := format_HTTP t\<rparr>
                  | None \<Rightarrow> m0)
               else m0);
          size = fold (\<lambda>(p, f) size. size +
                     (int (length p) + int (length (Blob f)) + int (length (ContentType f)) +
                      int (length (Cache f)) + fileEntryBytes))
                   (rng 4 (gomap_entries (Files m))) manifestBaseBytes
      in m\<lparr>approxBytes := size\<rparr>)"

text \<open>The two passes of \<^verbatim>\<open>canonicalizeFileKeys\<close>, as the loops over the entries visited.\<close>

fun keep_canonical :: "(string \<times> File) list \<Rightarrow> (string \<times> File) list \<Rightarrow> (string \<times> File) list" where
  "keep_canonical [] out = out"
| "keep_canonical ((k, f) # es) out =
     keep_canonical es (if \<not> HasPrefix k ''/'' then AList.update k f out else out)"

fun add_stripped :: "(string \<times> File) list \<Rightarrow> (string \<times> File) list \<Rightarrow> (string \<times> File) list" where
  "add_stripped [] out = out"
| "add_stripped ((k, f) # es) out =
     (if \<not> HasPrefix k ''/'' then add_stripped es out
      else
        (let ck = TrimLeft k slash
         in add_stripped es (if map_of out ck = None then AList.update ck f out else out)))"

definition canonicalizeFileKeys :: "rng \<Rightarrow> (string \<times> File) list \<Rightarrow> (string \<times> File) list" where
  "canonicalizeFileKeys rng files =
     (let needsFix = list_ex (\<lambda>(k, _). HasPrefix k ''/'') (rng 1 files) in
      if \<not> needsFix then files
      else add_stripped (rng 3 files) (keep_canonical (rng 2 files) []))"

datatype load_error = DecodeError string | MissingFiles | EmptyBlob string

definition Load :: "rng \<Rightarrow> (bytes \<Rightarrow> string + Manifest) \<Rightarrow> bytes \<Rightarrow> load_error + Manifest" where
  "Load rng dec data =
     (case dec data of
        Inl e \<Rightarrow> Inl (DecodeError e)
      | Inr m \<Rightarrow>
          (case Files m of
             None \<Rightarrow> Inl MissingFiles
           | Some files \<Rightarrow>
               (case find (\<lambda>(p, f). Blob f = []) (rng 0 files) of
                  Some (p, _) \<Rightarrow> Inl (EmptyBlob p)
                | None \<Rightarrow>
                    Inr (precompute rng (m\<lparr>Files := Some (canonicalizeFileKeys rng files)\<rparr>)))))"

subsection \<open>Canonical keys\<close>

lemma rng_set: "go_range rng \<Longrightarrow> set (rng i xs) = set xs"
  by (metis go_range_def set_mset_mset)

lemma rng_distinct:
  assumes "go_range rng"
  shows "distinct (map fst (rng i xs)) \<longleftrightarrow> distinct (map fst xs)"
proof -
  have "mset (map fst (rng i xs)) = mset (map fst xs)"
    using assms by (simp add: go_range_def)
  then show ?thesis by (rule mset_eq_imp_distinct_iff)
qed

lemma find_range_Some:
  "go_range rng \<Longrightarrow> find P (rng i xs) = Some e \<Longrightarrow> e \<in> set xs \<and> P e"
  by (metis find_Some_iff nth_mem rng_set)

lemma rng_map_of:
  "go_range rng \<Longrightarrow> distinct (map fst xs) \<Longrightarrow> map_of (rng i xs) = map_of xs"
  by (meson map_of_inject_set rng_distinct rng_set)

text \<open>Pass 1 keeps the entries that are already canonical.\<close>

lemma keep_canonical_lookup:
  "distinct (map fst xs) \<Longrightarrow> map_of (keep_canonical xs acc) p =
    (if \<not> HasPrefix p ''/'' \<and> map_of xs p \<noteq> None then map_of xs p else map_of acc p)"
proof (induction xs acc rule: keep_canonical.induct)
  case (2 k f es out)
  then have "map_of es k = None"
    by (force simp: map_of_eq_None_iff)
  with 2 show ?case by (auto simp: update_conv')
qed simp

text \<open>Pass 2 adds, for each path still absent, the first slash-prefixed spelling met.\<close>

definition slash_spelling :: "string \<Rightarrow> string \<times> File \<Rightarrow> bool" where
  "slash_spelling p e \<longleftrightarrow> HasPrefix (fst e) ''/'' \<and> TrimLeft (fst e) slash = p"

lemma add_stripped_lookup:
  "map_of (add_stripped xs acc) p =
   (case map_of acc p of Some f \<Rightarrow> Some f | None \<Rightarrow> map_option snd (find (slash_spelling p) xs))"
proof (induction xs acc rule: add_stripped.induct)
  case (2 k f es out)
  then show ?case
    by (auto simp: update_conv' slash_spelling_def Let_def split: option.splits)
qed (simp split: option.split)

lemma slash_spelling_canonical: "slash_spelling p e \<Longrightarrow> \<not> HasPrefix p ''/''"
  using TrimLeft_no_prefix by (auto simp: slash_spelling_def)

text \<open>What re-keying does to every lookup, for every iteration order.\<close>

lemma canonicalizeFileKeys_lookup:
  assumes "go_range rng" "distinct (map fst files)"
  shows "map_of (canonicalizeFileKeys rng files) p =
     (if HasPrefix p ''/'' then None
      else case map_of files p of
             Some f \<Rightarrow> Some f
           | None \<Rightarrow> map_option snd (find (slash_spelling p) (rng 3 files)))"
proof (cases "list_ex (\<lambda>(k, _). HasPrefix k ''/'') (rng 1 files)")
  case True
  have "find (slash_spelling p) (rng 3 files) = None" if "HasPrefix p ''/''"
    using that slash_spelling_canonical by (auto simp: find_None_iff)
  moreover have "map_of (rng 2 files) = map_of files" "distinct (map fst (rng 2 files))"
    using assms rng_map_of rng_distinct by auto
  ultimately show ?thesis
    using True
    by (auto simp: canonicalizeFileKeys_def keep_canonical_lookup add_stripped_lookup split: option.split)
next
  case False
  then have no: "\<not> HasPrefix (fst e) ''/''" if "e \<in> set files" for e
    using that rng_set [OF assms(1), of 1 files] by (cases e) (auto simp: list_ex_iff)
  then have "find (slash_spelling p) (rng 3 files) = None"
    using rng_set [OF assms(1), of 3 files] by (auto simp: find_None_iff slash_spelling_def)
  moreover have "map_of files p = None" if "HasPrefix p ''/''"
    using no that by (force simp: map_of_eq_None_iff)
  ultimately show ?thesis
    using False by (auto simp: canonicalizeFileKeys_def Let_def split: option.split)
qed

lemma keep_canonical_distinct:
  "distinct (map fst acc) \<Longrightarrow> distinct (map fst (keep_canonical xs acc))"
  by (induction xs acc rule: keep_canonical.induct) (auto simp: distinct_update)

lemma add_stripped_distinct:
  "distinct (map fst acc) \<Longrightarrow> distinct (map fst (add_stripped xs acc))"
  by (induction xs acc rule: add_stripped.induct) (auto simp: distinct_update Let_def)

lemma canonicalizeFileKeys_distinct:
  "distinct (map fst files) \<Longrightarrow> distinct (map fst (canonicalizeFileKeys rng files))"
  by (simp add: canonicalizeFileKeys_def add_stripped_distinct keep_canonical_distinct)


text \<open>Re-keying is the identity on a manifest that is canonical already.\<close>

lemma canonicalizeFileKeys_id:
  assumes "go_range rng" "\<forall>e \<in> set files. \<not> HasPrefix (fst e) ''/''"
  shows "canonicalizeFileKeys rng files = files"
proof -
  have "\<not> list_ex (\<lambda>(k, _). HasPrefix k ''/'') (rng 1 files)"
    using assms rng_set [of rng 1 files] by (auto simp: list_ex_iff)
  then show ?thesis by (simp add: canonicalizeFileKeys_def)
qed

lemma canonicalizeFileKeys_from:
  assumes "go_range rng" "distinct (map fst files)" "map_of (canonicalizeFileKeys rng files) p = Some f"
  shows "f \<in> snd ` set files \<and> \<not> HasPrefix p ''/'' \<and> (\<exists>k. (k, f) \<in> set files \<and> TrimLeft k slash = p)"
proof -
  have np: "\<not> HasPrefix p ''/''"
    using assms by (auto simp: canonicalizeFileKeys_lookup split: if_splits)
  then have "map_of files p = Some f \<or> map_option snd (find (slash_spelling p) (rng 3 files)) = Some f"
    using assms by (auto simp: canonicalizeFileKeys_lookup split: option.splits)
  then show ?thesis
  proof
    assume "map_of files p = Some f"
    then have "(p, f) \<in> set files" by (rule map_of_SomeD)
    moreover have "TrimLeft p slash = p" using np by (rule TrimLeft_id)
    ultimately show ?thesis using np by force
  next
    assume "map_option snd (find (slash_spelling p) (rng 3 files)) = Some f"
    then obtain k where "find (slash_spelling p) (rng 3 files) = Some (k, f)" by auto
    then have "(k, f) \<in> set (rng 3 files)" "slash_spelling p (k, f)"
      by (auto simp: find_Some_iff)
    then show ?thesis
      using np rng_set [OF assms(1), of 3 files] by (force simp: slash_spelling_def)
  qed
qed

text \<open>Whether two slash-prefixed spellings of one path compete for it.\<close>

definition no_rival_spellings :: "(string \<times> File) list \<Rightarrow> bool" where
  "no_rival_spellings files \<longleftrightarrow>
     (\<forall>a \<in> set files. \<forall>b \<in> set files. HasPrefix (fst a) ''/'' \<and> HasPrefix (fst b) ''/'' \<and>
        TrimLeft (fst a) slash = TrimLeft (fst b) slash \<longrightarrow> a = b)"

lemma find_slash_spelling_order:
  assumes "go_range rng" "go_range rng'" "no_rival_spellings files"
  shows "find (slash_spelling p) (rng i files) = find (slash_spelling p) (rng' i files)"
proof (cases "\<exists>e \<in> set files. slash_spelling p e")
  case False
  then have "find (slash_spelling p) (r i files) = None" if "go_range r" for r
    using rng_set [OF that, of i files] by (auto simp: find_None_iff)
  with assms show ?thesis by simp
next
  case True
  then obtain e where e: "e \<in> set files" "slash_spelling p e" by blast
  have "find (slash_spelling p) (r i files) = Some e" if "go_range r" for r
  proof -
    have "find (slash_spelling p) (r i files) \<noteq> None"
      using e rng_set [OF that, of i files] by (metis find_None_iff)
    then obtain x where x: "find (slash_spelling p) (r i files) = Some x" by blast
    then have "x \<in> set files" "slash_spelling p x"
      using rng_set [OF that, of i files] by (auto simp: find_Some_iff)
    with e assms(3) have "x = e"
      unfolding no_rival_spellings_def slash_spelling_def by metis
    with x show ?thesis by simp
  qed
  with assms show ?thesis by simp
qed

subsection \<open>What Load promises\<close>

text \<open>What the program relies on of the decoder: it fills the exported fields only, and a Go map
  holds a key once.\<close>

definition json_decoder :: "(bytes \<Rightarrow> string + Manifest) \<Rightarrow> bool" where
  "json_decoder dec \<longleftrightarrow>
     (\<forall>data m. dec data = Inr m \<longrightarrow> modTime m = zeroTime \<and> lastModified m = [] \<and>
        distinct (map fst (gomap_entries (Files m))))"

definition entry_bytes :: "string \<times> File \<Rightarrow> int" where
  "entry_bytes e = int (length (fst e)) + int (length (Blob (snd e))) +
     int (length (ContentType (snd e))) + int (length (Cache (snd e))) + fileEntryBytes"

definition wf_manifest :: "Manifest \<Rightarrow> bool" where
  "wf_manifest m \<longleftrightarrow>
     Files m \<noteq> None \<and> distinct (map fst (gomap_entries (Files m))) \<and>
     list_all (\<lambda>e. \<not> HasPrefix (fst e) ''/'' \<and> Blob (snd e) \<noteq> []) (gomap_entries (Files m)) \<and>
     ApproxSize m = manifestBaseBytes + sum_list (map entry_bytes (gomap_entries (Files m))) \<and>
     (LastModified m = [] \<and> ModTime m = zeroTime \<or> LastModified m = format_HTTP (ModTime m))"

lemma fold_entry_bytes:
  "fold (\<lambda>(p, f) size. size + (int (length p) + int (length (Blob f)) + int (length (ContentType f)) +
      int (length (Cache f)) + fileEntryBytes)) xs n = n + sum_list (map entry_bytes xs)"
  by (induction xs arbitrary: n) (auto simp: entry_bytes_def)

lemma sum_entry_bytes_order:
  "go_range rng \<Longrightarrow> sum_list (map entry_bytes (rng i xs)) = sum_list (map entry_bytes xs)"
  by (metis go_range_def mset_map sum_mset_sum_list)

lemma precompute_fields:
  assumes "go_range rng"
  shows "approxBytes (precompute rng m) = manifestBaseBytes + sum_list (map entry_bytes (gomap_entries (Files m)))"
    and "Files (precompute rng m) = Files m" "Environment (precompute rng m) = Environment m"
    and "SPA (precompute rng m) = SPA m" "NotFoundName (precompute rng m) = NotFoundName m"
    and "Release (precompute rng m) = Release m" "CreatedAt (precompute rng m) = CreatedAt m"
  using assms
  by (auto simp: precompute_def Let_def fold_entry_bytes sum_entry_bytes_order split: option.split)

lemma precompute_times:
  "modTime (precompute rng m) =
     (case parse_RFC3339 (CreatedAt m) of Some t \<Rightarrow> t | None \<Rightarrow> modTime m)"
  "lastModified (precompute rng m) =
     (case parse_RFC3339 (CreatedAt m) of Some t \<Rightarrow> format_HTTP t | None \<Rightarrow> lastModified m)"
  by (auto simp: precompute_def Let_def parse_RFC3339_Nil split: option.split)

lemma find_empty_blob:
  assumes "go_range rng"
  shows "find (\<lambda>(p, f). Blob f = []) (rng i files) = None \<longleftrightarrow> (\<forall>e \<in> set files. Blob (snd e) \<noteq> [])"
  using rng_set [OF assms, of i files] by (auto simp: find_None_iff)

lemma Load_Inr:
  assumes "go_range rng" "Load rng dec data = Inr m"
  obtains m0 files where "dec data = Inr m0" "Files m0 = Some files"
    "\<forall>e \<in> set files. Blob (snd e) \<noteq> []"
    "m = precompute rng (m0\<lparr>Files := Some (canonicalizeFileKeys rng files)\<rparr>)"
  using assms find_empty_blob [OF assms(1), of 0]
  by (auto simp: Load_def split: sum.splits option.splits)

lemma canonicalizeFileKeys_entries:
  assumes "go_range rng" "distinct (map fst files)" "e \<in> set (canonicalizeFileKeys rng files)"
  shows "\<not> HasPrefix (fst e) ''/'' \<and> snd e \<in> snd ` set files"
proof -
  have "map_of (canonicalizeFileKeys rng files) (fst e) = Some (snd e)"
    using assms canonicalizeFileKeys_distinct by (cases e) auto
  then show ?thesis
    using canonicalizeFileKeys_from [OF assms(1,2)] by blast
qed

text \<open>A release as the publisher of the wrong spelling wrote it, and the decoder that yields it.\<close>

definition demo_file :: "string \<Rightarrow> File" where
  "demo_file b = \<lparr>Blob = b, ContentType = ''text/html; charset=utf-8'', Cache = ClassHTML\<rparr>"

definition demo_raw :: Manifest where
  "demo_raw = \<lparr>Release = [], CreatedAt = ''yesterday'', Environment = ''production'', SPA = False,
     NotFoundName = [], Files = Some [(''/index.html'', demo_file ''b1''), (''about.html'', demo_file ''b2'')],
     modTime = zeroTime, lastModified = [], approxBytes = 0\<rparr>"

definition demo_dec :: "bytes \<Rightarrow> string + Manifest" where
  "demo_dec data = (if data = ''{}'' then Inr demo_raw else Inl ''unexpected input'')"

definition in_order :: rng where
  "in_order i xs = xs"

definition backwards :: rng where
  "backwards i xs = rev xs"

lemma go_range_orders: "go_range in_order" "go_range backwards"
  by (auto simp: go_range_def in_order_def backwards_def)

lemma json_decoder_demo: "json_decoder demo_dec"
  by (simp add: json_decoder_def demo_dec_def demo_raw_def gomap_entries_def)

lemma Load_demo:
  "Load in_order demo_dec ''{}'' =
     Inr (demo_raw\<lparr>Files := Some [(''about.html'', demo_file ''b2''), (''index.html'', demo_file ''b1'')],
       approxBytes := 784\<rparr>)"
  by code_simp

lemma Load_dates:
  assumes rng: "go_range rng" and dec: "json_decoder dec" and load: "Load rng dec data = Inr m"
  shows "LastModified m = [] \<and> ModTime m = zeroTime \<or> LastModified m = format_HTTP (ModTime m)"
proof -
  obtain m0 files where d: "dec data = Inr m0" "Files m0 = Some files"
    and m: "m = precompute rng (m0\<lparr>Files := Some (canonicalizeFileKeys rng files)\<rparr>)"
    by (rule Load_Inr [OF rng load])
  then have "modTime m0 = zeroTime" "lastModified m0 = []"
    using dec by (force simp: json_decoder_def)+
  then show ?thesis
    by (auto simp: m LastModified_def ModTime_def precompute_fields [OF rng] precompute_times
        split: option.split)
qed

text \<open>C25: type. Every manifest the loader accepts is well formed: it is fit to serve, whatever order the runtime
  iterates the map in: its keys are distinct and slash-less, no entry lacks a blob, the size the
  caches charge for it is the base plus the cost of exactly the entries kept, and the
  Last-Modified text is the HTTP date of the validator time, or neither is set.\<close>

theorem Load_wf_manifest:
  assumes rng: "go_range rng" and dec: "json_decoder dec" and load: "Load rng dec data = Inr m"
  shows "wf_manifest m"
proof -
  obtain m0 files where d: "dec data = Inr m0" "Files m0 = Some files"
    and blobs: "\<forall>e \<in> set files. Blob (snd e) \<noteq> []"
    and m: "m = precompute rng (m0\<lparr>Files := Some (canonicalizeFileKeys rng files)\<rparr>)"
    by (rule Load_Inr [OF rng load])
  have files: "distinct (map fst files)"
    using dec d by (force simp: json_decoder_def gomap_entries_def)
  note [simp] = precompute_fields [OF rng]
  have "Blob (snd e) \<noteq> [] \<and> \<not> HasPrefix (fst e) ''/''" if "e \<in> set (canonicalizeFileKeys rng files)" for e
    using canonicalizeFileKeys_entries [OF rng files that] blobs by auto
  then show ?thesis
    using canonicalizeFileKeys_distinct [OF files] Load_dates [OF rng dec load]
    by (auto simp: wf_manifest_def m gomap_entries_def list_all_iff ApproxSize_def)
qed

lemma Load_wf_manifest_witness:
  "go_range in_order \<and> json_decoder demo_dec \<and>
   Load in_order demo_dec ''{}'' = Inr (projr (Load in_order demo_dec ''{}'')) \<and>
   wf_manifest (projr (Load in_order demo_dec ''{}''))"
  using Load_wf_manifest [OF go_range_orders(1) json_decoder_demo, of "''{}''"]
  by (simp add: Load_demo go_range_orders json_decoder_demo)

text \<open>C24: functional. What a loaded manifest answers to every lookup, for every iteration order of
  the runtime: a path with a leading slash is never found; a path the published manifest spells
  canonically keeps its own entry; any other path gets the first slash-prefixed spelling of it the
  runtime visits. The serving policy is carried over unchanged.\<close>

theorem Load_lookup:
  assumes rng: "go_range rng" and dec: "json_decoder dec" and d: "dec data = Inr m0"
    and f: "Files m0 = Some files" and load: "Load rng dec data = Inr m"
  shows "(\<forall>p. Lookup m p =
       (if HasPrefix p ''/'' then (zeroFile, False)
        else case map_of files p of
               Some f \<Rightarrow> (f, True)
             | None \<Rightarrow> (case find (slash_spelling p) (rng 3 files) of
                         Some (_, f) \<Rightarrow> (f, True)
                       | None \<Rightarrow> (zeroFile, False)))) \<and>
     Environment m = Environment m0 \<and> SPA m = SPA m0 \<and> NotFoundDoc m = NotFoundDoc m0"
proof -
  have m: "m = precompute rng (m0\<lparr>Files := Some (canonicalizeFileKeys rng files)\<rparr>)"
    using Load_Inr [OF rng load] d f by (metis Inr_inject option.inject)
  have files: "distinct (map fst files)"
    using dec d f by (force simp: json_decoder_def gomap_entries_def)
  have "Files m = Some (canonicalizeFileKeys rng files)"
    by (simp add: m precompute_fields [OF rng])
  then show ?thesis
    by (auto simp: Lookup_def gomap_entries_def canonicalizeFileKeys_lookup [OF rng files]
        NotFoundDoc_def m precompute_fields [OF rng] split: option.split)
qed

lemma Load_lookup_witness:
  "Lookup (projr (Load in_order demo_dec ''{}'')) ''index.html'' = (demo_file ''b1'', True) \<and>
   Lookup (projr (Load in_order demo_dec ''{}'')) ''/index.html'' = (zeroFile, False)"
proof -
  have raw: "demo_dec ''{}'' = Inr demo_raw"
      "Files demo_raw = Some [(''/index.html'', demo_file ''b1''), (''about.html'', demo_file ''b2'')]"
    by (simp_all add: demo_dec_def demo_raw_def)
  have ld: "Load in_order demo_dec ''{}'' = Inr (projr (Load in_order demo_dec ''{}''))"
    by (simp add: Load_demo)
  have sp: "slash_spelling ''index.html'' (''/index.html'', demo_file ''b1'')"
    by (simp add: slash_spelling_def TrimLeft_def)
  show ?thesis
    using Load_lookup [OF go_range_orders(1) json_decoder_demo raw ld, THEN conjunct1,
        THEN spec, of "''index.html''"]
      Load_lookup [OF go_range_orders(1) json_decoder_demo raw ld, THEN conjunct1,
        THEN spec, of "''/index.html''"] sp
    by (simp add: in_order_def)
qed

lemma Load_serves_entry:
  assumes rng: "go_range rng" and dec: "json_decoder dec" and d: "dec data = Inr m0"
    and f: "Files m0 = Some files" and load: "Load rng dec data = Inr m"
    and e: "(k, f) \<in> set files" "TrimLeft k slash = p" "\<not> HasPrefix p ''/''"
    and only: "\<forall>e \<in> set files. TrimLeft (fst e) slash = p \<longrightarrow> e = (k, f)"
  shows "Lookup m p = (f, True)"
proof -
  have m: "m = precompute rng (m0\<lparr>Files := Some (canonicalizeFileKeys rng files)\<rparr>)"
    using Load_Inr [OF rng load] d f by (metis Inr_inject option.inject)
  have files: "distinct (map fst files)"
    using dec d f by (force simp: json_decoder_def gomap_entries_def)
  have "map_of (canonicalizeFileKeys rng files) p = Some f"
  proof (cases "map_of files p")
    case (Some f')
    then have "(p, f') \<in> set files" by (rule map_of_SomeD)
    moreover have "TrimLeft p slash = p" using e(3) by (rule TrimLeft_id)
    ultimately have "f' = f" using only by fastforce
    with Some e(3) show ?thesis by (simp add: canonicalizeFileKeys_lookup [OF rng files])
  next
    case None
    have "HasPrefix k ''/''"
    proof (rule ccontr)
      assume "\<not> HasPrefix k ''/''"
      then have "k = p" using e(2) TrimLeft_id by metis
      with None e(1) show False by (force simp: map_of_eq_None_iff)
    qed
    then have sp: "slash_spelling p (k, f)" using e(2) by (simp add: slash_spelling_def)
    then have "find (slash_spelling p) (rng 3 files) \<noteq> None"
      using e(1) rng_set [OF rng, of 3 files] by (metis find_None_iff)
    then obtain x where x: "find (slash_spelling p) (rng 3 files) = Some x" by blast
    from find_range_Some [OF rng x] only have "x = (k, f)"
      by (simp add: slash_spelling_def)
    with x None e(3) show ?thesis by (simp add: canonicalizeFileKeys_lookup [OF rng files])
  qed
  then show ?thesis
    by (simp add: Lookup_def m precompute_fields [OF rng] gomap_entries_def)
qed

text \<open>C31: error. Exactly which inputs the loader accepts, and that its errors are truthful: a
  manifest loads iff the bytes decode, the files member is present and no entry has an empty
  blob; the entry an error names is one with an empty blob.\<close>

theorem Load_accepts:
  assumes rng: "go_range rng"
  shows "(case Load rng dec data of
       Inr m \<Rightarrow> \<exists>m0 files. dec data = Inr m0 \<and> Files m0 = Some files \<and> list_all (\<lambda>e. Blob (snd e) \<noteq> []) files
     | Inl (DecodeError e) \<Rightarrow> dec data = Inl e
     | Inl MissingFiles \<Rightarrow> \<exists>m0. dec data = Inr m0 \<and> Files m0 = None
     | Inl (EmptyBlob p) \<Rightarrow> \<exists>m0 files f. dec data = Inr m0 \<and> Files m0 = Some files \<and> (p, f) \<in> set files \<and> Blob f = [])"
proof (cases "dec data")
  case (Inr m0)
  show ?thesis
  proof (cases "Files m0")
    case (Some files)
    show ?thesis
    proof (cases "find (\<lambda>(p, f). Blob f = []) (rng 0 files)")
      case None
      then have "\<forall>e \<in> set files. Blob (snd e) \<noteq> []"
        using find_empty_blob [OF rng] by blast
      with None Inr Some show ?thesis by (simp add: Load_def list_all_iff)
    next
      case (Some e)
      then have "e \<in> set files" "Blob (snd e) = []"
        using find_range_Some [OF rng Some] by auto
      with Some Inr \<open>Files m0 = Some files\<close> show ?thesis
        by (cases e) (auto simp: Load_def)
    qed
  qed (simp add: Load_def Inr)
qed (simp add: Load_def)

lemma Load_accepts_witness:
  "go_range backwards \<and> (\<exists>e. demo_dec ''garbage'' = Inl e) \<and>
   (\<exists>m0 files. demo_dec ''{}'' = Inr m0 \<and> Files m0 = Some files)"
  using Load_accepts [OF go_range_orders(2), of demo_dec "''{}''"]
    Load_accepts [OF go_range_orders(2), of demo_dec "''garbage''"]
  by (auto simp: go_range_orders demo_dec_def demo_raw_def Load_def)

text \<open>C26: equivalence. Loading is deterministic as far as any request can see whenever no two
  slash-prefixed spellings of one path compete: then any two iteration orders accept the same
  inputs and give manifests with the same answer to every lookup, the same policy, validators and
  size.\<close>

theorem Load_deterministic:
  assumes rng: "go_range rng" "go_range rng'" and dec: "json_decoder dec"
    and d: "dec data = Inr m0" and f: "Files m0 = Some files" and nr: "no_rival_spellings files"
  shows "(case Load rng dec data of
       Inl _ \<Rightarrow> (\<exists>e. Load rng' dec data = Inl e)
     | Inr m \<Rightarrow> (\<exists>m'. Load rng' dec data = Inr m' \<and> Lookup m' = Lookup m \<and> ModTime m' = ModTime m \<and>
         LastModified m' = LastModified m \<and> Environment m' = Environment m \<and> SPA m' = SPA m \<and>
         NotFoundDoc m' = NotFoundDoc m \<and> ApproxSize m' = ApproxSize m))"
proof (cases "\<forall>e \<in> set files. Blob (snd e) \<noteq> []")
  case False
  then have "\<exists>e. Load r dec data = Inl e" if "go_range r" for r
    using find_empty_blob [OF that, of 0 files] d f by (auto simp: Load_def)
  then obtain e e' where "Load rng dec data = Inl e" "Load rng' dec data = Inl e'"
    using rng by blast
  then show ?thesis by simp
next
  case True
  let ?m = "\<lambda>r. precompute r (m0\<lparr>Files := Some (canonicalizeFileKeys r files)\<rparr>)"
  have load: "Load r dec data = Inr (?m r)" if "go_range r" for r
    using find_empty_blob [OF that, of 0 files] d f True by (simp add: Load_def)
  have files: "distinct (map fst files)"
    using dec d f by (force simp: json_decoder_def gomap_entries_def)
  have maps: "map_of (canonicalizeFileKeys rng files) = map_of (canonicalizeFileKeys rng' files)"
    using find_slash_spelling_order [OF rng nr]
    by (intro ext) (simp add: canonicalizeFileKeys_lookup rng files split: option.split)
  then have "set (canonicalizeFileKeys rng files) = set (canonicalizeFileKeys rng' files)"
    using map_of_inject_set canonicalizeFileKeys_distinct [OF files] by blast
  then have "mset (canonicalizeFileKeys rng files) = mset (canonicalizeFileKeys rng' files)"
    using canonicalizeFileKeys_distinct [OF files] by (metis distinct_map set_eq_iff_mset_eq_distinct)
  then have "sum_list (map entry_bytes (canonicalizeFileKeys rng files)) =
      sum_list (map entry_bytes (canonicalizeFileKeys rng' files))"
    by (metis mset_map sum_mset_sum_list)
  with maps show ?thesis
    by (simp add: load rng precompute_fields precompute_times Lookup_def gomap_entries_def fun_eq_iff
        ModTime_def LastModified_def NotFoundDoc_def ApproxSize_def split: option.split)
qed

lemma Load_deterministic_witness:
  "\<exists>m'. Load backwards demo_dec ''{}'' = Inr m' \<and>
     Lookup m' = Lookup (projr (Load in_order demo_dec ''{}''))"
proof -
  let ?fs = "[(''/index.html'', demo_file ''b1''), (''about.html'', demo_file ''b2'')]"
  have raw: "demo_dec ''{}'' = Inr demo_raw" "Files demo_raw = Some ?fs"
    by (simp_all add: demo_dec_def demo_raw_def)
  have "no_rival_spellings ?fs"
    by (simp add: no_rival_spellings_def)
  from Load_deterministic [OF go_range_orders json_decoder_demo raw this]
  show ?thesis by (auto simp: Load_demo)
qed

text \<open>Without that condition the runtime chooses: the entry is that of the first spelling its order visits,
  and every spelling is visited first by some order.\<close>

lemma Load_rival:
  assumes rng: "go_range rng" and dec: "json_decoder dec" and d: "dec data = Inr m0"
    and f: "Files m0 = Some files" and load: "Load rng dec data = Inr m"
    and p: "\<not> HasPrefix p ''/''" "p \<notin> fst ` set files" and e: "find (slash_spelling p) (rng 3 files) = Some e"
  shows "Lookup m p = (snd e, True)"
proof -
  have m: "m = precompute rng (m0\<lparr>Files := Some (canonicalizeFileKeys rng files)\<rparr>)"
    using Load_Inr [OF rng load] d f by (metis Inr_inject option.inject)
  have files: "distinct (map fst files)"
    using dec d f by (force simp: json_decoder_def gomap_entries_def)
  have "map_of files p = None" using p(2) by (simp add: map_of_eq_None_iff)
  with p(1) e show ?thesis
    by (simp add: Lookup_def m precompute_fields [OF rng] gomap_entries_def canonicalizeFileKeys_lookup [OF rng files])
qed

definition visiting_first :: "string \<times> File \<Rightarrow> rng" where
  "visiting_first e i xs = (if e \<in> set xs then e # remove1 e xs else xs)"

lemma visiting_first_order: "go_range (visiting_first e)"
  by (simp add: go_range_def visiting_first_def)

lemma visiting_first_finds: "e \<in> set xs \<Longrightarrow> P e \<Longrightarrow> find P (visiting_first e i xs) = Some e"
  by (simp add: visiting_first_def)

definition rival_raw :: Manifest where
  "rival_raw = demo_raw\<lparr>Files := Some [(''/a'', demo_file ''b1''), (''//a'', demo_file ''b2'')]\<rparr>"

lemma json_decoder_rival: "json_decoder (\<lambda>_. Inr rival_raw)"
  by (simp add: json_decoder_def rival_raw_def demo_raw_def gomap_entries_def)

text \<open>The healing of slash-prefixed spellings stops at the file keys: a release whose
  notFound document is named with a leading slash loads, but the document is never found, so its
  custom not-found page is unreachable.\<close>

theorem Load_notFound_slash:
  assumes "go_range rng" "json_decoder dec" "Load rng dec data = Inr m"
    and "HasPrefix (NotFoundName m) ''/''"
  shows "Lookup m (NotFoundDoc m) = (zeroFile, False)"
proof -
  have "NotFoundDoc m = NotFoundName m"
    using assms(4) by (auto simp: NotFoundDoc_def)
  moreover obtain m0 files where d: "dec data = Inr m0" "Files m0 = Some files"
    and m: "m = precompute rng (m0\<lparr>Files := Some (canonicalizeFileKeys rng files)\<rparr>)"
    by (rule Load_Inr [OF assms(1,3)])
  moreover have "distinct (map fst files)"
    using assms(2) d by (force simp: json_decoder_def gomap_entries_def)
  ultimately show ?thesis
    using assms(4) canonicalizeFileKeys_lookup [OF assms(1)]
    by (simp add: Lookup_def m precompute_fields [OF assms(1)] gomap_entries_def)
qed

definition slash_404_raw :: Manifest where
  "slash_404_raw = demo_raw\<lparr>NotFoundName := ''/404.html'', Files := Some [(''/404.html'', demo_file ''b1'')]\<rparr>"

lemma Load_notFound_slash_witness:
  "json_decoder (\<lambda>_. Inr slash_404_raw) \<and>
   (\<exists>m. Load in_order (\<lambda>_. Inr slash_404_raw) [] = Inr m \<and> NotFoundDoc m = ''/404.html'' \<and>
     Lookup m (NotFoundDoc m) = (zeroFile, False) \<and> Lookup m ''404.html'' = (demo_file ''b1'', True))"
proof -
  have dec: "json_decoder (\<lambda>_. Inr slash_404_raw)"
    by (simp add: json_decoder_def slash_404_raw_def demo_raw_def gomap_entries_def)
  obtain m where m: "Load in_order (\<lambda>_. Inr slash_404_raw) [] = Inr m"
      "NotFoundName m = ''/404.html''" "Lookup m ''404.html'' = (demo_file ''b1'', True)"
  proof
    show "Load in_order (\<lambda>_. Inr slash_404_raw) [] =
        Inr (projr (Load in_order (\<lambda>_. Inr slash_404_raw) []))" by code_simp
    show "NotFoundName (projr (Load in_order (\<lambda>_. Inr slash_404_raw) [])) = ''/404.html''" by code_simp
    show "Lookup (projr (Load in_order (\<lambda>_. Inr slash_404_raw) [])) ''404.html'' = (demo_file ''b1'', True)"
      by code_simp
  qed
  then show ?thesis
    using Load_notFound_slash [OF go_range_orders(1) dec m(1)] dec by (simp add: NotFoundDoc_def)
qed

text \<open>The listing of paths: sorted, without repeats, and the same for every iteration order.\<close>

lemma SortedPaths_sorted:
  assumes "go_range rng"
  shows "sorted (SortedPaths rng m) \<and> set (SortedPaths rng m) = fst ` set (gomap_entries (Files m)) \<and>
     (\<forall>rng'. go_range rng' \<longrightarrow> SortedPaths rng' m = SortedPaths rng m)"
proof -
  have "mset (map fst (r i xs)) = mset (map fst xs)" if "go_range r" for r i and xs :: "(string \<times> File) list"
    using that by (simp add: go_range_def)
  then have "sort (map fst (r i xs)) = sort (map fst xs)" if "go_range r" for r i and xs :: "(string \<times> File) list"
    using that by (intro properties_for_sort) simp_all
  with assms show ?thesis
    using rng_set [OF assms] by (auto simp: SortedPaths_def)
qed

end
