(* ===== verification/GoJson.thy ===== *)
theory GoJson
  imports GoStrings
begin

section \<open>The JSON text of encoding/json/v2: tokens, strings and UTF-8\<close>

text \<open>
  The lexical level of the JSON the sources read and write, with the defaults of encoding/json/v2: strict
  RFC 8259 text, strings that must be valid UTF-8 both ways, minimal escaping, no whitespace on output.
  Numbers and arrays occur in no value of the types decoded here, so a text that holds one is an error
  either way and the lexer refuses it; \<open>None\<close> stands for every error.
\<close>

subsection \<open>UTF-8\<close>

definition byte :: "char \<Rightarrow> nat" where
  "byte c = of_char c"

definition continuation :: "char \<Rightarrow> bool" where
  "continuation c \<longleftrightarrow> 128 \<le> byte c \<and> byte c < 192"

text \<open>The byte sequences of one rune that \<^verbatim>\<open>utf8.DecodeRune\<close> accepts: no overlong form, no surrogate,
  nothing above the last code point.\<close>

fun rune_form :: "string \<Rightarrow> bool" where
  "rune_form [a] = (byte a < 128)"
| "rune_form [a, b] = (194 \<le> byte a \<and> byte a < 224 \<and> continuation b)"
| "rune_form [a, b, c] = (224 \<le> byte a \<and> byte a < 240 \<and> continuation b \<and> continuation c \<and>
     (byte a = 224 \<longrightarrow> 160 \<le> byte b) \<and> (byte a = 237 \<longrightarrow> byte b < 160))"
| "rune_form [a, b, c, d] = (240 \<le> byte a \<and> byte a < 245 \<and> continuation b \<and> continuation c \<and> continuation d \<and>
     (byte a = 240 \<longrightarrow> 144 \<le> byte b) \<and> (byte a = 244 \<longrightarrow> byte b < 144))"
| "rune_form _ = False"

definition rune_size :: "string \<Rightarrow> nat option" where
  "rune_size s = find (\<lambda>n. n \<le> length s \<and> rune_form (take n s)) [1, 2, 3, 4]"

definition lead_size :: "char \<Rightarrow> nat" where
  "lead_size c = (if byte c < 128 then 1 else if byte c < 224 then 2 else if byte c < 240 then 3 else 4)"

lemma rune_form_size: "rune_form s \<Longrightarrow> s \<noteq> [] \<and> length s = lead_size (hd s)"
  by (induction s rule: rune_form.induct) (auto simp: lead_size_def)

lemma rune_form_high: "rune_form s \<Longrightarrow> length s \<noteq> 1 \<Longrightarrow> c \<in> set s \<Longrightarrow> 128 \<le> byte c"
  by (induction s rule: rune_form.induct) (auto simp: continuation_def)

lemma rune_size_Some: "rune_size s = Some n \<longleftrightarrow> n \<le> length s \<and> rune_form (take n s)"
proof
  assume "rune_size s = Some n"
  then show "n \<le> length s \<and> rune_form (take n s)"
    by (auto simp: rune_size_def split: if_splits)
next
  assume n: "n \<le> length s \<and> rune_form (take n s)"
  then have l: "s \<noteq> []" "0 < n" "n = lead_size (hd s)"
    using rune_form_size [of "take n s"] by (auto simp: hd_take)
  have "m = n" if "m \<le> length s \<and> rune_form (take m s)" for m
    using rune_form_size [of "take m s"] that l by (auto simp: hd_take)
  moreover have "n \<in> set [1, 2, 3, 4]"
    using l(3) by (auto simp: lead_size_def)
  then obtain m where "rune_size s = Some m"
    using n by (cases "rune_size s") (auto simp: rune_size_def split: if_splits)
  moreover from this have "m \<le> length s \<and> rune_form (take m s)"
    by (auto simp: rune_size_def split: if_splits)
  ultimately show "rune_size s = Some n" by simp
qed

lemma rune_size_bounds: "rune_size s = Some n \<Longrightarrow> 1 \<le> n \<and> n \<le> length s"
  using rune_form_size [of "take n s"] by (cases n) (auto simp: rune_size_Some)

lemma rune_size_take: "rune_size s = Some n \<Longrightarrow> rune_size (take n s @ t) = Some n"
  by (simp add: rune_size_Some)

lemma rune_size_ascii: "byte c < 128 \<Longrightarrow> rune_size (c # s) = Some 1"
  by (simp add: rune_size_Some)

lemma rune_size_high:
  assumes "rune_size (c # s) = Some n" "\<not> byte c < 128"
  shows "\<forall>x \<in> set (take n (c # s)). 128 \<le> byte x"
proof -
  have r: "rune_form (take n (c # s))" using assms(1) by (simp add: rune_size_Some)
  from rune_form_size [OF this] assms(2) have "length (take n (c # s)) \<noteq> 1"
    by (cases n) (auto simp: lead_size_def split: if_splits)
  with rune_form_high [OF r] show ?thesis by blast
qed

function valid_utf8 :: "string \<Rightarrow> bool" where
  "valid_utf8 s =
     (if s = [] then True
      else case rune_size s of None \<Rightarrow> False | Some n \<Rightarrow> valid_utf8 (drop n s))"
  by auto
termination
  by (relation "measure length") (auto dest: rune_size_bounds)

declare valid_utf8.simps [simp del]

lemma valid_utf8_Nil [simp]: "valid_utf8 []"
  by (simp add: valid_utf8.simps)

lemma valid_utf8_rune: "s \<noteq> [] \<Longrightarrow> valid_utf8 s \<longleftrightarrow> (\<exists>n. rune_size s = Some n \<and> valid_utf8 (drop n s))"
  by (subst valid_utf8.simps) (auto split: option.split)

lemma valid_utf8_induct [consumes 1, case_names Nil rune]:
  assumes "valid_utf8 s" "P []"
    "\<And>s n. rune_size s = Some n \<Longrightarrow> valid_utf8 (drop n s) \<Longrightarrow> P (drop n s) \<Longrightarrow> P s"
  shows "P s"
  using assms(1)
proof (induction s rule: valid_utf8.induct)
  case (1 s)
  then show ?case
    using assms(2,3) by (cases "s = []") (auto simp: valid_utf8_rune)
qed

lemma valid_utf8_ascii: "list_all (\<lambda>c. byte c < 128) s \<Longrightarrow> valid_utf8 s"
  by (induction s) (auto simp: valid_utf8_rune rune_size_ascii)

text \<open>The bytes of one code point.\<close>

definition encode_rune :: "nat \<Rightarrow> string" where
  "encode_rune v =
     (if v < 128 then [char_of v]
      else if v < 2048 then [char_of (192 + v div 64), char_of (128 + v mod 64)]
      else if v < 65536 then
        [char_of (224 + v div 4096), char_of (128 + v div 64 mod 64), char_of (128 + v mod 64)]
      else [char_of (240 + v div 262144), char_of (128 + v div 4096 mod 64), char_of (128 + v div 64 mod 64),
        char_of (128 + v mod 64)])"

subsection \<open>Strings\<close>

definition dquote :: char where
  "dquote = CHR 0x22"

definition backslash :: char where
  "backslash = CHR 0x5C"

definition hex_digit :: "nat \<Rightarrow> char" where
  "hex_digit d = char_of (if d < 10 then 48 + d else 87 + d)"

definition hex_value :: "char \<Rightarrow> nat option" where
  "hex_value c =
     (let n = byte c in
      if 48 \<le> n \<and> n < 58 then Some (n - 48)
      else if 97 \<le> n \<and> n < 103 then Some (n - 87)
      else if 65 \<le> n \<and> n < 71 then Some (n - 55)
      else None)"

text \<open>Writing: the two characters of the syntax and the control characters are escaped.\<close>

definition escape_byte :: "char \<Rightarrow> string" where
  "escape_byte c =
     (let n = byte c in
      if c = dquote \<or> c = backslash then [backslash, c]
      else if n = 8 then [backslash, CHR ''b'']
      else if n = 12 then [backslash, CHR ''f'']
      else if n = 10 then [backslash, CHR ''n'']
      else if n = 13 then [backslash, CHR ''r'']
      else if n = 9 then [backslash, CHR ''t'']
      else if n < 32 then backslash # ''u00'' @ [hex_digit (n div 16), hex_digit (n mod 16)]
      else [c])"

definition quote_string :: "string \<Rightarrow> string" where
  "quote_string s = dquote # concat (map escape_byte s) @ [dquote]"

text \<open>Reading. \<open>unescape\<close> reads what follows a backslash, a surrogate pair included.\<close>

fun hex4 :: "string \<Rightarrow> (nat \<times> string) option" where
  "hex4 (a # b # c # d # s) =
     (case (hex_value a, hex_value b, hex_value c, hex_value d) of
        (Some w, Some x, Some y, Some z) \<Rightarrow> Some (w * 4096 + x * 256 + y * 16 + z, s)
      | _ \<Rightarrow> None)"
| "hex4 _ = None"

definition unescape_u :: "string \<Rightarrow> (string \<times> string) option" where
  "unescape_u s =
     (case hex4 s of
        None \<Rightarrow> None
      | Some (v, s1) \<Rightarrow>
          if v < 0xD800 \<or> 0xE000 \<le> v then Some (encode_rune v, s1)
          else if 0xDC00 \<le> v then None
          else if take 2 s1 \<noteq> [backslash, CHR ''u''] then None
          else case hex4 (drop 2 s1) of
            None \<Rightarrow> None
          | Some (w, s2) \<Rightarrow>
              if 0xDC00 \<le> w \<and> w < 0xE000 then
                Some (encode_rune (0x10000 + (v - 0xD800) * 1024 + (w - 0xDC00)), s2)
              else None)"

definition unescape :: "string \<Rightarrow> (string \<times> string) option" where
  "unescape s =
     (case s of
        [] \<Rightarrow> None
      | c # t \<Rightarrow>
          if c = dquote \<or> c = backslash \<or> c = slash then Some ([c], t)
          else if c = CHR ''b'' then Some ([CHR 0x08], t)
          else if c = CHR ''f'' then Some ([CHR 0x0C], t)
          else if c = CHR ''n'' then Some ([CHR 0x0A], t)
          else if c = CHR ''r'' then Some ([CHR 0x0D], t)
          else if c = CHR ''t'' then Some ([CHR 0x09], t)
          else if c = CHR ''u'' then unescape_u t
          else None)"

lemma hex4_length: "hex4 s = Some (v, t) \<Longrightarrow> length t < length s"
  by (induction s rule: hex4.induct) (auto split: option.splits)

lemma unescape_u_length: "unescape_u s = Some (v, t) \<Longrightarrow> length t < length s"
  by (auto simp: unescape_u_def split: option.splits if_splits dest!: hex4_length)

lemma unescape_length: "unescape s = Some (v, t) \<Longrightarrow> length t < length s"
  by (auto simp: unescape_def split: list.splits if_splits dest: unescape_u_length)

text \<open>The body of a string after its opening quote, and what follows the closing one.\<close>

function unquote :: "string \<Rightarrow> (string \<times> string) option" where
  "unquote s =
     (case s of
        [] \<Rightarrow> None
      | c # t \<Rightarrow>
          if c = dquote then Some ([], t)
          else if c = backslash then
            (case unescape t of
               None \<Rightarrow> None
             | Some (bs, t') \<Rightarrow> map_option (\<lambda>(r, u). (bs @ r, u)) (unquote t'))
          else if byte c < 32 then None
          else case rune_size s of
            None \<Rightarrow> None
          | Some n \<Rightarrow> map_option (\<lambda>(r, u). (take n s @ r, u)) (unquote (drop n s)))"
  by pat_completeness auto
termination
  by (relation "measure length") (auto dest: unescape_length rune_size_bounds)

declare unquote.simps [simp del]

lemma unquote_length: "unquote s = Some (r, t) \<Longrightarrow> length t < length s"
proof (induction s arbitrary: r t rule: unquote.induct)
  case (1 s)
  obtain c u where s: "s = c # u" using 1(3) by (subst (asm) unquote.simps) (auto split: list.splits)
  show ?case
  proof (cases "c = dquote")
    case True
    with 1(3) s show ?thesis by (simp add: unquote.simps [of "dquote # u"])
  next
    case nq: False
    show ?thesis
    proof (cases "c = backslash")
      case True
      with 1(3) s nq obtain bs t' r' where "unescape u = Some (bs, t')" "unquote t' = Some (r', t)"
        by (subst (asm) unquote.simps) (auto split: option.splits)
      with 1(1) s nq True unescape_length show ?thesis by fastforce
    next
      case False
      with 1(3) s nq obtain n r' where "rune_size s = Some n" "unquote (drop n s) = Some (r', t)" "\<not> byte c < 32"
        by (subst (asm) unquote.simps) (auto split: option.splits if_splits)
      with 1(2) s nq False rune_size_bounds show ?thesis by fastforce
    qed
  qed
qed

subsection \<open>What is quoted reads back\<close>

lemma byte_char_of: "n < 256 \<Longrightarrow> byte (char_of n) = n"
  by (simp add: byte_def)

lemma char_of_byte: "char_of (byte c) = c"
  by (simp add: byte_def)

lemma byte_less: "byte c < 256"
  by (simp add: byte_def)

lemma byte_inject: "byte c = byte d \<longleftrightarrow> c = d"
  by (simp add: byte_def)

lemma byte_short [simp]:
  "byte CHR 0x08 = 8" "byte CHR 0x09 = 9" "byte CHR 0x0A = 10" "byte CHR 0x0C = 12" "byte CHR 0x0D = 13"
  by (simp_all add: byte_def)

lemma byte_shortD:
  "byte c \<in> {8, 9, 10, 12, 13} \<Longrightarrow> c \<in> {CHR 0x08, CHR 0x09, CHR 0x0A, CHR 0x0C, CHR 0x0D}"
  unfolding byte_short [symmetric] byte_inject insert_iff empty_iff .

lemma hex_value_digit: "d < 16 \<Longrightarrow> hex_value (hex_digit d) = Some d"
  by (auto simp: hex_value_def hex_digit_def byte_char_of Let_def)

lemma byte_syntax [simp]: "byte dquote = 34" "byte backslash = 92" "dquote \<noteq> backslash" "backslash \<noteq> dquote"
  by (simp_all add: byte_def dquote_def backslash_def)

lemma unquote_quote_end [simp]: "unquote (dquote # t) = Some ([], t)"
  by (simp add: unquote.simps [of "dquote # t"])

lemma unquote_escape:
  "unquote (backslash # s) =
     (case unescape s of None \<Rightarrow> None | Some (bs, t) \<Rightarrow> map_option (\<lambda>(r, u). (bs @ r, u)) (unquote t))"
  by (simp add: unquote.simps [of "backslash # s"])

lemma unquote_plain:
  "c \<noteq> dquote \<Longrightarrow> c \<noteq> backslash \<Longrightarrow> 32 \<le> byte c \<Longrightarrow> rune_size (c # s) = Some n \<Longrightarrow>
   unquote (c # s) = map_option (\<lambda>(r, u). (take n (c # s) @ r, u)) (unquote (drop n (c # s)))"
  by (simp add: unquote.simps [of "c # s"] del: take_Cons')

lemma unescape_hex:
  assumes "n < 32"
  shows "unescape (''u00'' @ [hex_digit (n div 16), hex_digit (n mod 16)] @ s) = Some ([char_of n], s)"
proof -
  have "hex4 (CHR ''0'' # CHR ''0'' # hex_digit (n div 16) # hex_digit (n mod 16) # s) = Some (n, s)"
    using assms by (simp add: hex_value_digit) (simp add: hex_value_def byte_def)
  with assms show ?thesis
    by (simp add: unescape_def unescape_u_def encode_rune_def dquote_def backslash_def)
qed

lemma escape_short:
  "escape_byte CHR 0x08 = [backslash, CHR ''b'']" "escape_byte CHR 0x09 = [backslash, CHR ''t'']"
  "escape_byte CHR 0x0A = [backslash, CHR ''n'']" "escape_byte CHR 0x0C = [backslash, CHR ''f'']"
  "escape_byte CHR 0x0D = [backslash, CHR ''r'']"
  by (simp_all add: escape_byte_def dquote_def backslash_def)

lemma unescape_short:
  "unescape (CHR ''b'' # s) = Some ([CHR 0x08], s)" "unescape (CHR ''t'' # s) = Some ([CHR 0x09], s)"
  "unescape (CHR ''n'' # s) = Some ([CHR 0x0A], s)" "unescape (CHR ''f'' # s) = Some ([CHR 0x0C], s)"
  "unescape (CHR ''r'' # s) = Some ([CHR 0x0D], s)"
  by (simp_all add: unescape_def dquote_def backslash_def)

lemma unquote_escaped_byte:
  assumes "byte c < 128"
  shows "unquote (escape_byte c @ s) = map_option (\<lambda>(r, u). (c # r, u)) (unquote s)"
proof -
  have plain: "unquote (c # s) = map_option (\<lambda>(r, u). (c # r, u)) (unquote s)"
    if "c \<noteq> dquote" "c \<noteq> backslash" "32 \<le> byte c"
    using unquote_plain [OF that rune_size_ascii [OF assms]] by simp
  consider (special) "c = dquote \<or> c = backslash" | (short) "c \<in> {CHR 0x08, CHR 0x09, CHR 0x0A, CHR 0x0C, CHR 0x0D}"
    | (control) "byte c < 32" "byte c \<notin> {8, 9, 10, 12, 13}" "c \<noteq> dquote" "c \<noteq> backslash"
    | (printable) "32 \<le> byte c" "c \<noteq> dquote" "c \<noteq> backslash"
  proof (cases "c = dquote \<or> c = backslash")
    case True
    then show thesis by (rule special)
  next
    case nsp: False
    show thesis
    proof (cases "byte c < 32")
      case True
      show thesis
      proof (cases "byte c \<in> {8, 9, 10, 12, 13}")
        case True
        then show thesis by (rule short [OF byte_shortD])
      next
        case False
        with True nsp show thesis by (intro control) simp_all
      qed
    next
      case False
      with nsp show thesis by (intro printable) simp_all
    qed
  qed
  then show ?thesis
  proof cases
    case special
    then have "unescape (c # s) = Some ([c], s)" by (auto simp: unescape_def)
    with special show ?thesis by (auto simp: escape_byte_def Let_def unquote_escape)
  next
    case short
    then show ?thesis
      by (elim insertE emptyE) (simp_all add: escape_short unescape_short unquote_escape)
  next
    case control
    have "escape_byte c = backslash # ''u00'' @ [hex_digit (byte c div 16), hex_digit (byte c mod 16)]"
      using control by (simp add: escape_byte_def Let_def)
    with unescape_hex [OF control(1), of s] show ?thesis
      by (simp add: unquote_escape char_of_byte)
  next
    case printable
    with plain show ?thesis by (simp add: escape_byte_def Let_def)
  qed
qed

lemma escape_high: "\<forall>c \<in> set s. 128 \<le> byte c \<Longrightarrow> concat (map escape_byte s) = s"
  by (induction s) (auto simp: escape_byte_def Let_def)

lemma unquote_quoted:
  assumes "valid_utf8 s"
  shows "unquote (concat (map escape_byte s) @ dquote # t) = Some (s, t)"
  using assms
proof (induction rule: valid_utf8_induct)
  case (rune s n)
  from rune(1) rune_size_bounds obtain c u where s: "s = c # u" by (cases s) fastforce+
  show ?case
  proof (cases "byte c < 128")
    case True
    with rune(1) rune_size_ascii [OF True, of u] s have "n = 1" by simp
    with rune(3) True s show ?thesis by (simp add: unquote_escaped_byte)
  next
    case False
    let ?h = "take n s" and ?r = "concat (map escape_byte (drop n s)) @ dquote # t"
    have h: "concat (map escape_byte ?h) = ?h"
      using rune_size_high [of c u n] rune(1) False s by (intro escape_high) simp
    have split: "concat (map escape_byte s) @ dquote # t = ?h @ ?r"
      by (subst append_take_drop_id [of n s, symmetric]) (simp only: map_append concat_append append_assoc h)
    have n: "1 \<le> n" "n \<le> length s" using rune_size_bounds rune(1) by blast+
    then obtain v where v: "?h = c # v" using s by (cases n) auto
    have rs: "rune_size (c # v @ ?r) = Some n" using rune_size_take [OF rune(1), of ?r] v by simp
    have "length (c # v) = n" using n arg_cong [OF v, of length] by simp
    then have td: "take n (c # v @ ?r) = c # v" "drop n (c # v @ ?r) = ?r" by auto
    have "c \<noteq> dquote" "c \<noteq> backslash" "32 \<le> byte c" using False by auto
    from unquote_plain [OF this rs] rune(3) td split v show ?thesis
      by simp (metis append_Cons append_take_drop_id)
  qed
qed simp

text \<open>Only valid UTF-8 is ever read.\<close>

lemma valid_utf8_runes: "rune_form s \<Longrightarrow> valid_utf8 t \<Longrightarrow> valid_utf8 (s @ t)"
  using rune_form_size [of s] by (auto simp: valid_utf8_rune rune_size_Some intro!: exI [of _ "length s"])

lemma valid_utf8_append: "valid_utf8 s \<Longrightarrow> valid_utf8 t \<Longrightarrow> valid_utf8 (s @ t)"
proof (induction rule: valid_utf8_induct)
  case (rune s n)
  then have "valid_utf8 (take n s @ (drop n s @ t))"
    by (intro valid_utf8_runes [of "take n s"]) (simp_all add: rune_size_Some)
  then show ?case by (metis append_assoc append_take_drop_id)
qed simp

lemma continuation_mod: "continuation (char_of (128 + n mod 64))" for n :: nat
  by (simp add: continuation_def byte_char_of)

lemma rune_form_3:
  fixes a x y :: nat
  assumes "224 \<le> a" "a < 240" "a = 224 \<Longrightarrow> 32 \<le> x mod 64" "a = 237 \<Longrightarrow> x mod 64 < 32"
  shows "rune_form [char_of a, char_of (128 + x mod 64), char_of (128 + y mod 64)]"
  using assms by (simp add: continuation_mod byte_char_of)

lemma rune_form_4:
  fixes a x y z :: nat
  assumes "240 \<le> a" "a < 245" "a = 240 \<Longrightarrow> 16 \<le> x mod 64" "a = 244 \<Longrightarrow> x mod 64 < 16"
  shows "rune_form [char_of a, char_of (128 + x mod 64), char_of (128 + y mod 64), char_of (128 + z mod 64)]"
  using assms by (simp add: continuation_mod byte_char_of)

lemma mod_window: "b * 64 \<le> n \<Longrightarrow> n < b * 64 + k \<Longrightarrow> n mod 64 < k" for n :: nat
proof -
  assume "b * 64 \<le> n" "n < b * 64 + k"
  then obtain r where "n = b * 64 + r" "r < k" using le_Suc_ex by fastforce
  then show ?thesis using mod_less_eq_dividend [of r 64] by simp
qed

lemma encode_rune_form:
  assumes "v < 0x110000" "v < 0xD800 \<or> 0xE000 \<le> v"
  shows "rune_form (encode_rune v)"
proof -
  consider "v < 128" | "128 \<le> v" "v < 2048" | "2048 \<le> v" "v < 65536" | "65536 \<le> v" by linarith
  then show ?thesis
  proof cases
    case 1
    then show ?thesis by (simp add: encode_rune_def byte_char_of)
  next
    case 2
    then have "192 + v div 64 < 224" "194 \<le> 192 + v div 64" by linarith+
    with 2 show ?thesis by (simp add: encode_rune_def byte_char_of continuation_mod)
  next
    case 3
    have "rune_form [char_of (224 + v div 4096), char_of (128 + v div 64 mod 64), char_of (128 + v mod 64)]"
    proof (rule rune_form_3)
      show "32 \<le> v div 64 mod 64" if "224 + v div 4096 = 224"
        using 3 that by simp
      show "v div 64 mod 64 < 32" if "224 + v div 4096 = 237"
      proof (rule mod_window [of 13])
        have "53248 \<le> v" "v < 55296" using assms(2) that by linarith+
        then show "13 * 64 \<le> v div 64" "v div 64 < 13 * 64 + 32" by linarith+
      qed
    qed (use 3 in linarith)+
    moreover have "\<not> v < 128" "\<not> v < 2048" using 3 by linarith+
    ultimately show ?thesis using 3(2) by (simp only: encode_rune_def if_False if_True)
  next
    case 4
    have "rune_form [char_of (240 + v div 262144), char_of (128 + v div 4096 mod 64),
        char_of (128 + v div 64 mod 64), char_of (128 + v mod 64)]"
    proof (rule rune_form_4)
      show "16 \<le> v div 4096 mod 64" if "240 + v div 262144 = 240"
        using 4 that by simp
      show "v div 4096 mod 64 < 16" if "240 + v div 262144 = 244"
      proof (rule mod_window [of 4])
        have "1048576 \<le> v" using that by linarith
        then show "4 * 64 \<le> v div 4096" "v div 4096 < 4 * 64 + 16" using assms(1) by linarith+
      qed
    qed (use assms(1) in linarith)+
    moreover have "\<not> v < 128" "\<not> v < 2048" "\<not> v < 65536" using 4 by linarith+
    ultimately show ?thesis by (simp only: encode_rune_def if_False)
  qed
qed

lemma hex_value_less: "hex_value c = Some n \<Longrightarrow> n < 16"
  by (auto simp: hex_value_def Let_def split: if_splits)

lemma hex4_less: "hex4 s = Some (v, t) \<Longrightarrow> v < 65536"
proof (induction s rule: hex4.induct)
  case (1 a b c d s)
  then obtain w x y z where "hex_value a = Some w" "hex_value b = Some x" "hex_value c = Some y" "hex_value d = Some z"
    "v = w * 4096 + x * 256 + y * 16 + z" by (auto split: option.splits)
  with hex_value_less [of a w] hex_value_less [of b x] hex_value_less [of c y] hex_value_less [of d z]
  show ?case by simp
qed auto

lemma unescape_u_form:
  assumes "unescape_u s = Some (r, t)"
  shows "rune_form r"
proof -
  obtain v s1 where v: "hex4 s = Some (v, s1)"
    using assms by (auto simp: unescape_u_def split: option.splits)
  have lt: "v < 65536" using hex4_less v by blast
  show ?thesis
  proof (cases "v < 0xD800 \<or> 0xE000 \<le> v")
    case True
    with assms v have "r = encode_rune v" by (simp add: unescape_u_def)
    with encode_rune_form [of v] True lt show ?thesis by simp
  next
    case False
    with assms v obtain w s2 where w: "hex4 (drop 2 s1) = Some (w, s2)" "0xDC00 \<le> w" "w < 0xE000" "v < 0xDC00"
      "r = encode_rune (0x10000 + (v - 0xD800) * 1024 + (w - 0xDC00))"
      by (auto simp: unescape_u_def split: option.splits if_splits)
    have "(v - 0xD800) * 1024 \<le> 1023 * 1024" "w - 0xDC00 < 1024"
      using w(2-4) by simp_all
    then show ?thesis
      unfolding w(5) by (intro encode_rune_form) linarith+
  qed
qed

lemma unescape_valid: "unescape s = Some (r, t) \<Longrightarrow> valid_utf8 r"
  using unescape_u_form valid_utf8_runes [of r "[]"]
  by (auto simp: unescape_def dquote_def backslash_def byte_def split: list.splits if_splits
      intro!: valid_utf8_ascii)

lemma unquote_valid: "unquote s = Some (r, t) \<Longrightarrow> valid_utf8 r"
proof (induction s arbitrary: r t rule: unquote.induct)
  case (1 s)
  obtain c u where s: "s = c # u" using 1(3) by (subst (asm) unquote.simps) (auto split: list.splits)
  show ?case
  proof (cases "c = dquote")
    case True
    with 1(3) s show ?thesis by simp
  next
    case nq: False
    show ?thesis
    proof (cases "c = backslash")
      case True
      with 1(3) s obtain bs t' r' where "unescape u = Some (bs, t')" "unquote t' = Some (r', t)" "r = bs @ r'"
        by (auto simp: unquote_escape split: option.splits)
      with 1(1) s nq True unescape_valid valid_utf8_append show ?thesis by fastforce
    next
      case False
      with 1(3) s nq obtain n r' where n: "rune_size s = Some n" "unquote (drop n s) = Some (r', t)"
        "\<not> byte c < 32" "r = take n s @ r'"
        by (subst (asm) unquote.simps) (auto split: option.splits if_splits)
      then have "rune_form (take n s)" by (simp add: rune_size_Some)
      with 1(2) s nq False n valid_utf8_runes show ?thesis by fastforce
    qed
  qed
qed

subsection \<open>Tokens\<close>

datatype tok = TBegin | TEnd | TColon | TComma | TTrue | TFalse | TNull | TStr string

definition json_space :: "char \<Rightarrow> bool" where
  "json_space c \<longleftrightarrow> c = CHR '' '' \<or> c = CHR 0x09 \<or> c = CHR 0x0A \<or> c = CHR 0x0D"

text \<open>One lexing step: a token or nothing for a space, and the rest of the text.\<close>

definition next_token :: "string \<Rightarrow> (tok option \<times> string) option" where
  "next_token s =
     (case s of
        [] \<Rightarrow> None
      | c # t \<Rightarrow>
          if json_space c then Some (None, t)
          else if c = CHR 0x7B then Some (Some TBegin, t)
          else if c = CHR 0x7D then Some (Some TEnd, t)
          else if c = CHR '':'' then Some (Some TColon, t)
          else if c = CHR '','' then Some (Some TComma, t)
          else if c = dquote then map_option (\<lambda>(r, u). (Some (TStr r), u)) (unquote t)
          else if take 4 s = ''true'' then Some (Some TTrue, drop 4 s)
          else if take 5 s = ''false'' then Some (Some TFalse, drop 5 s)
          else if take 4 s = ''null'' then Some (Some TNull, drop 4 s)
          else None)"

lemma next_token_length: "next_token s = Some (x, u) \<Longrightarrow> length u < length s"
  by (auto simp: next_token_def split: list.splits if_splits dest: unquote_length)

function tokens :: "string \<Rightarrow> tok list option" where
  "tokens s =
     (if s = [] then Some []
      else case next_token s of
        None \<Rightarrow> None
      | Some (None, u) \<Rightarrow> tokens u
      | Some (Some x, u) \<Rightarrow> map_option (Cons x) (tokens u))"
  by pat_completeness auto
termination
  by (relation "measure length") (auto dest: next_token_length)

declare tokens.simps [simp del]

fun render_tok :: "tok \<Rightarrow> string" where
  "render_tok TBegin = [CHR 0x7B]"
| "render_tok TEnd = [CHR 0x7D]"
| "render_tok TColon = '':''"
| "render_tok TComma = '',''"
| "render_tok TTrue = ''true''"
| "render_tok TFalse = ''false''"
| "render_tok TNull = ''null''"
| "render_tok (TStr s) = quote_string s"

definition render :: "tok list \<Rightarrow> string" where
  "render ts = concat (map render_tok ts)"

fun tok_valid :: "tok \<Rightarrow> bool" where
  "tok_valid (TStr s) = valid_utf8 s"
| "tok_valid _ = True"

lemma tokens_Nil [simp]: "tokens [] = Some []"
  by (simp add: tokens.simps)

lemma next_token_render: "tok_valid t \<Longrightarrow> next_token (render_tok t @ s) = Some (Some t, s)"
proof (cases t)
  case (TStr r)
  assume "tok_valid t"
  with TStr unquote_quoted [of r s] show ?thesis
    by (simp add: next_token_def quote_string_def json_space_def) (simp add: dquote_def)
qed (simp_all add: next_token_def json_space_def dquote_def)

lemma tokens_tok: "tok_valid t \<Longrightarrow> tokens (render_tok t @ s) = map_option (Cons t) (tokens s)"
  using next_token_render [of t s] by (subst tokens.simps) (auto simp: next_token_def)

text \<open>What is written reads back, token by token.\<close>

lemma tokens_render: "list_all tok_valid ts \<Longrightarrow> tokens (render ts) = Some ts"
  by (induction ts) (simp_all add: render_def tokens_tok)

lemma next_token_valid: "next_token s = Some (Some x, u) \<Longrightarrow> tok_valid x"
  by (auto simp: next_token_def split: list.splits if_splits dest: unquote_valid)

lemma tokens_valid: "tokens s = Some ts \<Longrightarrow> list_all tok_valid ts"
proof (induction s arbitrary: ts rule: tokens.induct)
  case (1 s)
  show ?case
  proof (cases "s = []")
    case True
    with 1 show ?thesis by simp
  next
    case False
    with 1(3) obtain x u where n: "next_token s = Some (x, u)"
      by (subst (asm) tokens.simps) (auto split: option.splits)
    with 1 False next_token_valid show ?thesis
      by (cases x) (fastforce simp: tokens.simps [of s])+
  qed
qed

end
