(* ===== verification/Sha256.thy ===== *)
theory Sha256
  imports Prelude "HOL-Library.Word"
begin

unbundle bit_operations_syntax

section \<open>crypto/sha256 and encoding/hex\<close>

text \<open>
  SHA-256 of FIPS 180-4 on byte strings, as \<^verbatim>\<open>sha256.Sum256\<close> computes it: 32-bit words with wrap-around
  addition, blocks of 64 bytes. The eight working variables are a list. Messages are shorter than 2 to
  the 61 bytes, the standard's limit.
\<close>

type_synonym word32 = "32 word"

definition rotr :: "nat \<Rightarrow> word32 \<Rightarrow> word32" where
  "rotr n x = drop_bit n x OR push_bit (32 - n) x"

text \<open>The constants, as the standard derives them: the first 32 bits of the fractional parts of the cube
  roots (the round constants) and square roots (the initial value) of the first primes.\<close>

definition primes_upto :: "int \<Rightarrow> int list" where
  "primes_upto n = filter (\<lambda>p. list_all (\<lambda>d. p mod d \<noteq> 0) [2..p - 1]) [2..n]"

definition int_root :: "nat \<Rightarrow> int \<Rightarrow> int" where
  "int_root k n = fold (\<lambda>b r. if (r + 2 ^ b) ^ k \<le> n then r + 2 ^ b else r) (rev [0..<40]) 0"

definition sha_k :: "word32 list" where
  "sha_k = map (\<lambda>p. word_of_int (int_root 3 (p * 2 ^ 96))) (primes_upto 311)"

definition sha_init :: "word32 list" where
  "sha_init = map (\<lambda>p. word_of_int (int_root 2 (p * 2 ^ 64))) (primes_upto 19)"

definition big_endian :: "nat \<Rightarrow> int \<Rightarrow> int list" where
  "big_endian n v = rev (map (\<lambda>i. v div 256 ^ i mod 256) [0..<n])"

definition sha_pad :: "int list \<Rightarrow> int list" where
  "sha_pad bs = bs @ 128 # replicate ((119 - length bs mod 64) mod 64) 0 @ big_endian 8 (8 * int (length bs))"

fun be_words :: "int list \<Rightarrow> word32 list" where
  "be_words (a # b # c # d # bs) = word_of_int (((a * 256 + b) * 256 + c) * 256 + d) # be_words bs"
| "be_words _ = []"

text \<open>The message schedule, kept newest first: \<open>ws\<close> holds the words so far in reverse.\<close>

definition schedule_word :: "word32 list \<Rightarrow> word32" where
  "schedule_word ws =
     (let w15 = ws ! 14; w2 = ws ! 1;
          s0 = rotr 7 w15 XOR rotr 18 w15 XOR drop_bit 3 w15;
          s1 = rotr 17 w2 XOR rotr 19 w2 XOR drop_bit 10 w2
      in ws ! 15 + s0 + ws ! 6 + s1)"

definition schedule :: "word32 list \<Rightarrow> word32 list" where
  "schedule block = rev (((\<lambda>ws. schedule_word ws # ws) ^^ 48) (rev block))"

definition sha_round :: "word32 \<times> word32 \<Rightarrow> word32 list \<Rightarrow> word32 list" where
  "sha_round kw st =
     (case st of
        [a, b, c, d, e, f, g, h] \<Rightarrow>
          (let s1 = rotr 6 e XOR rotr 11 e XOR rotr 25 e;
               ch = (e AND f) XOR (NOT e AND g);
               t1 = h + s1 + ch + fst kw + snd kw;
               s0 = rotr 2 a XOR rotr 13 a XOR rotr 22 a;
               maj = (a AND b) XOR (a AND c) XOR (b AND c);
               t2 = s0 + maj
           in [t1 + t2, a, b, c, d + t1, e, f, g])
      | _ \<Rightarrow> st)"

definition sha_block :: "word32 list \<Rightarrow> word32 list \<Rightarrow> word32 list" where
  "sha_block block st = map2 (+) st (fold sha_round (zip sha_k (schedule block)) st)"

fun sha_blocks :: "nat \<Rightarrow> word32 list \<Rightarrow> word32 list \<Rightarrow> word32 list" where
  "sha_blocks 0 ws st = st"
| "sha_blocks (Suc n) ws st = sha_blocks n (drop 16 ws) (sha_block (take 16 ws) st)"

definition Sum256 :: "string \<Rightarrow> int list" where
  "Sum256 s =
     (let ws = be_words (sha_pad (map of_char s))
      in concat (map (big_endian 4 \<circ> uint) (sha_blocks (length ws div 16) ws sha_init)))"

definition hex_char :: "int \<Rightarrow> char" where
  "hex_char d = char_of (if d < 10 then 48 + d else 87 + d)"

definition EncodeToString :: "int list \<Rightarrow> string" where
  "EncodeToString bs = concat (map (\<lambda>b. [hex_char (b div 16), hex_char (b mod 16)]) bs)"

subsection \<open>The shape of a digest\<close>

lemma big_endian_length [simp]: "length (big_endian n v) = n"
  by (simp add: big_endian_def)

lemma big_endian_byte: "b \<in> set (big_endian n v) \<Longrightarrow> 0 \<le> b \<and> b < 256"
  by (auto simp: big_endian_def)

lemma sha_pad_blocks: "length (sha_pad bs) mod 64 = 0"
proof -
  define q r where "q = length bs div 64" and "r = length bs mod 64"
  have qr: "length bs = q * 64 + r" "r < 64"
    unfolding q_def r_def by (rule div_mult_mod_eq [symmetric]) simp
  have len: "length (sha_pad bs) = q * 64 + r + (119 - r) mod 64 + 9"
    by (simp add: sha_pad_def qr r_def [symmetric])
  show ?thesis
  proof (cases "r < 56")
    case True
    then have "119 - r = (55 - r) + 64" by linarith
    then have "(119 - r) mod 64 = (55 - r) mod 64" by (simp only: mod_add_self2)
    also have "\<dots> = 55 - r" by (rule mod_less) linarith
    finally have "length (sha_pad bs) = (q + 1) * 64" using True len by simp
    then show ?thesis by simp
  next
    case False
    then have "(119 - r) mod 64 = 119 - r" using qr(2) by simp
    with False len qr(2) have "length (sha_pad bs) = (q + 2) * 64" by simp
    then show ?thesis by simp
  qed
qed

lemma sha_round_length: "length st = 8 \<Longrightarrow> length (sha_round kw st) = 8"
  by (auto simp: sha_round_def Let_def length_Suc_conv eval_nat_numeral)

lemma sha_rounds_length: "length st = 8 \<Longrightarrow> length (fold sha_round kws st) = 8"
  by (induction kws arbitrary: st) (simp_all add: sha_round_length)

lemma sha_blocks_length: "length st = 8 \<Longrightarrow> length (sha_blocks n ws st) = 8"
  by (induction n ws st rule: sha_blocks.induct) (simp_all add: sha_block_def sha_rounds_length)

lemma first_primes: "length (primes_upto 19) = 8"
  by code_simp

lemma Sum256_shape: "length (Sum256 s) = 32 \<and> (\<forall>b \<in> set (Sum256 s). 0 \<le> b \<and> b < 256)"
proof -
  have len: "length (sha_blocks n ws sha_init) = 8" for n ws
    by (rule sha_blocks_length) (simp add: sha_init_def first_primes)
  have "length (concat (map (big_endian 4 \<circ> uint) xs)) = 4 * length xs" for xs :: "word32 list"
    by (induction xs) auto
  with len show ?thesis
    by (auto simp: Sum256_def Let_def dest: big_endian_byte)
qed

definition lower_hex :: "char \<Rightarrow> bool" where
  "lower_hex c \<longleftrightarrow> c \<in> set ''0123456789abcdef''"

lemma hex_char_lower: "0 \<le> d \<Longrightarrow> d < 16 \<Longrightarrow> lower_hex (hex_char d)"
proof -
  assume "0 \<le> d" "d < 16"
  then have "d \<in> set [0..15]" by simp
  moreover have "list_all (\<lambda>d. lower_hex (hex_char d)) [0..15]" by code_simp
  ultimately show ?thesis by (metis list_all_iff)
qed

lemma EncodeToString_shape:
  "\<forall>b \<in> set bs. 0 \<le> b \<and> b < 256 \<Longrightarrow>
   length (EncodeToString bs) = 2 * length bs \<and> list_all lower_hex (EncodeToString bs)"
  by (induction bs) (auto simp: EncodeToString_def intro!: hex_char_lower)

lemma digest_hex: "length (EncodeToString (Sum256 s)) = 64 \<and> list_all lower_hex (EncodeToString (Sum256 s))"
  using EncodeToString_shape [of "Sum256 s"] Sum256_shape [of s] by simp

end
