(* ===== verification/ReleaseCanonical.thy ===== *)
theory ReleaseCanonical
  imports ReleaseManifest GoJson Sha256
begin

section \<open>internal/manifest: the manifest's JSON form and the release digest\<close>

text \<open>
  The rest of \<^verbatim>\<open>manifest.go\<close>: \<^verbatim>\<open>Canonical\<close>, \<^verbatim>\<open>canonicalManifest\<close> and \<^verbatim>\<open>ReleaseSHA\<close>, and what
  \<^verbatim>\<open>json.Unmarshal\<close> with \<^verbatim>\<open>RejectUnknownMembers\<close> does to the two structs: \<open>decode\<close>, a decoder that meets
  \<open>json_decoder\<close>, so that what \<open>ReleaseManifest\<close> proves of any decoder holds of this one. A struct is
  read member by member in any order; a member twice, an unknown member, a member of the wrong kind or
  text after the value is an error; null is the zero value. Field order and \<^verbatim>\<open>omitempty\<close> are the struct
  tags'.
\<close>

subsection \<open>Decoding\<close>

definition zeroManifest :: Manifest where
  "zeroManifest = \<lparr>Release = [], CreatedAt = [], Environment = [], SPA = False, NotFoundName = [], Files = None,
     modTime = zeroTime, lastModified = [], approxBytes = 0\<rparr>"

fun tok_string :: "tok \<Rightarrow> string option" where
  "tok_string (TStr s) = Some s"
| "tok_string TNull = Some []"
| "tok_string _ = None"

fun tok_bool :: "tok \<Rightarrow> bool option" where
  "tok_bool TTrue = Some True"
| "tok_bool TFalse = Some False"
| "tok_bool TNull = Some False"
| "tok_bool _ = None"

definition set_file_field :: "string \<Rightarrow> tok \<Rightarrow> File \<Rightarrow> File option" where
  "set_file_field n v f =
     (if n = ''blob'' then map_option (\<lambda>s. f\<lparr>Blob := s\<rparr>) (tok_string v)
      else if n = ''ct'' then map_option (\<lambda>s. f\<lparr>ContentType := s\<rparr>) (tok_string v)
      else if n = ''cache'' then map_option (\<lambda>s. f\<lparr>Cache := s\<rparr>) (tok_string v)
      else None)"

fun file_members :: "string list \<Rightarrow> File \<Rightarrow> tok list \<Rightarrow> (File \<times> tok list) option" where
  "file_members seen f (TStr n # TColon # v # ts) =
     (if n \<in> set seen then None
      else case set_file_field n v f of
        None \<Rightarrow> None
      | Some f' \<Rightarrow>
          (case ts of
             TComma # ts' \<Rightarrow> file_members (n # seen) f' ts'
           | TEnd # ts' \<Rightarrow> Some (f', ts')
           | _ \<Rightarrow> None))"
| "file_members seen f _ = None"

fun file_value :: "tok list \<Rightarrow> (File \<times> tok list) option" where
  "file_value (TNull # ts) = Some (zeroFile, ts)"
| "file_value (TBegin # TEnd # ts) = Some (zeroFile, ts)"
| "file_value (TBegin # ts) = file_members [] zeroFile ts"
| "file_value _ = None"

lemma file_members_length: "file_members seen f ts = Some (f', us) \<Longrightarrow> length us < length ts"
  by (induction seen f ts rule: file_members.induct) (fastforce split: if_splits option.splits list.splits tok.splits)+

lemma file_value_length: "file_value ts = Some (f, us) \<Longrightarrow> length us < length ts"
  by (induction ts rule: file_value.induct) (fastforce dest: file_members_length)+

function (sequential) files_members :: "(string \<times> File) list \<Rightarrow> tok list \<Rightarrow> ((string \<times> File) list \<times> tok list) option" where
  "files_members acc (TStr n # TColon # ts) =
     (if n \<in> fst ` set acc then None
      else case file_value ts of
        None \<Rightarrow> None
      | Some (f, us) \<Rightarrow>
          (case us of
             TComma # ts' \<Rightarrow> files_members (acc @ [(n, f)]) ts'
           | TEnd # ts' \<Rightarrow> Some (acc @ [(n, f)], ts')
           | _ \<Rightarrow> None))"
| "files_members acc _ = None"
  by pat_completeness auto
termination
  by (relation "measure (\<lambda>(acc, ts). length ts)") (auto dest!: file_value_length)

fun files_value :: "tok list \<Rightarrow> (File gomap \<times> tok list) option" where
  "files_value (TNull # ts) = Some (None, ts)"
| "files_value (TBegin # TEnd # ts) = Some (Some [], ts)"
| "files_value (TBegin # ts) = map_option (\<lambda>(fs, us). (Some fs, us)) (files_members [] ts)"
| "files_value _ = None"

lemma files_members_length: "files_members acc ts = Some (fs, us) \<Longrightarrow> length us < length ts"
proof (induction acc ts rule: files_members.induct)
  case (1 acc n ts)
  then show ?case
    by (fastforce split: list.splits tok.splits if_splits option.splits dest!: file_value_length)
qed auto

lemma files_value_length: "files_value ts = Some (f, us) \<Longrightarrow> length us < length ts"
  by (induction ts rule: files_value.induct) (fastforce dest: files_members_length)+

definition set_scalar_field :: "string \<Rightarrow> tok \<Rightarrow> Manifest \<Rightarrow> Manifest option" where
  "set_scalar_field n v m =
     (if n = ''release'' then map_option (\<lambda>s. m\<lparr>Release := s\<rparr>) (tok_string v)
      else if n = ''createdAt'' then map_option (\<lambda>s. m\<lparr>CreatedAt := s\<rparr>) (tok_string v)
      else if n = ''environment'' then map_option (\<lambda>s. m\<lparr>Environment := s\<rparr>) (tok_string v)
      else if n = ''spa'' then map_option (\<lambda>b. m\<lparr>SPA := b\<rparr>) (tok_bool v)
      else if n = ''notFound'' then map_option (\<lambda>s. m\<lparr>NotFoundName := s\<rparr>) (tok_string v)
      else None)"

definition manifest_field :: "string \<Rightarrow> tok list \<Rightarrow> Manifest \<Rightarrow> (Manifest \<times> tok list) option" where
  "manifest_field n ts m =
     (if n = ''files'' then map_option (\<lambda>(fs, us). (m\<lparr>Files := fs\<rparr>, us)) (files_value ts)
      else case ts of [] \<Rightarrow> None | v # us \<Rightarrow> map_option (\<lambda>m'. (m', us)) (set_scalar_field n v m))"

lemma manifest_field_length: "manifest_field n ts m = Some (m', us) \<Longrightarrow> length us < length ts"
  by (auto simp: manifest_field_def split: if_splits list.splits dest: files_value_length)

function (sequential) manifest_members :: "string list \<Rightarrow> Manifest \<Rightarrow> tok list \<Rightarrow> (Manifest \<times> tok list) option" where
  "manifest_members seen m (TStr n # TColon # ts) =
     (if n \<in> set seen then None
      else case manifest_field n ts m of
        None \<Rightarrow> None
      | Some (m', us) \<Rightarrow>
          (case us of
             TComma # ts' \<Rightarrow> manifest_members (n # seen) m' ts'
           | TEnd # ts' \<Rightarrow> Some (m', ts')
           | _ \<Rightarrow> None))"
| "manifest_members seen m _ = None"
  by pat_completeness auto
termination
  by (relation "measure (\<lambda>(seen, m, ts). length ts)") (auto dest!: manifest_field_length)

fun manifest_value :: "tok list \<Rightarrow> (Manifest \<times> tok list) option" where
  "manifest_value (TNull # ts) = Some (zeroManifest, ts)"
| "manifest_value (TBegin # TEnd # ts) = Some (zeroManifest, ts)"
| "manifest_value (TBegin # ts) = manifest_members [] zeroManifest ts"
| "manifest_value _ = None"

definition decode :: "bytes \<Rightarrow> string + Manifest" where
  "decode data =
     (case tokens data of
        None \<Rightarrow> Inl ''json''
      | Some ts \<Rightarrow>
          (case manifest_value ts of
             Some (m, []) \<Rightarrow> Inr m
           | _ \<Rightarrow> Inl ''json''))"

subsection \<open>Encoding\<close>

record canonicalManifest =
  cm_CreatedAt :: string
  cm_Environment :: string
  cm_SPA :: bool
  cm_NotFound :: string
  cm_Files :: "File gomap"

text \<open>An object from its members' names and values.\<close>

fun member_toks :: "(string \<times> tok list) list \<Rightarrow> tok list" where
  "member_toks [] = []"
| "member_toks [(n, v)] = TStr n # TColon # v"
| "member_toks ((n, v) # ms) = TStr n # TColon # v @ TComma # member_toks ms"

definition object_toks :: "(string \<times> tok list) list \<Rightarrow> tok list" where
  "object_toks ms = TBegin # member_toks ms @ [TEnd]"

definition file_toks :: "File \<Rightarrow> tok list" where
  "file_toks f = object_toks [(''blob'', [TStr (Blob f)]), (''ct'', [TStr (ContentType f)]), (''cache'', [TStr (Cache f)])]"

text \<open>A map with \<^verbatim>\<open>json.Deterministic\<close>: the names collected in iteration order and sorted.\<close>

definition files_toks :: "rng \<Rightarrow> File gomap \<Rightarrow> tok list" where
  "files_toks rng fs =
     (let names = sort (map fst (rng 6 (gomap_entries fs)))
      in object_toks (map (\<lambda>n. (n, file_toks (case map_of (gomap_entries fs) n of Some f \<Rightarrow> f | None \<Rightarrow> zeroFile))) names))"

definition omitempty :: "string \<Rightarrow> string \<Rightarrow> (string \<times> tok list) list" where
  "omitempty n s = (if s = [] then [] else [(n, [TStr s])])"

definition manifest_toks :: "rng \<Rightarrow> canonicalManifest \<Rightarrow> tok list" where
  "manifest_toks rng c =
     object_toks (omitempty ''createdAt'' (cm_CreatedAt c) @
       [(''environment'', [TStr (cm_Environment c)]), (''spa'', [if cm_SPA c then TTrue else TFalse])] @
       omitempty ''notFound'' (cm_NotFound c) @ [(''files'', files_toks rng (cm_Files c))])"

text \<open>\<^verbatim>\<open>json.Marshal\<close>: an error when a string is not valid UTF-8.\<close>

definition Marshal :: "tok list \<Rightarrow> string + bytes" where
  "Marshal ts = (if list_all tok_valid ts then Inr (render ts) else Inl ''invalid UTF-8'')"

definition Canonical :: "rng \<Rightarrow> Manifest \<Rightarrow> string + bytes" where
  "Canonical rng m =
     (let c = \<lparr>cm_CreatedAt = CreatedAt m, cm_Environment = Environment m, cm_SPA = SPA m,
          cm_NotFound = NotFoundName m, cm_Files = Files m\<rparr>
      in Marshal (manifest_toks rng c))"

definition ReleaseSHA :: "rng \<Rightarrow> Manifest \<Rightarrow> string + string" where
  "ReleaseSHA rng m =
     (case Canonical rng m of
        Inl err \<Rightarrow> Inl err
      | Inr b \<Rightarrow> (let sum = Sum256 b in Inr (EncodeToString sum)))"

subsection \<open>What is encoded decodes\<close>

lemma file_value_toks [simp]: "file_value (file_toks f @ ts) = Some (f, ts)"
  by (simp add: file_toks_def object_toks_def set_file_field_def)

lemma member_toks_Cons: "ms \<noteq> [] \<Longrightarrow> member_toks ((n, v) # ms) = TStr n # TColon # v @ TComma # member_toks ms"
  by (cases ms) auto

lemma files_members_toks:
  "es \<noteq> [] \<Longrightarrow> distinct (map fst (acc @ es)) \<Longrightarrow>
   files_members acc (member_toks (map (\<lambda>(n, f). (n, file_toks f)) es) @ TEnd # ts) = Some (acc @ es, ts)"
proof (induction es arbitrary: acc)
  case (Cons e es)
  obtain n f where e: "e = (n, f)" by fastforce
  have new: "n \<notin> fst ` set acc" using Cons.prems(2) e by auto
  show ?case
  proof (cases "es = []")
    case True
    with e new show ?thesis by simp
  next
    case False
    with Cons.IH [of "acc @ [(n, f)]"] Cons.prems(2) e new show ?thesis
      by (simp add: member_toks_Cons)
  qed
qed simp

lemma files_value_toks:
  assumes "distinct (map fst es)"
  shows "files_value (object_toks (map (\<lambda>(n, f). (n, file_toks f)) es) @ ts) = Some (Some es, ts)"
proof (cases es)
  case Nil
  then show ?thesis by (simp add: object_toks_def)
next
  case (Cons e es')
  obtain n f where e: "e = (n, f)" by fastforce
  obtain us where us: "member_toks (map (\<lambda>(n, f). (n, file_toks f)) es) @ TEnd # ts = TStr n # us"
    by (cases es') (auto simp: Cons e)
  have "files_members [] (TStr n # us) = Some (es, ts)"
    using files_members_toks [of es "[]" ts] assms Cons us by simp
  then show ?thesis by (simp add: object_toks_def us)
qed

text \<open>The entries in the order the encoder writes them.\<close>

definition sorted_entries :: "rng \<Rightarrow> File gomap \<Rightarrow> (string \<times> File) list" where
  "sorted_entries rng fs =
     map (\<lambda>n. (n, case map_of (gomap_entries fs) n of Some f \<Rightarrow> f | None \<Rightarrow> zeroFile))
       (sort (map fst (rng 6 (gomap_entries fs))))"

lemma files_toks_entries: "files_toks rng fs = object_toks (map (\<lambda>(n, f). (n, file_toks f)) (sorted_entries rng fs))"
  by (simp add: files_toks_def sorted_entries_def Let_def comp_def)

lemma sorted_entries_names:
  assumes rng: "go_range rng"
  shows "map fst (sorted_entries rng fs) = sort (map fst (gomap_entries fs))"
proof -
  have "mset (map fst (rng 6 (gomap_entries fs))) = mset (map fst (gomap_entries fs))"
    using rng by (simp add: go_range_def mset_map)
  then have "sort (map fst (rng 6 (gomap_entries fs))) = sort (map fst (gomap_entries fs))"
    by (metis properties_for_sort mset_sort sorted_sort)
  then show ?thesis by (simp add: sorted_entries_def comp_def)
qed

lemma sorted_entries_distinct:
  "go_range rng \<Longrightarrow> distinct (map fst (gomap_entries fs)) \<Longrightarrow> distinct (map fst (sorted_entries rng fs))"
  by (simp add: sorted_entries_names)

lemma map_of_tagged: "map_of (map (\<lambda>n. (n, g n)) ns) k = (if k \<in> set ns then Some (g k) else None)"
  by (induction ns) auto

lemma sorted_entries_map:
  assumes "go_range rng"
  shows "map_of (sorted_entries rng fs) = map_of (gomap_entries fs)"
proof
  fix k
  have "k \<in> set (sort (map fst (rng 6 (gomap_entries fs)))) \<longleftrightarrow> map_of (gomap_entries fs) k \<noteq> None"
    using rng_set [OF assms] by (simp add: map_of_eq_None_iff)
  then show "map_of (sorted_entries rng fs) k = map_of (gomap_entries fs) k"
    by (cases "map_of (gomap_entries fs) k") (simp_all only: sorted_entries_def map_of_tagged option.case option.distinct simp_thms if_True if_False)
qed

text \<open>The encoded text depends on the content of the map alone.\<close>

lemma sorted_entries_cong:
  assumes "go_range rng" "go_range rng'" "distinct (map fst (gomap_entries fs))" "distinct (map fst (gomap_entries fs'))"
    and "map_of (gomap_entries fs) = map_of (gomap_entries fs')"
  shows "sorted_entries rng fs = sorted_entries rng' fs'"
proof -
  have "set (map fst (gomap_entries fs)) = set (map fst (gomap_entries fs'))"
    using arg_cong [OF assms(5), of dom] by (simp add: dom_map_of_conv_image_fst)
  then have "sort (map fst (gomap_entries fs)) = sort (map fst (gomap_entries fs'))"
    using assms(3,4) by (intro sorted_distinct_set_unique) simp_all
  then have "map fst (sorted_entries rng fs) = map fst (sorted_entries rng' fs')"
    using assms(1,2) by (simp only: sorted_entries_names)
  then show ?thesis
    by (simp add: sorted_entries_def comp_def assms(5))
qed

lemma manifest_value_toks:
  assumes "go_range rng" "distinct (map fst (gomap_entries (cm_Files c)))"
  shows "manifest_value (manifest_toks rng c) =
    Some (zeroManifest\<lparr>CreatedAt := cm_CreatedAt c, Environment := cm_Environment c, SPA := cm_SPA c,
      NotFoundName := cm_NotFound c, Files := Some (sorted_entries rng (cm_Files c))\<rparr>, [])"
proof -
  have f: "files_value (files_toks rng (cm_Files c) @ ts) = Some (Some (sorted_entries rng (cm_Files c)), ts)" for ts
    unfolding files_toks_entries by (rule files_value_toks [OF sorted_entries_distinct [OF assms]])
  have spa: "tok_bool (if cm_SPA c then TTrue else TFalse) = Some (cm_SPA c)" by simp
  show ?thesis
    using f [of "[TEnd]"] spa
    by (simp add: manifest_toks_def object_toks_def omitempty_def manifest_field_def set_scalar_field_def
        member_toks_Cons zeroManifest_def)
qed

subsection \<open>The decoder keeps its contract\<close>

definition plain_fields :: "Manifest \<Rightarrow> bool" where
  "plain_fields m \<longleftrightarrow> modTime m = zeroTime \<and> lastModified m = [] \<and> approxBytes m = 0 \<and>
     distinct (map fst (gomap_entries (Files m)))"

lemma files_members_distinct:
  "files_members acc ts = Some (fs, us) \<Longrightarrow> distinct (map fst acc) \<Longrightarrow> distinct (map fst fs)"
proof (induction acc ts rule: files_members.induct)
  case (1 acc n ts)
  then show ?case
    by (fastforce split: list.splits tok.splits if_splits option.splits)
qed auto

lemma files_value_distinct: "files_value ts = Some (fs, us) \<Longrightarrow> distinct (map fst (gomap_entries fs))"
  by (induction ts rule: files_value.induct) (auto simp: gomap_entries_def dest: files_members_distinct)

lemma manifest_field_plain: "manifest_field n ts m = Some (m', us) \<Longrightarrow> plain_fields m \<Longrightarrow> plain_fields m'"
  by (auto simp: manifest_field_def set_scalar_field_def plain_fields_def split: if_splits list.splits
      dest: files_value_distinct)

lemma manifest_members_plain:
  "manifest_members seen m ts = Some (m', us) \<Longrightarrow> plain_fields m \<Longrightarrow> plain_fields m'"
proof (induction seen m ts rule: manifest_members.induct)
  case (1 seen m n ts)
  then show ?case
    by (fastforce split: list.splits tok.splits if_splits option.splits dest: manifest_field_plain)
qed auto

lemma zeroManifest_plain: "plain_fields zeroManifest"
  by (simp add: plain_fields_def zeroManifest_def gomap_entries_def)

lemma manifest_value_plain: "manifest_value ts = Some (m, us) \<Longrightarrow> plain_fields m"
  by (induction ts rule: manifest_value.induct) (auto simp: zeroManifest_plain dest: manifest_members_plain)

lemma decode_Inr: "decode data = Inr m \<longleftrightarrow> (\<exists>ts. tokens data = Some ts \<and> manifest_value ts = Some (m, []))"
  by (auto simp: decode_def split: option.splits prod.splits list.splits)

lemma decode_json_decoder: "json_decoder decode"
  by (auto simp: json_decoder_def decode_Inr plain_fields_def dest!: manifest_value_plain)

subsection \<open>Which manifests can be written\<close>

definition file_utf8 :: "string \<times> File \<Rightarrow> bool" where
  "file_utf8 e \<longleftrightarrow> valid_utf8 (fst e) \<and> valid_utf8 (Blob (snd e)) \<and> valid_utf8 (ContentType (snd e)) \<and>
     valid_utf8 (Cache (snd e))"

definition manifest_utf8 :: "Manifest \<Rightarrow> bool" where
  "manifest_utf8 m \<longleftrightarrow> valid_utf8 (CreatedAt m) \<and> valid_utf8 (Environment m) \<and> valid_utf8 (NotFoundName m) \<and>
     list_all file_utf8 (gomap_entries (Files m))"

lemma member_toks_valid:
  "list_all tok_valid (member_toks ms) \<longleftrightarrow> list_all (\<lambda>(n, v). valid_utf8 n \<and> list_all tok_valid v) ms"
  by (induction ms rule: member_toks.induct) auto

lemma object_toks_valid:
  "list_all tok_valid (object_toks ms) \<longleftrightarrow> list_all (\<lambda>(n, v). valid_utf8 n \<and> list_all tok_valid v) ms"
  by (simp add: object_toks_def member_toks_valid)

lemma field_names_valid:
  "valid_utf8 ''blob''" "valid_utf8 ''ct''" "valid_utf8 ''cache''" "valid_utf8 ''createdAt''" "valid_utf8 ''environment''"
  "valid_utf8 ''spa''" "valid_utf8 ''notFound''" "valid_utf8 ''files''"
  by (intro valid_utf8_ascii, simp add: byte_def)+

lemma file_toks_valid: "list_all tok_valid (file_toks f) \<longleftrightarrow>
    valid_utf8 (Blob f) \<and> valid_utf8 (ContentType f) \<and> valid_utf8 (Cache f)"
  by (simp add: file_toks_def object_toks_valid field_names_valid)

lemma sorted_entries_set:
  assumes "go_range rng" "distinct (map fst (gomap_entries fs))"
  shows "set (sorted_entries rng fs) = set (gomap_entries fs)"
  using sorted_entries_map [OF assms(1), of fs] map_of_eq_Some_iff [OF assms(2)]
    map_of_eq_Some_iff [OF sorted_entries_distinct [OF assms]] by (metis subset_antisym subrelI)

lemma files_toks_valid:
  assumes "go_range rng" "distinct (map fst (gomap_entries fs))"
  shows "list_all tok_valid (files_toks rng fs) \<longleftrightarrow> list_all file_utf8 (gomap_entries fs)"
  using sorted_entries_set [OF assms]
  by (simp add: files_toks_entries object_toks_valid list_all_iff [of _ "map _ _"] list_all_iff [of file_utf8]
      file_toks_valid file_utf8_def split_beta)

lemma manifest_toks_valid:
  assumes "go_range rng" "distinct (map fst (gomap_entries (cm_Files c)))"
  shows "list_all tok_valid (manifest_toks rng c) \<longleftrightarrow> valid_utf8 (cm_CreatedAt c) \<and> valid_utf8 (cm_Environment c) \<and>
    valid_utf8 (cm_NotFound c) \<and> list_all file_utf8 (gomap_entries (cm_Files c))"
  by (auto simp: manifest_toks_def object_toks_valid omitempty_def field_names_valid files_toks_valid [OF assms])

text \<open>What \<^verbatim>\<open>Canonical\<close> does, in two facts: when it succeeds and what its text reads back as.\<close>

definition canonical_content :: "rng \<Rightarrow> Manifest \<Rightarrow> Manifest" where
  "canonical_content rng m = zeroManifest\<lparr>CreatedAt := CreatedAt m, Environment := Environment m, SPA := SPA m,
     NotFoundName := NotFoundName m, Files := Some (sorted_entries rng (Files m))\<rparr>"

lemma Canonical_success:
  assumes "go_range rng" "distinct (map fst (gomap_entries (Files m)))"
  shows "(\<exists>b. Canonical rng m = Inr b) \<longleftrightarrow> manifest_utf8 m"
  using manifest_toks_valid [OF assms(1)] assms(2)
  by (simp add: Canonical_def Marshal_def manifest_utf8_def)

lemma Canonical_decodes:
  assumes rng: "go_range rng" and d: "distinct (map fst (gomap_entries (Files m)))" and c: "Canonical rng m = Inr b"
  shows "decode b = Inr (canonical_content rng m)"
proof -
  let ?c = "\<lparr>cm_CreatedAt = CreatedAt m, cm_Environment = Environment m, cm_SPA = SPA m,
          cm_NotFound = NotFoundName m, cm_Files = Files m\<rparr>"
  have v: "list_all tok_valid (manifest_toks rng ?c)" and b: "b = render (manifest_toks rng ?c)"
    using c by (auto simp: Canonical_def Marshal_def Let_def split: if_splits)
  have "tokens b = Some (manifest_toks rng ?c)" unfolding b by (rule tokens_render [OF v])
  with manifest_value_toks [OF rng, of ?c] d show ?thesis
    by (simp add: decode_Inr canonical_content_def)
qed

lemma Canonical_cong:
  assumes rng: "go_range rng" "go_range rng'" and d: "distinct (map fst (gomap_entries (Files m)))"
      "distinct (map fst (gomap_entries (Files m')))"
    and eq: "CreatedAt m = CreatedAt m'" "Environment m = Environment m'" "SPA m = SPA m'"
      "NotFoundName m = NotFoundName m'" "map_of (gomap_entries (Files m)) = map_of (gomap_entries (Files m'))"
  shows "Canonical rng m = Canonical rng' m'"
proof -
  have "files_toks rng (Files m) = files_toks rng' (Files m')"
    by (simp add: files_toks_entries sorted_entries_cong [OF rng d eq(5)])
  with eq show ?thesis by (simp add: Canonical_def manifest_toks_def)
qed

subsection \<open>Properties\<close>

definition same_content :: "Manifest \<Rightarrow> Manifest \<Rightarrow> bool" where
  "same_content m m' \<longleftrightarrow> CreatedAt m = CreatedAt m' \<and> Environment m = Environment m' \<and> SPA m = SPA m' \<and>
     NotFoundName m = NotFoundName m' \<and> map_of (gomap_entries (Files m)) = map_of (gomap_entries (Files m'))"

lemma same_content_canonical: "go_range rng \<Longrightarrow> same_content (canonical_content rng m) m"
  using sorted_entries_map [of rng "Files m"]
  by (simp add: same_content_def canonical_content_def gomap_entries_def zeroManifest_def)

text \<open>The canonical text reads back: whatever iteration order the runtime chooses, the bytes
  \<^verbatim>\<open>Canonical\<close> writes for a manifest decode to its serving content, every entry and no other, with the
  paths in byte order and the release field dropped.\<close>

theorem Canonical_roundtrip:
  assumes rng: "go_range rng" and d: "distinct (map fst (gomap_entries (Files m)))" and c: "Canonical rng m = Inr b"
  shows "case decode b of
     Inl _ \<Rightarrow> False
   | Inr m' \<Rightarrow> same_content m' m \<and> Release m' = [] \<and> map fst (gomap_entries (Files m')) = sort (map fst (gomap_entries (Files m)))"
  using Canonical_decodes [OF assms] same_content_canonical [OF rng] sorted_entries_names [OF rng, of "Files m"]
  by (simp add: canonical_content_def gomap_entries_def zeroManifest_def)

text \<open>A release with a path outside ASCII, an escape and its entries out of order.\<close>

definition demo_release :: Manifest where
  "demo_release = zeroManifest\<lparr>Environment := ''pr-7'', NotFoundName := ''404.html'',
     Files := Some [(''index.html'', demo_file ''b1''), ([CHR 0xC3, CHR 0xA9, dquote], demo_file ''b2''),
       (''404.html'', demo_file ''b3'')]\<rparr>"

lemma demo_release_ok: "distinct (map fst (gomap_entries (Files demo_release)))" "manifest_utf8 demo_release"
proof -
  have v: "valid_utf8 [CHR 0xC3, CHR 0xA9, dquote]" by code_simp
  have a: "valid_utf8 (Blob (demo_file x)) \<longleftrightarrow> valid_utf8 x" "valid_utf8 (ContentType (demo_file x))"
    "valid_utf8 (Cache (demo_file x))" for x
    by (simp_all add: demo_file_def ClassHTML_def, (intro valid_utf8_ascii, simp add: byte_def)+)
  have n: "valid_utf8 ''pr-7''" "valid_utf8 ''404.html''" "valid_utf8 ''index.html''" "valid_utf8 ''b1''"
    "valid_utf8 ''b2''" "valid_utf8 ''b3''"
    by (intro valid_utf8_ascii, simp add: byte_def)+
  show "distinct (map fst (gomap_entries (Files demo_release)))"
    by (simp add: demo_release_def gomap_entries_def dquote_def)
  show "manifest_utf8 demo_release"
    by (simp add: manifest_utf8_def demo_release_def gomap_entries_def file_utf8_def zeroManifest_def v a n)
qed

lemma Canonical_roundtrip_witness:
  "\<exists>b. Canonical backwards demo_release = Inr b \<and> (\<exists>m'. decode b = Inr m' \<and> same_content m' demo_release)"
proof -
  obtain b where b: "Canonical backwards demo_release = Inr b"
    using Canonical_success [OF go_range_orders(2) demo_release_ok(1)] demo_release_ok(2) by blast
  with Canonical_roundtrip [OF go_range_orders(2) demo_release_ok(1) b] show ?thesis
    by (auto split: sum.splits)
qed

text \<open>C27: equivalence. The canonical text identifies a release: two manifests, written under any two
  iteration orders, have the same canonical bytes exactly when they have the same creation time,
  environment, policy and the same entry for every path. So releases that differ in any served respect
  are digested from different bytes, and the release field and the map's internal order never count.\<close>

theorem Canonical_identifies:
  assumes rng: "go_range rng" "go_range rng'" and d: "distinct (map fst (gomap_entries (Files m)))"
      "distinct (map fst (gomap_entries (Files m')))" and c: "Canonical rng m = Inr b"
  shows "Canonical rng' m' = Inr b \<longleftrightarrow> same_content m m'"
proof
  assume c': "Canonical rng' m' = Inr b"
  with Canonical_decodes [OF rng(1) d(1) c] Canonical_decodes [OF rng(2) d(2) c']
  have "canonical_content rng m = canonical_content rng' m'" by simp
  with same_content_canonical [OF rng(1), of m] same_content_canonical [OF rng(2), of m'] show "same_content m m'"
    by (simp add: same_content_def)
next
  assume "same_content m m'"
  with Canonical_cong [OF rng d] c show "Canonical rng' m' = Inr b" by (simp add: same_content_def)
qed

lemma Canonical_identifies_witness:
  "Canonical in_order demo_release = Canonical backwards (demo_release\<lparr>Release := ''old''\<rparr>) \<and>
   Canonical in_order demo_release \<noteq> Canonical backwards (demo_release\<lparr>SPA := True\<rparr>)"
proof -
  obtain b where b: "Canonical in_order demo_release = Inr b"
    using Canonical_success [OF go_range_orders(1) demo_release_ok(1)] demo_release_ok(2) by blast
  have d: "distinct (map fst (gomap_entries (Files (demo_release\<lparr>Release := ''old''\<rparr>))))"
    "distinct (map fst (gomap_entries (Files (demo_release\<lparr>SPA := True\<rparr>))))"
    using demo_release_ok(1) by simp_all
  show ?thesis
    using Canonical_identifies [OF go_range_orders demo_release_ok(1) d(1) b]
      Canonical_identifies [OF go_range_orders demo_release_ok(1) d(2) b] b
    by (simp add: same_content_def) (simp add: demo_release_def zeroManifest_def)
qed

text \<open>C29: error. A release digest exists exactly for the manifests whose strings are valid UTF-8, and it is
  64 lower-case hexadecimal digits.\<close>

theorem ReleaseSHA_total:
  assumes rng: "go_range rng" and d: "distinct (map fst (gomap_entries (Files m)))"
  shows "case ReleaseSHA rng m of
     Inl _ \<Rightarrow> \<not> manifest_utf8 m
   | Inr sha \<Rightarrow> manifest_utf8 m \<and> length sha = 64 \<and> list_all lower_hex sha"
  using Canonical_success [OF assms] digest_hex
  by (cases "Canonical rng m") (auto simp: ReleaseSHA_def)

lemma ReleaseSHA_total_witness:
  "\<exists>sha. ReleaseSHA in_order demo_release = Inr sha \<and> length sha = 64"
  using ReleaseSHA_total [OF go_range_orders(1) demo_release_ok(1)] demo_release_ok(2)
  by (auto split: sum.splits)

lemma canonical_loads:
  assumes rng: "go_range rng" "go_range rng'" and d: "distinct (map fst (gomap_entries (Files m)))"
    and ok: "list_all (\<lambda>e. \<not> HasPrefix (fst e) ''/'' \<and> Blob (snd e) \<noteq> []) (gomap_entries (Files m))"
    and c: "Canonical rng m = Inr b"
  shows "\<exists>m'. Load rng' decode b = Inr m' \<and> (\<forall>p. Lookup m' p = Lookup m p) \<and> Environment m' = Environment m \<and>
    SPA m' = SPA m \<and> NotFoundDoc m' = NotFoundDoc m \<and> ReleaseSHA rng' m' = ReleaseSHA rng m"
proof -
  let ?fs = "sorted_entries rng (Files m)"
  let ?m0 = "canonical_content rng m"
  have dec: "decode b = Inr ?m0" by (rule Canonical_decodes [OF rng(1) d c])
  have fs: "Files ?m0 = Some ?fs" by (simp add: canonical_content_def)
  have ok': "\<forall>e \<in> set ?fs. \<not> HasPrefix (fst e) ''/'' \<and> Blob (snd e) \<noteq> []"
    using ok sorted_entries_set [OF rng(1) d] by (simp add: list_all_iff)
  then have "canonicalizeFileKeys rng' ?fs = ?fs"
    by (intro canonicalizeFileKeys_id [OF rng(2)]) blast
  moreover have "find (\<lambda>(p, f). Blob f = []) (rng' 0 ?fs) = None"
    using find_empty_blob [OF rng(2)] ok' by blast
  ultimately have ld: "Load rng' decode b = Inr (precompute rng' (?m0\<lparr>Files := Some ?fs\<rparr>))"
    by (simp add: Load_def dec fs)
  let ?m' = "precompute rng' (?m0\<lparr>Files := Some ?fs\<rparr>)"
  have eq: "CreatedAt ?m' = CreatedAt m" "Environment ?m' = Environment m" "SPA ?m' = SPA m"
    "NotFoundName ?m' = NotFoundName m" "Files ?m' = Some ?fs"
    by (simp_all add: precompute_fields [OF rng(2)] canonical_content_def)
  have mp: "map_of (gomap_entries (Files ?m')) = map_of (gomap_entries (Files m))"
    by (simp add: eq gomap_entries_def [of "Some _"] sorted_entries_map [OF rng(1)])
  have "distinct (map fst (gomap_entries (Files ?m')))"
    using sorted_entries_distinct [OF rng(1) d] by (simp add: eq gomap_entries_def [of "Some _"])
  then have "Canonical rng' ?m' = Canonical rng m"
    by (intro Canonical_cong [OF rng(2,1)]) (use d eq mp in simp_all)
  with ld eq mp show ?thesis
    by (intro exI [of _ ?m']) (simp add: Lookup_def NotFoundDoc_def ReleaseSHA_def)
qed

text \<open>C28: roundtrip. Publish, then load: a manifest whose paths have no leading slash and whose entries have
  blobs, written by \<^verbatim>\<open>Canonical\<close> and loaded by \<^verbatim>\<open>Load\<close> under any other iteration order, answers every
  lookup as the original, with the same policy, the same not-found document and the same digest.\<close>

theorem publish_then_load:
  assumes rng: "go_range rng" "go_range rng'" and d: "distinct (map fst (gomap_entries (Files m)))"
    and ok: "list_all (\<lambda>e. \<not> HasPrefix (fst e) ''/'' \<and> Blob (snd e) \<noteq> []) (gomap_entries (Files m))"
    and c: "Canonical rng m = Inr b"
  shows "\<exists>m'. Load rng' decode b = Inr m' \<and> (\<forall>p. Lookup m' p = Lookup m p) \<and> Environment m' = Environment m \<and>
    SPA m' = SPA m \<and> NotFoundDoc m' = NotFoundDoc m \<and> ReleaseSHA rng' m' = ReleaseSHA rng m"
  by (rule canonical_loads [OF assms])

lemma publish_then_load_witness:
  "\<exists>b m'. Canonical in_order demo_release = Inr b \<and> Load backwards decode b = Inr m' \<and>
     Lookup m' ''404.html'' = (demo_file ''b3'', True)"
proof -
  obtain b where b: "Canonical in_order demo_release = Inr b"
    using Canonical_success [OF go_range_orders(1) demo_release_ok(1)] demo_release_ok(2) by blast
  have ok: "list_all (\<lambda>e. \<not> HasPrefix (fst e) ''/'' \<and> Blob (snd e) \<noteq> []) (gomap_entries (Files demo_release))"
    by (simp add: demo_release_def gomap_entries_def HasPrefix_def demo_file_def)
  have "Lookup demo_release ''404.html'' = (demo_file ''b3'', True)"
    by (simp add: Lookup_def demo_release_def gomap_entries_def)
  with publish_then_load [OF go_range_orders demo_release_ok(1) ok b] b show ?thesis
    by fastforce
qed

end
