(* ===== verification/BlobStore.thy ===== *)
theory BlobStore
  imports GoPath GoTime
begin

section \<open>internal/blobstore: keys, the store interface, the fake and the bucket-backed store\<close>

text \<open>
  \<^verbatim>\<open>blobstore.go\<close>, \<^verbatim>\<open>fake.go\<close> and \<^verbatim>\<open>gcs.go\<close>. A store is a state with operations on it; the
  interface \<^verbatim>\<open>Store\<close> is the locale \<open>object_store\<close>: what \<^verbatim>\<open>Get\<close> promises about the objects the store
  holds. The context argument is not modelled: a cancelled read is an error of the reader.
\<close>

subsection \<open>Storage keys\<close>

definition ManifestKey :: "string \<Rightarrow> string \<Rightarrow> string \<Rightarrow> string" where
  "ManifestKey project name releaseSHA = Join [''sites'', project, name, ''releases'', releaseSHA]"

definition BlobKey :: "string \<Rightarrow> string \<Rightarrow> string \<Rightarrow> string" where
  "BlobKey project name blobSHA = Join [''sites'', project, name, ''blobs'', blobSHA]"

text \<open>Joining slash-free elements runs the element stack over them.\<close>

lemma Join_elements:
  assumes "es \<noteq> []" "hd es \<noteq> []" "\<forall>e \<in> set es. slash \<notin> set e"
  shows "Join es = (let st = fold (seg_step False) es [] in if st = [] then [dot] else join_sep slash (rev st))"
proof -
  obtain e es' where es: "es = e # es'" "e \<noteq> []" using assms(1,2) by (cases es) auto
  have buf: "join_buf [] es = join_sep slash es"
    unfolding es(1) by (rule join_buf_start [OF es(2)])
  have ne: "join_sep slash es \<noteq> []" and hd: "hd (join_sep slash es) \<noteq> slash"
    using es assms(3) by (auto simp: join_sep_Cons) (metis hd_in_set)+
  have "segments False (join_sep slash es) = rev (fold (seg_step False) es [])"
    using Split_join [of es slash] assms by (simp add: segments_def)
  then show ?thesis
    using Clean_relative [OF ne hd] es buf by (simp add: Join_def Let_def)
qed

lemma fold_seg_step_length_le: "length (fold (seg_step b) xs st) \<le> length xs + length st"
proof (induction xs arbitrary: st)
  case (Cons s xs)
  have "length (seg_step b s st) \<le> Suc (length st)"
    by (auto simp: seg_step_def split: list.split)
  with Cons [of "seg_step b s st"] show ?case by simp
qed simp

text \<open>The stack is as long as the list of elements only when every element was pushed.\<close>

lemma fold_seg_step_full:
  assumes "st \<noteq> []" "hd st \<noteq> dots" "length (fold (seg_step b) xs st) = length xs + length st"
  shows "\<forall>s \<in> set xs. s \<noteq> [] \<and> s \<noteq> [dot] \<and> s \<noteq> dots"
  using assms
proof (induction xs arbitrary: st)
  case (Cons s xs)
  from Cons.prems(3) have "length (fold (seg_step b) xs (seg_step b s st)) = Suc (length xs + length st)"
    by simp
  with fold_seg_step_length_le [of b xs "seg_step b s st"] have "length st < length (seg_step b s st)"
    by simp
  with Cons.prems(1,2) have s: "s \<noteq> []" "s \<noteq> [dot]" "s \<noteq> dots"
    by (auto simp: seg_step_def neq_Nil_conv split: if_splits)
  then have "seg_step b s st = s # st" by (simp add: seg_step_def)
  with Cons.IH [of "s # st"] Cons.prems(3) s show ?case by simp
qed simp

lemma norm_seg_names [simp]: "norm_seg ''sites''" "norm_seg ''releases''" "norm_seg ''blobs''"
  by (simp_all add: norm_seg_def dots_def)

text \<open>Whatever slash-free elements are asked for, a key that is the key of a well-named object is
  that object's own.\<close>

lemma site_key_unique:
  assumes "slash \<notin> set p" "slash \<notin> set n" "slash \<notin> set x" "norm_seg k"
    and "norm_seg p'" "norm_seg n'" "norm_seg x'" "norm_seg k'"
  shows "Join [''sites'', p, n, k, x] = Join [''sites'', p', n', k', x'] \<longleftrightarrow> (p, n, k, x) = (p', n', k', x')"
proof
  let ?es = "[''sites'', p, n, k, x]" and ?es' = "[''sites'', p', n', k', x']"
  let ?st = "fold (seg_step False) ?es []"
  assume eq: "Join ?es = Join ?es'"
  have k: "slash \<notin> set k" using assms(4) by (simp add: norm_seg_def)
  have j': "Join ?es' = join_sep slash ?es'"
    using assms by (intro Join_norm) auto
  have sp': "Split slash (join_sep slash ?es') = ?es'"
    using assms by (intro Split_join) (auto simp: norm_seg_def)
  have j: "Join ?es = (if ?st = [] then [dot] else join_sep slash (rev ?st))"
    using Join_elements [of ?es] assms k by (simp add: Let_def)
  have ne: "?st \<noteq> []"
  proof
    assume "?st = []"
    with j eq j' have "join_sep slash ?es' = [dot]" by simp
    with sp' show False by simp
  qed
  have "\<forall>s \<in> set ?st. slash \<notin> set s"
  proof -
    have "set (fold (seg_step False) xs st) \<subseteq> set xs \<union> set st" for xs st
    proof (induction xs arbitrary: st)
      case (Cons s xs)
      have "set (seg_step False s st) \<subseteq> insert s (set st)"
        by (auto simp: seg_step_def split: list.split)
      with Cons [of "seg_step False s st"] show ?case by auto
    qed simp
    from this [of ?es "[]"] assms k show ?thesis by fastforce
  qed
  with ne have "Split slash (join_sep slash (rev ?st)) = rev ?st"
    by (intro Split_join) auto
  with eq j j' ne sp' have st: "rev ?st = ?es'" by simp
  have "fold (seg_step False) ?es [] = fold (seg_step False) [p, n, k, x] [''sites'']"
    by (simp add: seg_step_def dots_def)
  with st have "length (fold (seg_step False) [p, n, k, x] [''sites'']) = length [p, n, k, x] + length [''sites'']"
    by (metis length_Cons length_rev list.size(3) add_Suc_right add.right_neutral)
  then have "\<forall>s \<in> set [p, n, k, x]. s \<noteq> [] \<and> s \<noteq> [dot] \<and> s \<noteq> dots"
    using fold_seg_step_full [of "[''sites'']" False "[p, n, k, x]"] by (simp add: dots_def)
  then have "rev ?st = ?es"
    by (simp add: seg_step_def dots_def)
  with st show "(p, n, k, x) = (p', n', k', x')" by simp
qed simp

text \<open>C38: safety. No request can reach another site's objects by its storage key: whatever three
  slash-free elements (\<^verbatim>\<open>.\<close> and \<^verbatim>\<open>..\<close> included) a request names, if the manifest or blob key built
  from them is the key of a well-named object, it is the key of that very project, site and digest,
  and of the right kind.\<close>

theorem keys_do_not_alias:
  assumes "slash \<notin> set p" "slash \<notin> set n" "slash \<notin> set x"
    and "norm_seg p'" "norm_seg n'" "norm_seg x'"
  shows "(ManifestKey p n x = ManifestKey p' n' x' \<longleftrightarrow> p = p' \<and> n = n' \<and> x = x') \<and>
     (BlobKey p n x = BlobKey p' n' x' \<longleftrightarrow> p = p' \<and> n = n' \<and> x = x') \<and>
     ManifestKey p n x \<noteq> BlobKey p' n' x' \<and> BlobKey p n x \<noteq> ManifestKey p' n' x'"
  using site_key_unique [OF assms(1-3) _ assms(4-6)]
  by (simp add: ManifestKey_def BlobKey_def)

lemma keys_do_not_alias_witness:
  "ManifestKey ''..'' ''acme'' ''r1'' = ''acme/releases/r1'' \<and>
   ManifestKey ''..'' ''acme'' ''r1'' \<noteq> ManifestKey ''acme'' ''docs'' ''r1''"
proof -
  have "norm_seg ''acme''" "norm_seg ''docs''" "norm_seg ''r1''"
    by (simp_all add: norm_seg_def dots_def)
  with keys_do_not_alias [of "''..''" "''acme''" "''r1''" "''acme''" "''docs''" "''r1''"]
  have "ManifestKey ''..'' ''acme'' ''r1'' \<noteq> ManifestKey ''acme'' ''docs'' ''r1''" by simp
  moreover have "ManifestKey ''..'' ''acme'' ''r1'' = ''acme/releases/r1''" by code_simp
  ultimately show ?thesis by blast
qed

text \<open>For well-named parts the keys are the documented layout, literally.\<close>

theorem keys_layout:
  assumes "norm_seg p" "norm_seg n" "norm_seg x"
  shows "ManifestKey p n x = ''sites/'' @ p @ ''/'' @ n @ ''/releases/'' @ x \<and>
         BlobKey p n x = ''sites/'' @ p @ ''/'' @ n @ ''/blobs/'' @ x"
  using Join_norm [of "[''sites'', p, n, ''releases'', x]"] Join_norm [of "[''sites'', p, n, ''blobs'', x]"] assms
  by (simp add: ManifestKey_def BlobKey_def)

lemma keys_layout_witness:
  "norm_seg ''acme'' \<and> BlobKey ''acme'' ''docs'' ''00ff'' = ''sites/acme/docs/blobs/00ff''"
proof -
  have "norm_seg ''acme''" "norm_seg ''docs''" "norm_seg ''00ff''"
    by (simp_all add: norm_seg_def dots_def)
  with keys_layout [of "''acme''" "''docs''" "''00ff''"] show ?thesis by simp
qed


subsection \<open>Readers\<close>

text \<open>
  The error of a store call: \<^verbatim>\<open>NotExist\<close> is an error that \<^verbatim>\<open>errors.Is\<close> matches with \<^verbatim>\<open>ErrNotExist\<close>
  (wrapped with the key), the others do not match it. \<open>EOF\<close> and \<open>UnexpectedEOF\<close> are those of
  package \<^verbatim>\<open>io\<close>. A reader is what it delivers: the bytes up to the error or, without one, all its
  bytes; and what \<^verbatim>\<open>Size()\<close> answers when it has that method.
\<close>

datatype store_error = NotExist string | Wrapped string string | ReadFailed string | EOF | UnexpectedEOF

fun is_NotExist :: "store_error \<Rightarrow> bool" where
  "is_NotExist (NotExist _) = True"
| "is_NotExist _ = False"

record reader =
  rd_data :: bytes
  rd_size :: "int option"
  rd_err :: "store_error option"

definition bytesReader :: "bytes \<Rightarrow> reader" where
  "bytesReader d = \<lparr>rd_data = d, rd_size = Some (int (length d)), rd_err = None\<rparr>"

text \<open>\<^verbatim>\<open>io.ReadAll\<close> and \<^verbatim>\<open>io.ReadFull\<close> into a buffer of \<open>n\<close> bytes.\<close>

definition ReadAll :: "reader \<Rightarrow> store_error + bytes" where
  "ReadAll r = (case rd_err r of Some e \<Rightarrow> Inl e | None \<Rightarrow> Inr (rd_data r))"

definition ReadFull :: "reader \<Rightarrow> nat \<Rightarrow> store_error + bytes" where
  "ReadFull r n =
     (if n \<le> length (rd_data r) then Inr (take n (rd_data r))
      else case rd_err r of
             Some e \<Rightarrow> Inl e
           | None \<Rightarrow> Inl (if rd_data r = [] then EOF else UnexpectedEOF))"

text \<open>The reader delivers the object \<open>d\<close>: all of it, or a part and then an error, which is not the
  not-exist error; a size it reports is the object's.\<close>

definition delivers :: "reader \<Rightarrow> bytes \<Rightarrow> bool" where
  "delivers r d \<longleftrightarrow>
     (case rd_err r of None \<Rightarrow> rd_data r = d | Some e \<Rightarrow> prefix (rd_data r) d \<and> \<not> is_NotExist e) \<and>
     (case rd_size r of None \<Rightarrow> True | Some n \<Rightarrow> n < 0 \<or> n = int (length d))"

lemma delivers_bytesReader: "delivers (bytesReader d) d' \<longleftrightarrow> d = d'"
  by (auto simp: delivers_def bytesReader_def)

lemma delivers_ReadAll: "delivers r d \<Longrightarrow> ReadAll r = Inr b \<Longrightarrow> b = d"
  by (auto simp: delivers_def ReadAll_def split: option.splits)

lemma delivers_ReadFull:
  "delivers r d \<Longrightarrow> rd_size r = Some n \<Longrightarrow> 0 \<le> n \<Longrightarrow> ReadFull r (nat n) = Inr b \<Longrightarrow> b = d"
  by (auto simp: delivers_def ReadFull_def prefix_def split: option.splits if_splits)

lemma delivers_ReadFull_error: "delivers r d \<Longrightarrow> ReadFull r n = Inl e \<Longrightarrow> \<not> is_NotExist e"
  by (auto simp: delivers_def ReadFull_def split: option.splits if_splits)

subsection \<open>The interface\<close>

record Attrs =
  a_Size :: int
  a_ContentType :: string
  a_CacheControl :: string
  a_ModTime :: gotime
  a_ETag :: string

locale object_store =
  fixes invar :: "'s \<Rightarrow> bool"
    and objs :: "'s \<Rightarrow> string \<Rightarrow> bytes option"
    and get :: "string \<Rightarrow> 's \<Rightarrow> (store_error + reader) \<times> 's"
  assumes get_invar: "invar s \<Longrightarrow> invar (snd (get k s))"
    and get_objs: "invar s \<Longrightarrow> objs (snd (get k s)) = objs s"
    and get_sound: "invar s \<Longrightarrow> fst (get k s) = Inr r \<Longrightarrow> \<exists>d. objs s k = Some d \<and> delivers r d"
    and get_absent: "invar s \<Longrightarrow> fst (get k s) = Inl e \<Longrightarrow> is_NotExist e \<Longrightarrow> objs s k = None"
begin

lemma get_step:
  assumes "invar s" "get k s = (res, s')"
  shows "invar s'" "objs s' = objs s"
  using get_invar [OF assms(1), of k] get_objs [OF assms(1), of k] assms(2) by auto

lemma read_all_sound:
  assumes "invar s" "get k s = (Inr r, s')" "ReadAll r = Inr d"
  shows "objs s k = Some d"
  using get_sound [OF assms(1), of k r] assms(2,3) delivers_ReadAll by fastforce

text \<open>What a sequence of reads does: the objects stay, every read is sound.\<close>

fun gets :: "string list \<Rightarrow> 's \<Rightarrow> (store_error + reader) list \<times> 's" where
  "gets [] s = ([], s)"
| "gets (k # ks) s = (let (r, s') = get k s; (rs, s'') = gets ks s' in (r # rs, s''))"

lemma gets_sound:
  "invar s \<Longrightarrow> invar (snd (gets ks s)) \<and> objs (snd (gets ks s)) = objs s \<and>
     list_all2 (\<lambda>k res. \<forall>r. res = Inr r \<longrightarrow> (\<exists>d. objs s k = Some d \<and> delivers r d)) ks (fst (gets ks s))"
proof (induction ks arbitrary: s)
  case (Cons k ks)
  obtain res s' where g: "get k s = (res, s')" by fastforce
  note st = get_step [OF Cons.prems g]
  have "\<forall>r. res = Inr r \<longrightarrow> (\<exists>d. objs s k = Some d \<and> delivers r d)"
    using get_sound [OF Cons.prems, of k] g by auto
  with Cons.IH [OF st(1)] st g show ?case by (simp add: split_beta Let_def)
qed simp

end

text \<open>A store with no failures of its own: an object that is there is delivered whole.\<close>

locale reliable_store = object_store invar objs get
  for invar :: "'s \<Rightarrow> bool" and objs :: "'s \<Rightarrow> string \<Rightarrow> bytes option" and get +
  assumes get_present: "invar s \<Longrightarrow> objs s k = Some d \<Longrightarrow>
      \<exists>r. fst (get k s) = Inr r \<and> rd_data r = d \<and> rd_err r = None \<and> rd_size r = Some (int (length d))"
    and get_missing: "invar s \<Longrightarrow> objs s k = None \<Longrightarrow> \<exists>e. fst (get k s) = Inl e \<and> is_NotExist e"
begin

lemma get_result:
  "invar s \<Longrightarrow> (case objs s k of
     Some d \<Rightarrow> fst (get k s) = Inr (bytesReader d)
   | None \<Rightarrow> \<exists>e. fst (get k s) = Inl e \<and> is_NotExist e)"
  using get_present [of s k] get_missing [of s k] by (auto simp: bytesReader_def split: option.split)

end

subsection \<open>The in-memory fake\<close>

record FakeObject =
  fo_Data :: bytes
  fo_ContentType :: string
  fo_CacheControl :: string
  fo_ModTime :: gotime
  fo_ETag :: string

record Fake =
  fk_objects :: "string \<rightharpoonup> FakeObject"
  fk_getCount :: int

definition unixEpoch :: gotime where
  "unixEpoch = GoTime (86400 * 719162) 0"

definition NewFake :: Fake where
  "NewFake = \<lparr>fk_objects = Map.empty, fk_getCount = 0\<rparr>"

definition GetCount :: "Fake \<Rightarrow> int" where
  "GetCount f = fk_getCount f"

definition PutObject :: "string \<Rightarrow> FakeObject \<Rightarrow> Fake \<Rightarrow> Fake" where
  "PutObject k obj f = f\<lparr>fk_objects := (fk_objects f)(k \<mapsto> obj)\<rparr>"

definition Put :: "string \<Rightarrow> bytes \<Rightarrow> string \<Rightarrow> Fake \<Rightarrow> Fake" where
  "Put k data contentType f =
     PutObject k \<lparr>fo_Data = data, fo_ContentType = contentType, fo_CacheControl = [],
       fo_ModTime = unixEpoch, fo_ETag = []\<rparr> f"

definition fake_Get :: "string \<Rightarrow> Fake \<Rightarrow> (store_error + reader) \<times> Fake" where
  "fake_Get k f0 =
     (let f = f0\<lparr>fk_getCount := fk_getCount f0 + 1\<rparr> in
      case fk_objects f k of
        None \<Rightarrow> (Inl (NotExist k), f)
      | Some obj \<Rightarrow> (Inr (bytesReader (fo_Data obj)), f))"

definition fake_Stat :: "string \<Rightarrow> Fake \<Rightarrow> store_error + Attrs" where
  "fake_Stat k f =
     (case fk_objects f k of
        None \<Rightarrow> Inl (NotExist k)
      | Some obj \<Rightarrow> Inr \<lparr>a_Size = int (length (fo_Data obj)), a_ContentType = fo_ContentType obj,
          a_CacheControl = fo_CacheControl obj, a_ModTime = fo_ModTime obj, a_ETag = fo_ETag obj\<rparr>)"

definition fake_Exists :: "string \<Rightarrow> Fake \<Rightarrow> store_error + bool" where
  "fake_Exists k f = Inr (fk_objects f k \<noteq> None)"

definition fake_objs :: "Fake \<Rightarrow> string \<Rightarrow> bytes option" where
  "fake_objs f k = map_option fo_Data (fk_objects f k)"

interpretation fake: reliable_store "\<lambda>_. True" fake_objs fake_Get
  by unfold_locales
    (auto simp: fake_Get_def fake_objs_def bytesReader_def delivers_def Let_def split: option.splits)

lemma unixEpoch_nanos: "UnixNano unixEpoch = 0"
  by (simp add: unixEpoch_def UnixNano_def)

text \<open>The fake behaves as a store of the bytes put: after a put, the three reads of
  that key agree with it and with each other, other keys are as before, and only \<^verbatim>\<open>Get\<close> is counted.\<close>

theorem fake_put_read:
  "fst (fake_Get k (Put k data ct f)) = Inr (bytesReader data) \<and>
   (case fake_Stat k (Put k data ct f) of Inr a \<Rightarrow> a_Size a = int (length data) \<and> a_ContentType a = ct | Inl _ \<Rightarrow> False) \<and>
   fake_Exists k (Put k data ct f) = Inr True \<and>
   GetCount (snd (fake_Get k' (Put k data ct f))) = GetCount f + 1 \<and>
   fake_objs (snd (fake_Get k' (Put k data ct f))) = (fake_objs f)(k \<mapsto> data)"
  by (auto simp: fake_Get_def Put_def PutObject_def fake_Stat_def fake_Exists_def GetCount_def
      fake_objs_def Let_def split: option.split)

subsection \<open>The bucket-backed store\<close>

text \<open>
  The gocloud bucket is third-party code: its operations are the arguments \<open>bk\<close>, its error codes
  the argument \<open>code\<close>. \<open>text_of\<close> renders an error.
\<close>

record ('b, 'e) bucket_ops =
  bk_NewReader :: "string \<Rightarrow> 'b \<Rightarrow> ('e + reader) \<times> 'b"
  bk_Attributes :: "string \<Rightarrow> 'b \<Rightarrow> ('e + Attrs) \<times> 'b"
  bk_Exists :: "string \<Rightarrow> 'b \<Rightarrow> ('e + bool) \<times> 'b"

definition mapErr :: "('e \<Rightarrow> 'c) \<Rightarrow> 'c \<Rightarrow> ('e \<Rightarrow> string) \<Rightarrow> 'e \<Rightarrow> string \<Rightarrow> store_error" where
  "mapErr code notFound text_of err k = (if code err = notFound then NotExist k else Wrapped k (text_of err))"

definition gcs_Get where
  "gcs_Get bk mapE k b =
     (case bk_NewReader bk k b of (Inl err, b') \<Rightarrow> (Inl (mapE err k), b') | (Inr r, b') \<Rightarrow> (Inr r, b'))"

definition gcs_Stat where
  "gcs_Stat bk mapE k b =
     (case bk_Attributes bk k b of
        (Inl err, b') \<Rightarrow> (Inl (mapE err k), b')
      | (Inr a, b') \<Rightarrow> (Inr \<lparr>a_Size = a_Size a, a_ContentType = a_ContentType a,
          a_CacheControl = a_CacheControl a, a_ModTime = a_ModTime a, a_ETag = a_ETag a\<rparr>, b'))"

definition gcs_Exists where
  "gcs_Exists bk mapE k b =
     (case bk_Exists bk k b of (Inl err, b') \<Rightarrow> (Inl (mapE err k), b') | (Inr ok, b') \<Rightarrow> (Inr ok, b'))"


text \<open>What the code relies on of a bucket: reading changes no object, a reader it opens delivers the
  object, and its not-found code means the object is absent.\<close>

definition bucket_contract where
  "bucket_contract iv objs bk code notFound \<longleftrightarrow>
     (\<forall>b k. iv b \<longrightarrow> iv (snd (bk_NewReader bk k b)) \<and> objs (snd (bk_NewReader bk k b)) = objs b \<and>
        (case fst (bk_NewReader bk k b) of
           Inr r \<Rightarrow> (\<exists>d. objs b k = Some d \<and> delivers r d)
         | Inl err \<Rightarrow> code err = notFound \<longrightarrow> objs b k = None))"

lemma bucket_contractD:
  assumes "bucket_contract iv objs bk code notFound" "iv b"
  shows "iv (snd (bk_NewReader bk k b))" "objs (snd (bk_NewReader bk k b)) = objs b"
    "case fst (bk_NewReader bk k b) of
       Inr r \<Rightarrow> \<exists>d. objs b k = Some d \<and> delivers r d
     | Inl err \<Rightarrow> code err = notFound \<longrightarrow> objs b k = None"
  using assms unfolding bucket_contract_def by blast+

lemma gcs_object_store:
  assumes "bucket_contract iv objs bk code notFound"
  shows "object_store iv objs (gcs_Get bk (mapErr code notFound text_of))"
proof
  fix s k
  assume i: "iv s"
  obtain res s' where nr: "bk_NewReader bk k s = (res, s')" by fastforce
  with assms i have c: "iv s'" "objs s' = objs s"
    "case res of Inr r \<Rightarrow> \<exists>d. objs s k = Some d \<and> delivers r d | Inl err \<Rightarrow> code err = notFound \<longrightarrow> objs s k = None"
    using bucket_contractD [OF assms i, of k] by simp_all
  show "iv (snd (gcs_Get bk (mapErr code notFound text_of) k s))"
    using c nr by (simp add: gcs_Get_def split: sum.split)
  show "objs (snd (gcs_Get bk (mapErr code notFound text_of) k s)) = objs s"
    using c nr by (simp add: gcs_Get_def split: sum.split)
  show "\<exists>d. objs s k = Some d \<and> delivers r d" if "fst (gcs_Get bk (mapErr code notFound text_of) k s) = Inr r" for r
    using that c(3) nr by (simp add: gcs_Get_def split: sum.splits)
  show "objs s k = None" if "fst (gcs_Get bk (mapErr code notFound text_of) k s) = Inl e" "is_NotExist e" for e
    using that c(3) nr by (auto simp: gcs_Get_def mapErr_def split: sum.splits if_splits)
qed

text \<open>Over a bucket that keeps its contract the bucket-backed store keeps the store
  interface's: what it delivers is the object stored, reads change nothing, and it reports an object
  absent only when it is.\<close>

theorem gcs_implements_store:
  assumes "bucket_contract iv objs bk code notFound"
  shows "object_store iv objs (gcs_Get bk (mapErr code notFound text_of))"
  by (rule gcs_object_store [OF assms])

text \<open>A bucket in memory whose reads of one key are refused, for the witness.\<close>

definition demo_bucket :: "(string \<rightharpoonup> bytes, string) bucket_ops" where
  "demo_bucket =
     \<lparr>bk_NewReader = (\<lambda>k b.
        (if k = ''secret'' then Inl ''PermissionDenied''
         else case b k of None \<Rightarrow> Inl ''NotFound'' | Some d \<Rightarrow> Inr (bytesReader d), b)),
      bk_Attributes = (\<lambda>k b. (Inl ''Unimplemented'', b)),
      bk_Exists = (\<lambda>k b. (Inr (b k \<noteq> None), b))\<rparr>"

lemma gcs_implements_store_witness:
  "object_store (\<lambda>_. True) (\<lambda>b. b) (gcs_Get demo_bucket (mapErr (\<lambda>e. e) ''NotFound'' (\<lambda>e. e))) \<and>
   fst (gcs_Get demo_bucket (mapErr (\<lambda>e. e) ''NotFound'' (\<lambda>e. e)) ''secret'' Map.empty) =
     Inl (Wrapped ''secret'' ''PermissionDenied'')"
proof -
  have "bucket_contract (\<lambda>_. True) (\<lambda>b. b) demo_bucket (\<lambda>e. e) ''NotFound''"
    by (auto simp: bucket_contract_def demo_bucket_def delivers_bytesReader split: option.split)
  from gcs_implements_store [OF this] show ?thesis
    by (simp add: gcs_Get_def demo_bucket_def mapErr_def)
qed

text \<open>The error mapping of all three reads: a backend error becomes the not-exist error
  exactly when its code says not found; any other failure (permissions, outage, cancellation) is
  never mistaken for an absent object, and a success is passed through untouched.\<close>

theorem gcs_error_mapping:
  "(case fst (bk_NewReader bk k b) of
      Inl err \<Rightarrow> (case fst (gcs_Get bk (mapErr code nf txt) k b) of Inl e \<Rightarrow> is_NotExist e = (code err = nf) | Inr _ \<Rightarrow> False)
    | Inr r \<Rightarrow> fst (gcs_Get bk (mapErr code nf txt) k b) = Inr r) \<and>
   (case fst (bk_Attributes bk k b) of
      Inl err \<Rightarrow> (case fst (gcs_Stat bk (mapErr code nf txt) k b) of Inl e \<Rightarrow> is_NotExist e = (code err = nf) | Inr _ \<Rightarrow> False)
    | Inr a \<Rightarrow> fst (gcs_Stat bk (mapErr code nf txt) k b) = Inr a) \<and>
   (case fst (bk_Exists bk k b) of
      Inl err \<Rightarrow> (case fst (gcs_Exists bk (mapErr code nf txt) k b) of Inl e \<Rightarrow> is_NotExist e = (code err = nf) | Inr _ \<Rightarrow> False)
    | Inr ok \<Rightarrow> fst (gcs_Exists bk (mapErr code nf txt) k b) = Inr ok)"
  by (simp add: gcs_Get_def gcs_Stat_def gcs_Exists_def mapErr_def split: sum.split prod.split)

text \<open>
  \<^verbatim>\<open>OpenGCS\<close>: credentials, client and bucket opener are the cloud libraries' (\<open>env\<close>); the store it
  returns is the bucket. The transport is the default one with three limits raised.
\<close>

record transport =
  MaxIdleConns :: int
  MaxIdleConnsPerHost :: int
  IdleConnTimeout :: int

record ('cr, 'cl, 'b) gcs_env =
  env_DefaultCredentials :: "string + 'cr"
  env_DefaultTransport :: transport
  env_NewHTTPClient :: "transport \<Rightarrow> 'cr \<Rightarrow> string + 'cl"
  env_OpenBucket :: "'cl \<Rightarrow> string \<Rightarrow> string + 'b"

definition seconds :: "int \<Rightarrow> int" where
  "seconds n = n * 1000000000"

text \<open>The wrapped errors: which step failed and the cause's text.\<close>

datatype open_error = EmptyBucketName | CredentialsError string | ClientError string | OpenBucketError string string

definition OpenGCS :: "('cr, 'cl, 'b) gcs_env \<Rightarrow> string \<Rightarrow> open_error + 'b" where
  "OpenGCS env bucketName =
     (if bucketName = [] then Inl EmptyBucketName
      else case env_DefaultCredentials env of
        Inl err \<Rightarrow> Inl (CredentialsError err)
      | Inr creds \<Rightarrow>
          (let transport = (env_DefaultTransport env)\<lparr>MaxIdleConns := 200, MaxIdleConnsPerHost := 100,
                 IdleConnTimeout := seconds 120\<rparr> in
           case env_NewHTTPClient env transport creds of
             Inl err \<Rightarrow> Inl (ClientError err)
           | Inr client \<Rightarrow>
               (case env_OpenBucket env client bucketName of
                  Inl err \<Rightarrow> Inl (OpenBucketError bucketName err)
                | Inr bucket \<Rightarrow> Inr bucket)))"

lemma OpenGCS_success:
  "OpenGCS env n = Inr b \<Longrightarrow> n \<noteq> [] \<and> (\<exists>creds client t. env_DefaultCredentials env = Inr creds \<and>
     env_NewHTTPClient env t creds = Inr client \<and> MaxIdleConnsPerHost t = 100 \<and> env_OpenBucket env client n = Inr b)"
  by (auto simp: OpenGCS_def Let_def split: if_splits sum.splits)
    (metis transport.select_convs(2) transport.surjective transport.update_convs(1-3))

end
