(* ===== verification/HTTP.thy ===== *)
theory HTTP
  imports BlobStore
begin

section \<open>What the handler uses of net/http\<close>

text \<open>
  Requests, the response writer and \<^verbatim>\<open>http.Error\<close>, as far as the handler uses them. A header map is a
  partial function (every key the handler touches is in canonical form and single-valued). The writer
  keeps the live header map until \<^verbatim>\<open>WriteHeader\<close>, ignores a second \<^verbatim>\<open>WriteHeader\<close>, discards the body of
  a HEAD response, and fails once the client has stopped reading (\<open>rs_room\<close> bytes still accepted,
  \<open>None\<close> for a client that reads on). That net/http cuts a body off at a declared \<^verbatim>\<open>Content-Length\<close> is not
  modelled: readers that deliver more than the size they report are outside the store contract.
\<close>

subsection \<open>Headers\<close>

type_synonym header = "string \<rightharpoonup> string"

definition hdr_Get :: "header \<Rightarrow> string \<Rightarrow> string" where
  "hdr_Get h k = (case h k of None \<Rightarrow> [] | Some v \<Rightarrow> v)"

definition hdr_Set :: "string \<Rightarrow> string \<Rightarrow> header \<Rightarrow> header" where
  "hdr_Set k v h = h(k \<mapsto> v)"

definition hdr_Del :: "string \<Rightarrow> header \<Rightarrow> header" where
  "hdr_Del k h = h(k := None)"

subsection \<open>Requests and the response writer\<close>

definition MethodGet :: string where
  "MethodGet = ''GET''"

definition MethodHead :: string where
  "MethodHead = ''HEAD''"

record request =
  rq_Method :: string
  rq_Path :: string
  rq_Header :: header

record response =
  rs_Header :: header
  rs_Status :: "nat option"
  rs_Body :: bytes
  rs_discards :: bool
  rs_room :: "nat option"

definition newResponse :: "request \<Rightarrow> nat option \<Rightarrow> response" where
  "newResponse r room =
     \<lparr>rs_Header = Map.empty, rs_Status = None, rs_Body = [], rs_discards = (rq_Method r = MethodHead), rs_room = room\<rparr>"

definition SetHeader :: "string \<Rightarrow> string \<Rightarrow> response \<Rightarrow> response" where
  "SetHeader k v w = w\<lparr>rs_Header := hdr_Set k v (rs_Header w)\<rparr>"

definition DelHeader :: "string \<Rightarrow> response \<Rightarrow> response" where
  "DelHeader k w = w\<lparr>rs_Header := hdr_Del k (rs_Header w)\<rparr>"

definition WriteHeader :: "nat \<Rightarrow> response \<Rightarrow> response" where
  "WriteHeader code w = (case rs_Status w of None \<Rightarrow> w\<lparr>rs_Status := Some code\<rparr> | Some _ \<Rightarrow> w)"

text \<open>The bytes accepted, whether the write failed, and the writer after it.\<close>

definition WriteBody :: "bytes \<Rightarrow> response \<Rightarrow> nat \<times> bool \<times> response" where
  "WriteBody d w =
     (if rs_discards w then (length d, False, w)
      else case rs_room w of
        None \<Rightarrow> (length d, False, w\<lparr>rs_Body := rs_Body w @ d\<rparr>)
      | Some m \<Rightarrow>
          (let n = min m (length d)
           in (n, n < length d, w\<lparr>rs_Body := rs_Body w @ take n d, rs_room := Some (m - n)\<rparr>)))"

text \<open>\<^verbatim>\<open>io.CopyBuffer\<close> from a reader: what was written, and the error that ended it.\<close>

datatype copy_error = WriteFailed | SourceFailed store_error

definition CopyBuffer :: "reader \<Rightarrow> response \<Rightarrow> nat \<times> copy_error option \<times> response" where
  "CopyBuffer rc w =
     (case WriteBody (rd_data rc) w of
        (n, failed, w') \<Rightarrow> (n, if failed then Some WriteFailed else map_option SourceFailed (rd_err rc), w'))"

definition newline :: string where
  "newline = [CHR 0x0A]"

text \<open>\<^verbatim>\<open>http.Error\<close>: it resets the content headers and leaves every other header as it finds it.\<close>

definition HTTPError :: "string \<Rightarrow> nat \<Rightarrow> response \<Rightarrow> response" where
  "HTTPError msg code w =
     (let w1 = SetHeader ''X-Content-Type-Options'' ''nosniff''
                 (SetHeader ''Content-Type'' ''text/plain; charset=utf-8'' (DelHeader ''Content-Length'' w));
          (_, _, w2) = WriteBody (msg @ newline) (WriteHeader code w1)
      in w2)"

subsection \<open>Facts\<close>

text \<open>The part of a body a client receives.\<close>

definition received :: "nat option \<Rightarrow> bytes \<Rightarrow> bytes" where
  "received room d = (case room of None \<Rightarrow> d | Some m \<Rightarrow> take m d)"

lemma received_prefix: "prefix (received room d) d"
  by (auto simp: received_def take_is_prefix split: option.split)

lemma received_None [simp]: "received None d = d"
  by (simp add: received_def)

lemma WriteBody_spec:
  assumes "WriteBody d w = (n, failed, w')"
  shows "rs_Header w' = rs_Header w" "rs_Status w' = rs_Status w"
    "rs_Body w' = rs_Body w @ (if rs_discards w then [] else received (rs_room w) d)"
    "rs_discards w' = rs_discards w"
    "n = (if rs_discards w then length d else length (received (rs_room w) d))"
    "failed \<longleftrightarrow> \<not> rs_discards w \<and> received (rs_room w) d \<noteq> d"
  using assms
  by (auto simp: WriteBody_def received_def Let_def min_def split: if_splits option.splits)

lemma header_ops [handler_defs]:
  "rs_Header (SetHeader k v w) = (rs_Header w)(k \<mapsto> v)"
  "rs_Status (SetHeader k v w) = rs_Status w" "rs_Body (SetHeader k v w) = rs_Body w"
  "rs_discards (SetHeader k v w) = rs_discards w" "rs_room (SetHeader k v w) = rs_room w"
  "rs_Header (DelHeader k w) = (rs_Header w)(k := None)"
  "rs_Status (DelHeader k w) = rs_Status w" "rs_Body (DelHeader k w) = rs_Body w"
  "rs_discards (DelHeader k w) = rs_discards w" "rs_room (DelHeader k w) = rs_room w"
  "rs_Header (WriteHeader c w) = rs_Header w" "rs_Body (WriteHeader c w) = rs_Body w"
  "rs_discards (WriteHeader c w) = rs_discards w" "rs_room (WriteHeader c w) = rs_room w"
  "rs_Status (WriteHeader c w) = (case rs_Status w of None \<Rightarrow> Some c | Some s \<Rightarrow> Some s)"
  by (auto simp: SetHeader_def DelHeader_def WriteHeader_def hdr_Set_def hdr_Del_def split: option.split)

lemma HTTPError_spec [handler_defs]:
  "rs_Status (HTTPError msg code w) = (case rs_Status w of None \<Rightarrow> Some code | Some s \<Rightarrow> Some s)"
  "rs_Header (HTTPError msg code w) =
     (rs_Header w)(''Content-Length'' := None, ''Content-Type'' \<mapsto> ''text/plain; charset=utf-8'',
        ''X-Content-Type-Options'' \<mapsto> ''nosniff'')"
  "rs_Body (HTTPError msg code w) =
     rs_Body w @ (if rs_discards w then [] else received (rs_room w) (msg @ newline))"
proof -
  let ?w1 = "SetHeader ''X-Content-Type-Options'' ''nosniff''
      (SetHeader ''Content-Type'' ''text/plain; charset=utf-8'' (DelHeader ''Content-Length'' w))"
  obtain n f w2 where wb: "WriteBody (msg @ newline) (WriteHeader code ?w1) = (n, f, w2)"
    by (cases "WriteBody (msg @ newline) (WriteHeader code ?w1)")
  then have e: "HTTPError msg code w = w2"
    by (simp add: HTTPError_def Let_def)
  note s = WriteBody_spec [OF wb]
  show "rs_Status (HTTPError msg code w) = (case rs_Status w of None \<Rightarrow> Some code | Some s \<Rightarrow> Some s)"
    by (simp add: e s header_ops)
  show "rs_Header (HTTPError msg code w) =
     (rs_Header w)(''Content-Length'' := None, ''Content-Type'' \<mapsto> ''text/plain; charset=utf-8'',
        ''X-Content-Type-Options'' \<mapsto> ''nosniff'')"
    by (simp add: e s header_ops)
  show "rs_Body (HTTPError msg code w) =
     rs_Body w @ (if rs_discards w then [] else received (rs_room w) (msg @ newline))"
    by (simp add: e s header_ops)
qed

lemma CopyBuffer_spec:
  assumes "CopyBuffer rc w = (n, err, w')"
  shows "rs_Header w' = rs_Header w" "rs_Status w' = rs_Status w"
    "rs_Body w' = rs_Body w @ (if rs_discards w then [] else received (rs_room w) (rd_data rc))"
    "n = (if rs_discards w then length (rd_data rc) else length (received (rs_room w) (rd_data rc)))"
proof -
  obtain m f w2 where wb: "WriteBody (rd_data rc) w = (m, f, w2)"
    by (cases "WriteBody (rd_data rc) w")
  with assms have "n = m" "w' = w2" by (auto simp: CopyBuffer_def)
  with WriteBody_spec [OF wb] show "rs_Header w' = rs_Header w" "rs_Status w' = rs_Status w"
    "rs_Body w' = rs_Body w @ (if rs_discards w then [] else received (rs_room w) (rd_data rc))"
    "n = (if rs_discards w then length (rd_data rc) else length (received (rs_room w) (rd_data rc)))"
    by simp_all
qed

lemma newResponse_simps [handler_defs]:
  "rs_Header (newResponse r room) = Map.empty" "rs_Status (newResponse r room) = None"
  "rs_Body (newResponse r room) = []" "rs_discards (newResponse r room) = (rq_Method r = MethodHead)"
  "rs_room (newResponse r room) = room"
  by (simp_all add: newResponse_def)

end
