(* ===== verification/GoList.thy ===== *)
theory GoList
  imports Prelude
begin

section \<open>container/list and the index map over it\<close>

text \<open>
  Both caches of the gateway pair a doubly linked list of Go's \<^verbatim>\<open>container/list\<close> with a map from
  keys to list elements. The map holds element \<^emph>\<open>pointers\<close>: the same element is reached from the
  list and from the map, moved, mutated in place and removed through either. The model keeps the
  pointers: an element has an identity (a number never reused), the list is the ring of
  (identity, value) pairs from front to back, and the index maps a key to an identity. That the
  two stay in step is the invariant \<open>indexed\<close>, and the lemmas collected in \<open>golist\<close> say what
  each operation does to the ring under it.
\<close>

record 'a golist =
  next_id :: nat
  ring :: "(nat \<times> 'a) list"

definition list_New :: "'a golist" where
  "list_New = \<lparr>next_id = 0, ring = []\<rparr>"

definition Len :: "'a golist \<Rightarrow> nat" where
  "Len l = length (ring l)"

definition Back :: "'a golist \<Rightarrow> nat option" where
  "Back l = (if ring l = [] then None else Some (fst (last (ring l))))"

text \<open>Reading \<^verbatim>\<open>el.Value\<close>; \<open>None\<close> for an element that is not on the list.\<close>

definition Value :: "'a golist \<Rightarrow> nat \<Rightarrow> 'a option" where
  "Value l e = map_of (ring l) e"

definition PushFront :: "'a \<Rightarrow> 'a golist \<Rightarrow> nat \<times> 'a golist" where
  "PushFront v l = (next_id l, \<lparr>next_id = Suc (next_id l), ring = (next_id l, v) # ring l\<rparr>)"

definition Remove :: "nat \<Rightarrow> 'a golist \<Rightarrow> 'a golist" where
  "Remove e l = l\<lparr>ring := filter (\<lambda>p. fst p \<noteq> e) (ring l)\<rparr>"

definition MoveToFront :: "nat \<Rightarrow> 'a golist \<Rightarrow> 'a golist" where
  "MoveToFront e l =
     (case Value l e of
        None \<Rightarrow> l
      | Some v \<Rightarrow> l\<lparr>ring := (e, v) # filter (\<lambda>p. fst p \<noteq> e) (ring l)\<rparr>)"

text \<open>Writing through the pointer an element holds.\<close>

definition SetValue :: "nat \<Rightarrow> 'a \<Rightarrow> 'a golist \<Rightarrow> 'a golist" where
  "SetValue e v l = l\<lparr>ring := map (\<lambda>p. if fst p = e then (e, v) else p) (ring l)\<rparr>"

definition entries :: "'a golist \<Rightarrow> 'a list" where
  "entries l = map snd (ring l)"

subsection \<open>List and index in step\<close>

definition wf_list :: "'a golist \<Rightarrow> bool" where
  "wf_list l \<longleftrightarrow> distinct (map fst (ring l)) \<and> (\<forall>p \<in> set (ring l). fst p < next_id l)"

definition indexed :: "('a \<Rightarrow> 'k) \<Rightarrow> 'a golist \<Rightarrow> ('k \<rightharpoonup> nat) \<Rightarrow> bool" where
  "indexed key l idx \<longleftrightarrow>
     wf_list l \<and> distinct (map key (entries l)) \<and>
     (\<forall>k e. idx k = Some e \<longleftrightarrow> (\<exists>v. (e, v) \<in> set (ring l) \<and> key v = k))"

lemma wf_list_ids:
  "wf_list l \<longleftrightarrow> distinct (map fst (ring l)) \<and> (\<forall>i \<in> set (map fst (ring l)). i < next_id l)"
  by (simp add: wf_list_def)

lemma ring_keys:
  "(\<exists>v. (e, v) \<in> set R \<and> key v = k) \<longleftrightarrow> (e, k) \<in> set (map (\<lambda>p. (fst p, key (snd p))) R)"
  by force

text \<open>What a cache hit finds, in terms of the entries alone.\<close>

definition entry_for :: "('a \<Rightarrow> 'k) \<Rightarrow> 'k \<Rightarrow> 'a list \<Rightarrow> 'a option" where
  "entry_for key k xs = find (\<lambda>v. key v = k) xs"

definition others :: "('a \<Rightarrow> 'k) \<Rightarrow> 'k \<Rightarrow> 'a list \<Rightarrow> 'a list" where
  "others key k xs = filter (\<lambda>v. key v \<noteq> k) xs"

lemma length_entries: "length (entries l) = Len l"
  by (simp add: entries_def Len_def)

lemma entry_for_Some: "entry_for key k xs = Some v \<Longrightarrow> v \<in> set xs \<and> key v = k"
  by (auto simp: entry_for_def find_Some_iff)

lemma entry_for_None: "entry_for key k xs = None \<longleftrightarrow> k \<notin> key ` set xs"
  by (auto simp: entry_for_def find_None_iff)

lemma entry_for_unique:
  "distinct (map key xs) \<Longrightarrow> v \<in> set xs \<Longrightarrow> entry_for key (key v) xs = Some v"
  by (induction xs) (auto simp: entry_for_def)

lemma others_absent: "k \<notin> key ` set xs \<Longrightarrow> others key k xs = xs"
  by (auto simp: others_def filter_id_conv)

lemma set_others: "set (others key k xs) = {v \<in> set xs. key v \<noteq> k}"
  by (auto simp: others_def)

lemma distinct_others: "distinct (map key xs) \<Longrightarrow> distinct (map key (others key k xs))"
  by (induction xs) (auto simp: others_def)

lemma sum_others:
  fixes w :: "'a \<Rightarrow> int"
  shows "distinct (map key xs) \<Longrightarrow> entry_for key k xs = Some v \<Longrightarrow>
     sum_list (map w (others key k xs)) = sum_list (map w xs) - w v"
proof (induction xs)
  case (Cons x xs)
  show ?case
  proof (cases "key x = k")
    case True
    with Cons.prems have "k \<notin> key ` set xs" by auto
    with True Cons.prems show ?thesis
      using others_absent [of k key xs] by (auto simp: others_def entry_for_def)
  next
    case False
    with Cons show ?thesis by (simp add: others_def entry_for_def)
  qed
qed (simp add: entry_for_def)

lemma length_others:
  "distinct (map key xs) \<Longrightarrow> entry_for key k xs = Some v \<Longrightarrow> Suc (length (others key k xs)) = length xs"
proof (induction xs)
  case (Cons x xs)
  then show ?case
    using others_absent [of k key xs] by (auto simp: others_def entry_for_def)
qed (simp add: entry_for_def)

lemma entry_for_butlast:
  assumes "distinct (map key xs)" "entry_for key k (butlast xs) = Some v"
  shows "entry_for key k xs = Some v"
proof -
  from assms(2) have "v \<in> set xs" "key v = k"
    by (auto dest!: entry_for_Some in_set_butlastD)
  with entry_for_unique [OF assms(1)] show ?thesis by blast
qed

subsection \<open>The operations under the invariant\<close>

lemma indexed_new [golist]: "indexed key list_New Map.empty" "entries list_New = []"
  by (auto simp: indexed_def list_New_def wf_list_def entries_def)

lemma indexed_None:
  assumes "indexed key l idx"
  shows "idx k = None \<longleftrightarrow> entry_for key k (entries l) = None"
proof -
  have "idx k = None \<longleftrightarrow> (\<forall>e v. (e, v) \<in> set (ring l) \<longrightarrow> key v \<noteq> k)"
    using assms unfolding indexed_def by (metis not_Some_eq)
  also have "\<dots> \<longleftrightarrow> k \<notin> key ` set (entries l)"
    by (force simp: entries_def)
  finally show ?thesis by (simp add: entry_for_None)
qed

lemma indexed_Some:
  assumes "indexed key l idx" "idx k = Some e"
  shows "\<exists>v. Value l e = Some v \<and> key v = k \<and> entry_for key k (entries l) = Some v"
proof -
  from assms obtain v where v: "(e, v) \<in> set (ring l)" "key v = k"
    by (auto simp: indexed_def)
  then have "Value l e = Some v"
    using assms by (auto simp: indexed_def wf_list_def Value_def intro: map_of_is_SomeI)
  moreover have "v \<in> set (entries l)"
    using v by (force simp: entries_def)
  ultimately show ?thesis
    using assms v entry_for_unique by (fastforce simp: indexed_def)
qed

text \<open>An element is one ring position: selecting by identity is selecting by key.\<close>

lemma indexed_same_element:
  assumes "indexed key l idx" "idx k = Some e" "p \<in> set (ring l)"
  shows "fst p = e \<longleftrightarrow> key (snd p) = k"
proof -
  from assms obtain v where v: "(e, v) \<in> set (ring l)" "key v = k"
    by (auto simp: indexed_def)
  have d1: "distinct (map fst (ring l))" and d2: "distinct (map (key \<circ> snd) (ring l))"
    using assms(1) by (auto simp: indexed_def wf_list_def entries_def comp_def)
  show ?thesis
  proof
    assume "fst p = e"
    with assms(3) v(1) d1 have "p = (e, v)"
      by (metis fst_conv distinct_map inj_onD)
    with v show "key (snd p) = k" by simp
  next
    assume "key (snd p) = k"
    with assms(3) v d2 have "p = (e, v)"
      by (metis comp_apply snd_conv distinct_map inj_onD)
    then show "fst p = e" by simp
  qed
qed

lemma filter_ring_others:
  assumes "indexed key l idx" "idx k = Some e"
  shows "map snd (filter (\<lambda>p. fst p \<noteq> e) (ring l)) = others key k (entries l)"
proof -
  have "filter (\<lambda>p. fst p \<noteq> e) (ring l) = filter (\<lambda>p. key (snd p) \<noteq> k) (ring l)"
    using indexed_same_element [OF assms] by (intro filter_cong) auto
  then show ?thesis
    by (simp add: others_def entries_def filter_map comp_def)
qed

lemma indexed_PushFront [golist]:
  assumes ix: "indexed key l idx" and fresh: "idx (key v) = None"
    and push: "PushFront v l = (e, l')"
  shows "indexed key l' (idx(key v \<mapsto> e))" "entries l' = v # entries l"
proof -
  have l': "ring l' = (e, v) # ring l" "next_id l' = Suc e" "e = next_id l"
    using push by (auto simp: PushFront_def)
  show ent: "entries l' = v # entries l"
    by (simp add: entries_def l')
  have absent: "key v \<notin> key ` set (entries l)"
    using indexed_None [OF ix] fresh by (simp add: entry_for_None)
  have "wf_list l'"
    using ix l' by (fastforce simp: indexed_def wf_list_def)
  moreover have "(idx(key v \<mapsto> e)) k = Some e' \<longleftrightarrow> (\<exists>u. (e', u) \<in> set (ring l') \<and> key u = k)" for k e'
  proof (cases "k = key v")
    case True
    then have "key u \<noteq> k" if "(e', u) \<in> set (ring l)" for u
    proof -
      have "u \<in> set (entries l)"
        using that by (force simp: entries_def)
      with absent True show ?thesis by (metis imageI)
    qed
    with True show ?thesis by (auto simp: l')
  next
    case False
    with ix show ?thesis by (auto simp: l' indexed_def)
  qed
  ultimately show "indexed key l' (idx(key v \<mapsto> e))"
    using ix ent absent by (simp add: indexed_def)
qed

lemma indexed_MoveToFront [golist]:
  assumes ix: "indexed key l idx" and hit: "idx k = Some e" and v: "entry_for key k (entries l) = Some v"
  shows "indexed key (MoveToFront e l) idx" "entries (MoveToFront e l) = v # others key k (entries l)"
proof -
  have Val: "Value l e = Some v" and k: "key v = k"
    using indexed_Some [OF ix hit] v by auto
  then have ring': "ring (MoveToFront e l) = (e, v) # filter (\<lambda>p. fst p \<noteq> e) (ring l)"
    and id': "next_id (MoveToFront e l) = next_id l"
    by (simp_all add: MoveToFront_def)
  show ent: "entries (MoveToFront e l) = v # others key k (entries l)"
    using filter_ring_others [OF ix hit] by (simp add: entries_def ring')
  have mem: "(e, v) \<in> set (ring l)"
    using Val by (auto simp: Value_def dest: map_of_SomeD)
  then have set': "set (ring (MoveToFront e l)) = set (ring l)"
    using ix by (auto simp: ring' indexed_def wf_list_def dest: eq_key_imp_eq_value)
  have "wf_list (MoveToFront e l)"
    using ix mem unfolding wf_list_def set' id'
    by (auto simp: ring' indexed_def wf_list_def distinct_fst_filter)
  moreover have "distinct (map key (entries (MoveToFront e l)))"
    using ix k by (auto simp: ent indexed_def distinct_others set_others)
  ultimately show "indexed key (MoveToFront e l) idx"
    using ix by (simp add: indexed_def set')
qed

lemma indexed_SetValue [golist]:
  assumes ix: "indexed key l idx" and hit: "idx k = Some e" and k: "key v' = k"
  shows "indexed key (SetValue e v' l) idx"
    "entries (SetValue e v' l) = map (\<lambda>u. if key u = k then v' else u) (entries l)"
proof -
  have ring': "ring (SetValue e v' l) = map (\<lambda>p. if key (snd p) = k then (fst p, v') else p) (ring l)"
    using indexed_same_element [OF ix hit] by (auto simp: SetValue_def)
  show ent: "entries (SetValue e v' l) = map (\<lambda>u. if key u = k then v' else u) (entries l)"
    by (simp add: entries_def ring')
  have keys: "map key (entries (SetValue e v' l)) = map key (entries l)"
    using k by (auto simp: ent)
  have ids: "map fst (ring (SetValue e v' l)) = map fst (ring l)"
    by (auto simp: ring')
  moreover have "next_id (SetValue e v' l) = next_id l"
    by (simp add: SetValue_def)
  ultimately have "wf_list (SetValue e v' l)"
    using ix unfolding indexed_def wf_list_ids by metis
  moreover have "map (\<lambda>p. (fst p, key (snd p))) (ring (SetValue e v' l)) =
      map (\<lambda>p. (fst p, key (snd p))) (ring l)"
    using k by (simp add: ring')
  then have "(\<exists>v. (e', v) \<in> set (ring (SetValue e v' l)) \<and> key v = k') \<longleftrightarrow>
      (\<exists>v. (e', v) \<in> set (ring l) \<and> key v = k')" for e' k'
    unfolding ring_keys by (rule arg_cong)
  ultimately show "indexed key (SetValue e v' l) idx"
    using ix keys by (simp add: indexed_def)
qed

text \<open>The hit path of both caches: move the element to the front, then read its value.\<close>

lemma indexed_hit:
  assumes ix: "indexed key l idx" and hit: "idx k = Some el"
  obtains e where "entry_for key k (entries l) = Some e" "key e = k"
    "indexed key (MoveToFront el l) idx" "entries (MoveToFront el l) = e # others key k (entries l)"
    "Value (MoveToFront el l) el = Some e"
proof -
  from indexed_Some [OF ix hit] obtain e where e: "entry_for key k (entries l) = Some e" "key e = k"
    by auto
  note m = indexed_MoveToFront [OF ix hit e(1)]
  have "Value (MoveToFront el l) el = Some e"
    using indexed_Some [OF m(1) hit] m(2) e(2) by (auto simp: entry_for_def)
  with that e m show ?thesis by blast
qed

text \<open>The miss path: the new element in front.\<close>

lemma indexed_miss:
  assumes ix: "indexed key l idx" and fresh: "idx (key v) = None"
    and push: "PushFront v l = (el, l')"
  shows "indexed key l' (idx(key v \<mapsto> el))" "entries l' = v # others key (key v) (entries l)"
  using indexed_PushFront [OF ix fresh push] indexed_None [OF ix, of "key v"] fresh
    others_absent [of "key v" key "entries l"]
  by (auto simp: entry_for_None)

text \<open>The refresh path: the element moved to the front, then overwritten in place.\<close>

lemma indexed_refresh:
  assumes ix: "indexed key l idx" and hit: "idx (key v) = Some el"
  shows "indexed key (SetValue el v (MoveToFront el l)) idx"
    "entries (SetValue el v (MoveToFront el l)) = v # others key (key v) (entries l)"
proof -
  obtain e where e: "key e = key v" "indexed key (MoveToFront el l) idx"
      "entries (MoveToFront el l) = e # others key (key v) (entries l)"
    by (rule indexed_hit [OF ix hit])
  have "map (\<lambda>u. if key u = key v then v else u) (others key (key v) xs) = others key (key v) xs" for xs
    by (induction xs) (auto simp: others_def)
  with e indexed_SetValue [OF e(2) hit, of v] show
    "indexed key (SetValue el v (MoveToFront el l)) idx"
    "entries (SetValue el v (MoveToFront el l)) = v # others key (key v) (entries l)"
    by auto
qed

lemma Back_Some [golist]:
  assumes ix: "indexed key l idx" and bk: "Back l = Some e"
  shows "Value l e = Some (last (entries l))" "entries l \<noteq> []" "idx (key (last (entries l))) = Some e"
proof -
  from bk have ne: "ring l \<noteq> []" and e: "e = fst (last (ring l))"
    by (auto simp: Back_def split: if_splits)
  then have mem: "(e, last (entries l)) \<in> set (ring l)"
    by (simp add: entries_def last_map)
  with ix show "Value l e = Some (last (entries l))"
    by (auto simp: Value_def indexed_def wf_list_def intro: map_of_is_SomeI)
  show "entries l \<noteq> []" using ne by (simp add: entries_def)
  show "idx (key (last (entries l))) = Some e"
    using ix mem by (auto simp: indexed_def)
qed

lemma Back_None [golist]: "Back l = None \<longleftrightarrow> entries l = []"
  by (simp add: Back_def entries_def)

lemma others_last:
  assumes "distinct (map key xs)" "xs \<noteq> []"
  shows "others key (key (last xs)) xs = butlast xs"
proof -
  obtain ys y where xs: "xs = ys @ [y]" using assms(2) by (metis append_butlast_last_id)
  with assms(1) have "key y \<notin> key ` set ys" by auto
  then show ?thesis using others_absent by (simp add: xs others_def)
qed

lemma indexed_Remove_Back [golist]:
  assumes ix: "indexed key l idx" and bk: "Back l = Some e"
  shows "indexed key (Remove e l) (idx(key (last (entries l)) := None))"
    "entries (Remove e l) = butlast (entries l)"
proof -
  let ?k = "key (last (entries l))"
  note b = Back_Some [OF ix bk]
  have d: "distinct (map key (entries l))" using ix by (simp add: indexed_def)
  have ring': "ring (Remove e l) = filter (\<lambda>p. fst p \<noteq> e) (ring l)"
    by (simp add: Remove_def)
  show ent: "entries (Remove e l) = butlast (entries l)"
    using filter_ring_others [OF ix b(3)] others_last [OF d b(2)]
    by (simp add: entries_def ring')
  have "wf_list (Remove e l)"
    using ix by (auto simp: indexed_def wf_list_def Remove_def distinct_fst_filter)
  moreover have "distinct (map key (entries (Remove e l)))"
    using d by (simp add: ent map_butlast distinct_butlast)
  moreover have "(idx(?k := None)) k = Some e' \<longleftrightarrow>
      (\<exists>v. (e', v) \<in> set (ring (Remove e l)) \<and> key v = k)" for k e'
    using ix indexed_same_element [OF ix b(3)] by (auto simp: ring' indexed_def)
  ultimately show "indexed key (Remove e l) (idx(?k := None))"
    by (simp add: indexed_def)
qed

lemma Back_Value: "Back l = Some e \<Longrightarrow> Value l e \<noteq> None"
proof -
  assume "Back l = Some e"
  then have "last (ring l) \<in> set (ring l)" "fst (last (ring l)) = e"
    by (auto simp: Back_def split: if_splits)
  then show ?thesis by (auto simp: Value_def map_of_eq_None_iff)
qed

lemma Len_Remove_Back: "Back l = Some e \<Longrightarrow> Len (Remove e l) < Len l"
proof -
  assume "Back l = Some e"
  then have "last (ring l) \<in> set (ring l)" "fst (last (ring l)) = e"
    by (auto simp: Back_def split: if_splits)
  then show ?thesis
    by (auto simp: Len_def Remove_def intro!: length_filter_less)
qed

end
