(* ===== verification/LRU.thy ===== *)
theory LRU
  imports GoList
begin

section \<open>Least-recently-used caches: specification and contract\<close>

text \<open>
  The two caches of the gateway (\<^verbatim>\<open>server/cache.go\<close>, \<^verbatim>\<open>blobstore/cache.go\<close>) promise the same thing:
  a bounded memory of values by key that forgets the least recently used. This theory states that
  promise once. The specification is a list of entries, most recent first; a use moves an entry to
  the front, an insertion puts it there, and \<open>shrink\<close> drops entries from the back while the list
  exceeds its budget. The contract \<open>lru_cache\<close> is what the callers rely on, and the theorems about
  a read-through cache are proved from it alone.
\<close>

subsection \<open>The specification: entries, most recent first\<close>

definition lru_touch :: "('a \<Rightarrow> 'k) \<Rightarrow> 'k \<Rightarrow> 'a list \<Rightarrow> 'a list" where
  "lru_touch key k xs = (case entry_for key k xs of None \<Rightarrow> xs | Some e \<Rightarrow> e # others key k xs)"

definition lru_put :: "('a \<Rightarrow> 'k) \<Rightarrow> 'a \<Rightarrow> 'a list \<Rightarrow> 'a list" where
  "lru_put key e xs = e # others key (key e) xs"

text \<open>Drop from the back while over budget, but never below \<open>n\<close> entries.\<close>

fun shrink :: "nat \<Rightarrow> ('a list \<Rightarrow> bool) \<Rightarrow> 'a list \<Rightarrow> 'a list" where
  "shrink n over [] = []"
| "shrink n over (x # xs) =
     (if n < length (x # xs) \<and> over (x # xs) then shrink n over (butlast (x # xs)) else x # xs)"

lemmas [simp del] = shrink.simps(2)

lemma shrink_step:
  "shrink n over xs = (if n < length xs \<and> over xs then shrink n over (butlast xs) else xs)"
  by (cases xs) (auto simp: shrink.simps(2))

lemma shrink_prefix: "prefix (shrink n over xs) xs"
proof (induction n over xs rule: shrink.induct)
  case (2 n over x xs)
  then show ?case
    by (subst shrink_step) (auto intro: prefix_order.trans [OF _ prefixeq_butlast])
qed simp

lemma shrink_bounded: "length (shrink n over xs) \<le> n \<or> \<not> over (shrink n over xs)"
proof (induction n over xs rule: shrink.induct)
  case (2 n over x xs)
  then show ?case by (subst (1 2) shrink_step) auto
qed simp

lemma shrink_keeps: "min n (length xs) \<le> length (shrink n over xs)"
proof (induction n over xs rule: shrink.induct)
  case (2 n over x xs)
  then show ?case by (subst shrink_step) auto
qed simp

lemma shrink_newest:
  assumes "0 < n \<or> \<not> over [x]"
  shows "\<exists>ys. shrink n over (x # xs) = x # ys"
proof -
  have "shrink n over (x # xs) \<noteq> []"
    using assms
  proof (induction xs rule: rev_induct)
    case Nil
    then show ?case by (subst shrink_step) auto
  next
    case (snoc y ys)
    then show ?case by (subst shrink_step) auto
  qed
  with shrink_prefix [of n over "x # xs"] show ?thesis
    by (cases "shrink n over (x # xs)") auto
qed

text \<open>Nothing is dropped needlessly: one entry more would have been over budget.\<close>

lemma shrink_maximal:
  "prefix ys xs \<Longrightarrow> length (shrink n over xs) < length ys \<Longrightarrow> over ys"
proof (induction n over xs rule: shrink.induct)
  case (2 n over x xs)
  show ?case
  proof (cases "n < length (x # xs) \<and> over (x # xs)")
    case True
    then have sh: "shrink n over (x # xs) = shrink n over (butlast (x # xs))"
      by (subst shrink_step) auto
    show ?thesis
    proof (cases "ys = x # xs")
      case False
      with 2(2) have "prefix ys (butlast (x # xs))"
        by (metis append_butlast_last_id list.distinct(1) prefix_snoc)
      with 2(1) [OF True] 2(3) sh show ?thesis by simp
    qed (use True in simp)
  next
    case False
    then have "shrink n over (x # xs) = x # xs" by (subst shrink_step) auto
    with 2(2,3) show ?thesis by (auto dest: prefix_length_le)
  qed
qed simp

subsection \<open>What is cached\<close>

definition cached :: "('a \<Rightarrow> 'k) \<Rightarrow> ('a \<Rightarrow> 'v) \<Rightarrow> 'a list \<Rightarrow> 'k \<Rightarrow> 'v option" where
  "cached key val xs k = map_option val (entry_for key k xs)"

lemma cached_Cons: "cached key val (x # xs) = (cached key val xs)(key x \<mapsto> val x)"
  by (auto simp: cached_def entry_for_def)

lemma cached_others: "cached key val (others key k xs) = (cached key val xs)(k := None)"
  by (induction xs) (auto simp: cached_def entry_for_def others_def fun_eq_iff)

lemma cached_touch: "distinct (map key xs) \<Longrightarrow> cached key val (lru_touch key k xs) = cached key val xs"
proof (cases "entry_for key k xs")
  case (Some e)
  then have "cached key val xs k = Some (val e)" "key e = k"
    by (auto simp: cached_def dest: entry_for_Some)
  with Some show ?thesis
    by (auto simp: lru_touch_def cached_Cons cached_others)
qed (simp add: lru_touch_def)

lemma cached_put: "cached key val (lru_put key e xs) = (cached key val xs)(key e \<mapsto> val e)"
  by (simp add: lru_put_def cached_Cons cached_others)

lemma cached_prefix:
  assumes "prefix ys xs"
  shows "cached key val ys \<subseteq>\<^sub>m cached key val xs"
proof -
  obtain zs where xs: "xs = ys @ zs" using assms by (auto simp: prefix_def)
  have "cached key val (ys @ zs) k = Some v" if "cached key val ys k = Some v" for k v
    using that by (induction ys) (auto simp: cached_def entry_for_def split: if_splits)
  then show ?thesis by (fastforce simp: map_le_def xs)
qed

lemma cached_shrink:
  "cached key val (shrink n over xs) \<subseteq>\<^sub>m cached key val xs"
  by (intro cached_prefix shrink_prefix)

lemma cached_after_put:
  "cached key val (shrink n over (lru_put key e xs)) q = Some w \<Longrightarrow>
     cached key val xs q = Some w \<or> q = key e \<and> w = val e"
  using map_leD [OF cached_shrink, of key val n over "lru_put key e xs" q w]
  by (auto simp: cached_put split: if_splits)

lemma distinct_touch: "distinct (map key xs) \<Longrightarrow> distinct (map key (lru_touch key k xs))"
  by (auto simp: lru_touch_def distinct_others set_others split: option.split dest: entry_for_Some)

lemma distinct_put: "distinct (map key xs) \<Longrightarrow> distinct (map key (lru_put key e xs))"
  by (auto simp: lru_put_def distinct_others set_others)

lemma distinct_shrink: "distinct (map key xs) \<Longrightarrow> distinct (map key (shrink n over xs))"
  by (metis shrink_prefix prefix_def distinct_append map_append)

subsection \<open>The contract\<close>

text \<open>What a caller may rely on. \<open>fits c v\<close> says the cache will retain a value of this size. \<open>add\<close>
  may fail to return (\<open>None\<close>) for a broken cache; under the invariant it returns.\<close>

locale lru_cache =
  fixes invar :: "'c \<Rightarrow> bool"
    and lookup :: "'c \<Rightarrow> 'k \<Rightarrow> 'v option"
    and get :: "'k \<Rightarrow> 'c \<Rightarrow> 'v option \<times> 'c"
    and add :: "'k \<Rightarrow> 'v \<Rightarrow> 'c \<Rightarrow> 'c option"
    and fits :: "'c \<Rightarrow> 'v \<Rightarrow> bool"
  assumes get_value: "invar c \<Longrightarrow> fst (get k c) = lookup c k"
    and get_invar: "invar c \<Longrightarrow> invar (snd (get k c))"
    and get_lookup: "invar c \<Longrightarrow> lookup (snd (get k c)) = lookup c"
    and add_returns: "invar c \<Longrightarrow> \<exists>c'. add k v c = Some c' \<and> invar c' \<and>
      (\<forall>q w. lookup c' q = Some w \<longrightarrow> lookup c q = Some w \<or> q = k \<and> w = v) \<and>
      (fits c v \<longrightarrow> lookup c' k = Some v)"
begin

text \<open>Every cached value is the true one.\<close>

definition coherent :: "('k \<Rightarrow> 'v option) \<Rightarrow> 'c \<Rightarrow> bool" where
  "coherent truth c \<longleftrightarrow> invar c \<and> lookup c \<subseteq>\<^sub>m truth"

lemma coherentI: "invar c \<Longrightarrow> lookup c \<subseteq>\<^sub>m truth \<Longrightarrow> coherent truth c"
  by (simp add: coherent_def)

lemma coherent_get:
  "coherent truth c \<Longrightarrow> get k c = (r, c') \<Longrightarrow> coherent truth c' \<and> lookup c' = lookup c \<and> r = lookup c k"
  using get_value [of c k] get_invar [of c k] get_lookup [of c k] by (auto simp: coherent_def)

lemma coherent_hit: "coherent truth c \<Longrightarrow> get k c = (Some v, c') \<Longrightarrow> truth k = Some v"
  using coherent_get [of truth c k "Some v" c'] by (auto simp: coherent_def map_le_def dom_def) metis

lemma coherent_add:
  assumes "coherent truth c" "truth k = Some v"
  obtains c' where "add k v c = Some c'" "coherent truth c'" "fits c v \<Longrightarrow> lookup c' k = Some v"
proof -
  from assms(1) add_returns [of c k v] obtain c' where
    c': "add k v c = Some c'" "invar c'"
      "\<forall>q w. lookup c' q = Some w \<longrightarrow> lookup c q = Some w \<or> q = k \<and> w = v" "fits c v \<longrightarrow> lookup c' k = Some v"
    by (auto simp: coherent_def)
  have "truth q = Some w" if "lookup c' q = Some w" for q w
    using that c'(3) assms map_leD [of "lookup c" truth q w] by (auto simp: coherent_def)
  then have "coherent truth c'"
    using c'(2) by (simp add: coherent_def map_leI)
  with c' that show ?thesis by blast
qed

text \<open>Reading through the cache: the caller's load on a miss, the value kept for the next caller.\<close>

definition read_through :: "('k \<Rightarrow> 'v option) \<Rightarrow> 'k \<Rightarrow> 'c \<Rightarrow> ('v option \<times> 'c) option" where
  "read_through load k c =
     (case get k c of
        (Some v, c') \<Rightarrow> Some (Some v, c')
      | (None, c') \<Rightarrow>
          (case load k of
             None \<Rightarrow> Some (None, c')
           | Some v \<Rightarrow> map_option (Pair (Some v)) (add k v c')))"

theorem read_through_transparent:
  assumes "coherent load c"
  shows "\<exists>c'. read_through load k c = Some (load k, c') \<and> coherent load c'"
proof (cases "get k c")
  case (Pair r c1)
  note g = coherent_get [OF assms Pair]
  show ?thesis
  proof (cases r)
    case (Some v)
    with coherent_hit [OF assms] Pair have "load k = Some v" by blast
    with Pair Some g show ?thesis by (simp add: read_through_def)
  next
    case None
    show ?thesis
    proof (cases "load k")
      case (Some v)
      with g obtain c' where "add k v c1 = Some c'" "coherent load c'"
        by (metis coherent_add)
      with None Some Pair show ?thesis by (simp add: read_through_def)
    qed (use None Pair g in \<open>simp add: read_through_def\<close>)
  qed
qed

text \<open>Any sequence of reads answers as the loads would, with no cache at all.\<close>

fun read_all :: "('k \<Rightarrow> 'v option) \<Rightarrow> 'k list \<Rightarrow> 'c \<Rightarrow> ('v option list \<times> 'c) option" where
  "read_all load [] c = Some ([], c)"
| "read_all load (k # ks) c =
     (case read_through load k c of
        None \<Rightarrow> None
      | Some (v, c') \<Rightarrow> map_option (\<lambda>(vs, c''). (v # vs, c'')) (read_all load ks c'))"

theorem read_all_transparent:
  "coherent load c \<Longrightarrow> \<exists>c'. read_all load ks c = Some (map load ks, c') \<and> coherent load c'"
proof (induction ks arbitrary: c)
  case (Cons k ks)
  then obtain c1 where "read_through load k c = Some (load k, c1)" "coherent load c1"
    using read_through_transparent by blast
  with Cons.IH [of c1] show ?case by auto
qed simp

end

end
