(* ===== verification/ManifestCache.thy ===== *)
theory ManifestCache
  imports LRU ReleaseManifest
begin

section \<open>internal/server: the manifest cache\<close>

text \<open>
  \<^verbatim>\<open>server/cache.go\<close> in full. The record follows the struct (the mutex apart: each operation runs
  under it from first to last, so an operation is one atomic step). Sizes are Go \<^verbatim>\<open>int64\<close>; their
  sum is bounded by the memory the entries occupy, so they are \<^typ>\<open>int\<close> here.
\<close>

record cacheEntry =
  ce_key :: string
  ce_m :: Manifest
  ce_size :: int

record manifestCache =
  mc_cap :: int
  mc_bytesCap :: int
  mc_bytes :: int
  mc_ll :: "cacheEntry golist"
  mc_idx :: "string \<rightharpoonup> nat"

definition newManifestCache :: "int \<Rightarrow> int \<Rightarrow> manifestCache" where
  "newManifestCache capacity bytesCap =
     \<lparr>mc_cap = (if capacity < 1 then 1 else capacity),
      mc_bytesCap = (if bytesCap < 0 then 0 else bytesCap),
      mc_bytes = 0, mc_ll = list_New, mc_idx = Map.empty\<rparr>"

definition mc_get :: "string \<Rightarrow> manifestCache \<Rightarrow> Manifest option \<times> manifestCache" where
  "mc_get k c =
     (case mc_idx c k of
        Some el \<Rightarrow> (let c' = c\<lparr>mc_ll := MoveToFront el (mc_ll c)\<rparr>
                    in (map_option ce_m (Value (mc_ll c') el), c'))
      | None \<Rightarrow> (None, c))"

text \<open>\<^verbatim>\<open>evict\<close>. An element that \<^verbatim>\<open>Back\<close> returns is on the list and so has a value.\<close>

definition mc_evict :: "manifestCache \<Rightarrow> manifestCache" where
  "mc_evict c =
     (case Back (mc_ll c) of
        None \<Rightarrow> c
      | Some el \<Rightarrow>
          (case Value (mc_ll c) el of
             None \<Rightarrow> c
           | Some e \<Rightarrow> c\<lparr>mc_ll := Remove el (mc_ll c), mc_idx := (mc_idx c)(ce_key e := None),
                         mc_bytes := mc_bytes c - ce_size e\<rparr>))"

definition mc_over :: "manifestCache \<Rightarrow> bool" where
  "mc_over c \<longleftrightarrow> mc_cap c < int (Len (mc_ll c)) \<or> 0 < mc_bytesCap c \<and> mc_bytesCap c < mc_bytes c"

lemma evict_shortens:
  assumes "1 < Len (mc_ll c)"
  shows "Len (mc_ll (mc_evict c)) < Len (mc_ll c)"
proof -
  from assms have "ring (mc_ll c) \<noteq> []" by (auto simp: Len_def)
  then obtain el where el: "Back (mc_ll c) = Some el"
    by (simp add: Back_def)
  then show ?thesis
    using Len_Remove_Back [OF el] Back_Value [OF el] by (auto simp: mc_evict_def)
qed

function evictToBound :: "manifestCache \<Rightarrow> manifestCache" where
  "evictToBound c = (if 1 < Len (mc_ll c) \<and> mc_over c then evictToBound (mc_evict c) else c)"
  by auto
termination by (relation "measure (\<lambda>c. Len (mc_ll c))") (auto simp: evict_shortens)

lemmas [simp del] = evictToBound.simps

definition mc_add :: "string \<Rightarrow> Manifest \<Rightarrow> manifestCache \<Rightarrow> manifestCache" where
  "mc_add k m c =
     (let size = ApproxSize m in
      case mc_idx c k of
        Some el \<Rightarrow>
          (let c1 = c\<lparr>mc_ll := MoveToFront el (mc_ll c)\<rparr> in
           case Value (mc_ll c1) el of
             None \<Rightarrow> c1
           | Some e \<Rightarrow>
               evictToBound (c1\<lparr>mc_bytes := mc_bytes c1 + (size - ce_size e),
                               mc_ll := SetValue el (e\<lparr>ce_size := size, ce_m := m\<rparr>) (mc_ll c1)\<rparr>))
      | None \<Rightarrow>
          (let (el, ll') = PushFront \<lparr>ce_key = k, ce_m = m, ce_size = size\<rparr> (mc_ll c)
           in evictToBound (c\<lparr>mc_ll := ll', mc_idx := (mc_idx c)(k \<mapsto> el), mc_bytes := mc_bytes c + size\<rparr>)))"

definition mc_len :: "manifestCache \<Rightarrow> nat" where
  "mc_len c = Len (mc_ll c)"

subsection \<open>Invariant and abstraction\<close>

definition mc_entries :: "manifestCache \<Rightarrow> cacheEntry list" where
  "mc_entries c = entries (mc_ll c)"

text \<open>List, index and byte count in step; held throughout, also between evictions.\<close>

definition mc_wf :: "manifestCache \<Rightarrow> bool" where
  "mc_wf c \<longleftrightarrow> indexed ce_key (mc_ll c) (mc_idx c) \<and>
     mc_bytes c = sum_list (map ce_size (mc_entries c)) \<and>
     list_all (\<lambda>e. ce_size e = ApproxSize (ce_m e)) (mc_entries c) \<and> 1 \<le> mc_cap c \<and> 0 \<le> mc_bytesCap c"

text \<open>The budget, on a list of entries.\<close>

definition over_budget :: "int \<Rightarrow> int \<Rightarrow> cacheEntry list \<Rightarrow> bool" where
  "over_budget cap bytesCap xs \<longleftrightarrow>
     cap < int (length xs) \<or> 0 < bytesCap \<and> bytesCap < sum_list (map ce_size xs)"

definition mc_invar :: "manifestCache \<Rightarrow> bool" where
  "mc_invar c \<longleftrightarrow> mc_wf c \<and> (mc_len c \<le> 1 \<or> \<not> over_budget (mc_cap c) (mc_bytesCap c) (mc_entries c))"

lemma mc_wf_D:
  assumes "mc_wf c"
  shows "indexed ce_key (mc_ll c) (mc_idx c)" "distinct (map ce_key (mc_entries c))"
    "mc_bytes c = sum_list (map ce_size (mc_entries c))"
  using assms by (auto simp: mc_wf_def indexed_def mc_entries_def)

lemma mc_over_budget: "mc_wf c \<Longrightarrow> mc_over c \<longleftrightarrow> over_budget (mc_cap c) (mc_bytesCap c) (mc_entries c)"
  by (simp add: mc_wf_def mc_over_def over_budget_def mc_entries_def length_entries)

lemma mc_evict_spec:
  assumes wf: "mc_wf c"
  shows "mc_wf (mc_evict c) \<and> mc_entries (mc_evict c) = butlast (mc_entries c) \<and>
     mc_cap (mc_evict c) = mc_cap c \<and> mc_bytesCap (mc_evict c) = mc_bytesCap c"
proof (cases "Back (mc_ll c)")
  case None
  then have "mc_entries c = []"
    unfolding mc_entries_def Back_None .
  with None wf show ?thesis by (simp add: mc_evict_def)
next
  case (Some el)
  note ix = mc_wf_D(1) [OF wf]
  note b = Back_Some [OF ix Some] indexed_Remove_Back [OF ix Some]
  have "sum_list (map ce_size (butlast (mc_entries c))) =
      sum_list (map ce_size (mc_entries c)) - ce_size (last (mc_entries c))"
    using b(2) by (cases "mc_entries c" rule: rev_cases) (auto simp: mc_entries_def)
  with wf Some b show ?thesis
    by (auto simp: mc_evict_def mc_wf_def mc_entries_def list_all_iff dest: in_set_butlastD)
qed

lemma evictToBound_spec:
  "mc_wf c \<Longrightarrow> mc_wf (evictToBound c) \<and> mc_cap (evictToBound c) = mc_cap c \<and>
     mc_bytesCap (evictToBound c) = mc_bytesCap c \<and>
     mc_entries (evictToBound c) = shrink 1 (over_budget (mc_cap c) (mc_bytesCap c)) (mc_entries c)"
proof (induction c rule: evictToBound.induct)
  case (1 c)
  let ?over = "over_budget (mc_cap c) (mc_bytesCap c)"
  have guard: "1 < Len (mc_ll c) \<and> mc_over c \<longleftrightarrow> 1 < length (mc_entries c) \<and> ?over (mc_entries c)"
    using 1 mc_over_budget by (simp add: mc_entries_def length_entries)
  show ?case
  proof (cases "1 < Len (mc_ll c) \<and> mc_over c")
    case True
    then have "evictToBound c = evictToBound (mc_evict c)"
      by (subst evictToBound.simps) simp
    moreover have "shrink 1 ?over (mc_entries c) = shrink 1 ?over (butlast (mc_entries c))"
      using True guard by (subst shrink_step) simp
    ultimately show ?thesis
      using 1 True mc_evict_spec [of c] by simp
  next
    case False
    then have "evictToBound c = c"
      by (subst evictToBound.simps) auto
    moreover have "shrink 1 ?over (mc_entries c) = mc_entries c"
      using False guard by (subst shrink_step) auto
    ultimately show ?thesis using 1 by simp
  qed
qed

lemma mc_invar_evictToBound: "mc_wf c \<Longrightarrow> mc_invar (evictToBound c)"
  using evictToBound_spec [of c] shrink_bounded [of 1 "over_budget (mc_cap c) (mc_bytesCap c)" "mc_entries c"]
  unfolding mc_invar_def mc_len_def length_entries [symmetric] mc_entries_def [symmetric] by metis

lemma mc_get_spec:
  assumes wf: "mc_wf c"
  shows "fst (mc_get k c) = cached ce_key ce_m (mc_entries c) k \<and>
     mc_entries (snd (mc_get k c)) = lru_touch ce_key k (mc_entries c) \<and> mc_wf (snd (mc_get k c)) \<and>
     mc_cap (snd (mc_get k c)) = mc_cap c \<and> mc_bytesCap (snd (mc_get k c)) = mc_bytesCap c"
proof (cases "mc_idx c k")
  case None
  then have "entry_for ce_key k (mc_entries c) = None"
    using indexed_None [OF mc_wf_D(1) [OF wf]] by (simp add: mc_entries_def)
  with None wf show ?thesis by (simp add: mc_get_def cached_def lru_touch_def)
next
  case (Some el)
  note ix = mc_wf_D(1) [OF wf]
  obtain e where e: "entry_for ce_key k (mc_entries c) = Some e" "ce_key e = k"
      and m: "indexed ce_key (MoveToFront el (mc_ll c)) (mc_idx c)"
        "entries (MoveToFront el (mc_ll c)) = e # others ce_key k (mc_entries c)"
        "Value (MoveToFront el (mc_ll c)) el = Some e"
    unfolding mc_entries_def by (rule indexed_hit [OF ix Some])
  have sum: "sum_list (map ce_size (others ce_key k (mc_entries c))) + ce_size e = mc_bytes c"
    using sum_others [OF mc_wf_D(2) [OF wf] e(1), of ce_size] mc_wf_D(3) [OF wf] by simp
  have "e \<in> set (mc_entries c)" using e(1) by (auto dest: entry_for_Some)
  with wf Some e m sum show ?thesis
    by (auto simp: mc_get_def Let_def cached_def lru_touch_def mc_wf_def mc_entries_def list_all_iff set_others)
qed


lemma mc_add_spec:
  assumes wf: "mc_wf c"
  shows "mc_invar (mc_add k m c) \<and> mc_cap (mc_add k m c) = mc_cap c \<and>
     mc_bytesCap (mc_add k m c) = mc_bytesCap c \<and>
     mc_entries (mc_add k m c) = shrink 1 (over_budget (mc_cap c) (mc_bytesCap c))
       (lru_put ce_key \<lparr>ce_key = k, ce_m = m, ce_size = ApproxSize m\<rparr> (mc_entries c))"
proof -
  let ?new = "\<lparr>ce_key = k, ce_m = m, ce_size = ApproxSize m\<rparr>"
  have "\<exists>c'. mc_add k m c = evictToBound c' \<and> mc_wf c' \<and> mc_cap c' = mc_cap c \<and>
      mc_bytesCap c' = mc_bytesCap c \<and> mc_entries c' = lru_put ce_key ?new (mc_entries c)"
  proof (cases "mc_idx c k")
    case None
    note ix = mc_wf_D(1) [OF wf]
    obtain el ll' where push: "PushFront ?new (mc_ll c) = (el, ll')"
      by fastforce
    let ?c = "c\<lparr>mc_ll := ll', mc_idx := (mc_idx c)(k \<mapsto> el), mc_bytes := mc_bytes c + ApproxSize m\<rparr>"
    have "mc_add k m c = evictToBound ?c"
      using None push by (simp add: mc_add_def)
    moreover have "indexed ce_key ll' ((mc_idx c)(k \<mapsto> el))" "entries ll' = ?new # others ce_key k (mc_entries c)"
      using indexed_miss [OF ix _ push] None by (simp_all add: mc_entries_def)
    moreover have "others ce_key k (mc_entries c) = mc_entries c"
      using indexed_None [OF ix, of k] None by (intro others_absent) (simp add: mc_entries_def entry_for_None)
    moreover from calculation(2-4) have "mc_wf ?c"
      using wf by (simp add: mc_wf_def mc_entries_def)
    ultimately show ?thesis
      by (intro exI [of _ ?c]) (simp add: mc_entries_def lru_put_def)
  next
    case (Some el)
    note ix = mc_wf_D(1) [OF wf]
    obtain e where e: "entry_for ce_key k (mc_entries c) = Some e" "ce_key e = k"
        and val: "Value (MoveToFront el (mc_ll c)) el = Some e"
      unfolding mc_entries_def by (rule indexed_hit [OF ix Some])
    let ?ll = "SetValue el ?new (MoveToFront el (mc_ll c))"
    have new: "e\<lparr>ce_size := ApproxSize m, ce_m := m\<rparr> = ?new"
      using e(2) by simp
    let ?c = "c\<lparr>mc_bytes := mc_bytes c + (ApproxSize m - ce_size e), mc_ll := ?ll\<rparr>"
    have add: "mc_add k m c = evictToBound ?c"
      using Some val by (simp add: mc_add_def Let_def new)
    have sv: "indexed ce_key ?ll (mc_idx c)" and ent: "entries ?ll = ?new # others ce_key k (mc_entries c)"
      using indexed_refresh [OF ix, of ?new] Some by (simp_all add: mc_entries_def)
    have "sum_list (map ce_size (others ce_key k (mc_entries c))) = mc_bytes c - ce_size e"
      using sum_others [OF mc_wf_D(2) [OF wf] e(1), of ce_size] mc_wf_D(3) [OF wf] by simp
    then have "mc_wf ?c"
      using wf sv ent e(2) by (simp add: mc_wf_def mc_entries_def list_all_iff set_others)
    with add ent show ?thesis
      by (intro exI [of _ ?c]) (simp add: mc_entries_def lru_put_def)
  qed
  then obtain c' where c': "mc_add k m c = evictToBound c'" "mc_wf c'" "mc_cap c' = mc_cap c"
      "mc_bytesCap c' = mc_bytesCap c" "mc_entries c' = lru_put ce_key ?new (mc_entries c)"
    by blast
  with evictToBound_spec [OF c'(2)] mc_invar_evictToBound [OF c'(2)] show ?thesis by simp
qed


lemma mc_invar_wf: "mc_invar c \<Longrightarrow> mc_wf c"
  by (simp add: mc_invar_def)

lemma mc_get_invar: "mc_invar c \<Longrightarrow> mc_invar (snd (mc_get k c))"
proof -
  assume inv: "mc_invar c"
  then have wf: "mc_wf c" by (simp add: mc_invar_def)
  note g = mc_get_spec [OF wf, of k]
  have "length (lru_touch ce_key k (mc_entries c)) = length (mc_entries c) \<and>
      sum_list (map ce_size (lru_touch ce_key k (mc_entries c))) = sum_list (map ce_size (mc_entries c))"
    using length_others [OF mc_wf_D(2) [OF wf]] sum_others [OF mc_wf_D(2) [OF wf], of k _ ce_size]
    by (auto simp: lru_touch_def split: option.split)
  with inv g show ?thesis
    by (simp add: mc_invar_def mc_len_def mc_entries_def length_entries [symmetric] over_budget_def)
qed

lemma newManifestCache_invar: "mc_invar (newManifestCache cap b) \<and> mc_entries (newManifestCache cap b) = []"
  by (auto simp: mc_invar_def mc_wf_def mc_entries_def mc_len_def newManifestCache_def indexed_new
      length_entries [symmetric])

subsection \<open>The contract holds\<close>

definition mc_lookup :: "manifestCache \<Rightarrow> string \<Rightarrow> Manifest option" where
  "mc_lookup c = cached ce_key ce_m (mc_entries c)"

lemma mc_lookup_get: "mc_wf c \<Longrightarrow> mc_lookup (snd (mc_get k c)) = mc_lookup c"
  using mc_get_spec [of c k] cached_touch [OF mc_wf_D(2), of c ce_m k] by (simp add: mc_lookup_def)

lemma mc_lookup_add:
  assumes "mc_wf c"
  shows "(\<forall>q w. mc_lookup (mc_add k m c) q = Some w \<longrightarrow> mc_lookup c q = Some w \<or> q = k \<and> w = m) \<and>
    mc_lookup (mc_add k m c) k = Some m"
proof -
  let ?new = "\<lparr>ce_key = k, ce_m = m, ce_size = ApproxSize m\<rparr>"
  let ?over = "over_budget (mc_cap c) (mc_bytesCap c)"
  have "\<exists>ys. shrink 1 ?over (lru_put ce_key ?new (mc_entries c)) = ?new # ys"
    unfolding lru_put_def by (intro shrink_newest) simp
  with mc_add_spec [OF assms, of k m] cached_after_put [of ce_key ce_m 1 ?over ?new "mc_entries c"]
  show ?thesis by (auto simp: mc_lookup_def cached_Cons)
qed

interpretation mc: lru_cache mc_invar mc_lookup mc_get "\<lambda>k m c. Some (mc_add k m c)" "\<lambda>_ _. True"
  using mc_get_spec mc_get_invar mc_lookup_get mc_lookup_add mc_add_spec mc_invar_wf
  by unfold_locales (simp_all add: mc_lookup_def)

subsection \<open>Histories\<close>

text \<open>Any sequence of operations on a cache, beside the same sequence on the specification.\<close>

datatype mc_op = Get string | Add string Manifest

fun mc_run :: "mc_op list \<Rightarrow> manifestCache \<Rightarrow> Manifest option list \<times> manifestCache" where
  "mc_run [] c = ([], c)"
| "mc_run (Get k # ops) c =
     (let (r, c') = mc_get k c; (rs, c'') = mc_run ops c' in (r # rs, c''))"
| "mc_run (Add k m # ops) c = mc_run ops (mc_add k m c)"

fun lru_run :: "int \<Rightarrow> int \<Rightarrow> mc_op list \<Rightarrow> cacheEntry list \<Rightarrow> Manifest option list \<times> cacheEntry list" where
  "lru_run cap b [] xs = ([], xs)"
| "lru_run cap b (Get k # ops) xs =
     (let (rs, ys) = lru_run cap b ops (lru_touch ce_key k xs) in (cached ce_key ce_m xs k # rs, ys))"
| "lru_run cap b (Add k m # ops) xs =
     lru_run cap b ops (shrink 1 (over_budget cap b)
       (lru_put ce_key \<lparr>ce_key = k, ce_m = m, ce_size = ApproxSize m\<rparr> xs))"

lemma mc_run_spec:
  "mc_invar c \<Longrightarrow> mc_cap c = cap \<Longrightarrow> mc_bytesCap c = b \<Longrightarrow>
   fst (mc_run ops c) = fst (lru_run cap b ops (mc_entries c)) \<and>
   mc_entries (snd (mc_run ops c)) = snd (lru_run cap b ops (mc_entries c)) \<and>
   mc_invar (snd (mc_run ops c)) \<and> mc_cap (snd (mc_run ops c)) = cap \<and> mc_bytesCap (snd (mc_run ops c)) = b"
proof (induction ops arbitrary: c)
  case (Cons op ops)
  then have wf: "mc_wf c" by (simp add: mc_invar_def)
  show ?case
  proof (cases op)
    case (Get k)
    with Cons.prems Cons.IH [of "snd (mc_get k c)"] mc_get_spec [OF wf, of k] mc_get_invar [of c k]
    show ?thesis by (simp add: split_beta Let_def)
  next
    case (Add k m)
    with Cons.prems Cons.IH [of "mc_add k m c"] mc_add_spec [OF wf, of k m] show ?thesis by simp
  qed
qed simp

lemma mc_run_append:
  "mc_run (xs @ ys) c = (let (r, c') = mc_run xs c; (r', c'') = mc_run ys c' in (r @ r', c''))"
proof (induction xs arbitrary: c)
  case (Cons op xs)
  then show ?case by (cases op) (simp_all add: split_beta Let_def)
qed simp

lemma newManifestCache_caps:
  "mc_cap (newManifestCache cap b) = max 1 cap" "mc_bytesCap (newManifestCache cap b) = max 0 b"
  by (auto simp: newManifestCache_def)

text \<open>C14: refinement. The linked list, its index map and the byte counter implement a plain
  least-recently-used list: over any history of gets and adds from a new cache, every get answers
  what the list holds, and the cache ends up holding exactly the specification's entries, in its
  order.\<close>

theorem manifestCache_refines_lru:
  "fst (mc_run ops (newManifestCache cap b)) = fst (lru_run (max 1 cap) (max 0 b) ops []) \<and>
   mc_entries (snd (mc_run ops (newManifestCache cap b))) = snd (lru_run (max 1 cap) (max 0 b) ops [])"
  using mc_run_spec [of "newManifestCache cap b"] newManifestCache_invar [of cap b] newManifestCache_caps
  by simp

text \<open>After any history the cache is within its entry count, and within its byte budget
  when it has one, except that a single entry may exceed the budget; the byte counter is exactly
  the sum of the sizes held.\<close>

theorem manifestCache_bounded:
  "int (mc_len (snd (mc_run ops (newManifestCache cap b)))) \<le> max 1 cap \<and>
   (mc_len (snd (mc_run ops (newManifestCache cap b))) \<le> 1 \<or> b \<le> 0 \<or>
    mc_bytes (snd (mc_run ops (newManifestCache cap b))) \<le> b) \<and>
   mc_bytes (snd (mc_run ops (newManifestCache cap b))) =
     sum_list (map (\<lambda>e. ApproxSize (ce_m e)) (mc_entries (snd (mc_run ops (newManifestCache cap b)))))"
proof -
  define c where "c = snd (mc_run ops (newManifestCache cap b))"
  have inv: "mc_invar c" and caps: "mc_cap c = max 1 cap" "mc_bytesCap c = max 0 b"
    using mc_run_spec [of "newManifestCache cap b" _ _ ops] newManifestCache_invar newManifestCache_caps
    by (auto simp: c_def)
  have sizes: "map ce_size (mc_entries c) = map (\<lambda>e. ApproxSize (ce_m e)) (mc_entries c)"
    and bytes: "mc_bytes c = sum_list (map ce_size (mc_entries c))"
    using inv by (auto simp: mc_invar_def mc_wf_def list_all_iff)
  have "mc_len c = length (mc_entries c)"
    by (simp add: mc_len_def mc_entries_def length_entries)
  with inv bytes have "int (mc_len c) \<le> max 1 cap \<and> (mc_len c \<le> 1 \<or> b \<le> 0 \<or> mc_bytes c \<le> b)"
    by (auto simp: mc_invar_def over_budget_def caps)
  with bytes sizes show ?thesis
    unfolding c_def by simp
qed

text \<open>An added manifest is retained until something else is added, however large it
  is and whatever came before: reading it back any number of other gets later still hits.\<close>

theorem manifestCache_newest_retained:
  "fst (mc_run (ops @ Add k m # map Get ks @ [Get k]) (newManifestCache cap b)) =
     fst (mc_run (ops @ Add k m # map Get ks) (newManifestCache cap b)) @ [Some m]"
proof -
  define c where "c = mc_add k m (snd (mc_run ops (newManifestCache cap b)))"
  have inv0: "mc_invar (snd (mc_run ops (newManifestCache cap b)))"
    using mc_run_spec [of "newManifestCache cap b"] newManifestCache_invar by blast
  then have "mc_invar c" "mc_lookup c k = Some m"
    using mc_add_spec mc_lookup_add mc_invar_wf by (simp_all add: c_def)
  then have "mc_invar (snd (mc_run (map Get ks) c)) \<and> mc_lookup (snd (mc_run (map Get ks) c)) k = Some m"
  proof (induction ks arbitrary: c)
    case (Cons q ks)
    then show ?case
      using Cons.IH [of "snd (mc_get q c)"] mc_get_invar [of c q] mc_lookup_get [of c q] mc_invar_wf [of c]
      by (simp add: split_beta Let_def)
  qed simp
  then have "fst (mc_get k (snd (mc_run (map Get ks) c))) = Some m"
    using mc_get_spec mc_invar_wf by (simp add: mc_lookup_def)
  then show ?thesis
    by (simp add: mc_run_append split_beta Let_def c_def)
qed

end
