(* ===== verification/Metrics.thy ===== *)
theory Metrics
  imports GoTime
begin

section \<open>internal/metrics: per-site counters and their eviction\<close>

text \<open>
  \<^verbatim>\<open>metrics.go\<close>. The two counter vectors are Prometheus': their operations are the argument \<open>ops\<close>,
  and \<open>val\<close> reads a vector's series; \<open>counter_laws\<close> is the documented behaviour relied on (a series is
  created at 0 on first use, an add adds, a delete drops the series and no other). Prometheus counts in
  floating point, exactly up to 2 to the 53; the model counts in integers. \<^verbatim>\<open>lastSeen\<close> is a map; the
  order in which \<^verbatim>\<open>Range\<close> visits it is the argument \<open>visit\<close>. Times are the clock's readings, passed in.
\<close>

type_synonym siteKey = "string \<times> string"

record 'v counter_ops =
  cv_Inc :: "siteKey \<Rightarrow> 'v \<Rightarrow> 'v"
  cv_Add :: "siteKey \<Rightarrow> int \<Rightarrow> 'v \<Rightarrow> 'v"
  cv_Delete :: "siteKey \<Rightarrow> 'v \<Rightarrow> 'v"

definition series :: "('v \<Rightarrow> siteKey \<Rightarrow> int option) \<Rightarrow> 'v \<Rightarrow> siteKey \<Rightarrow> int" where
  "series val v k = (case val v k of None \<Rightarrow> 0 | Some n \<Rightarrow> n)"

definition counter_laws :: "'v counter_ops \<Rightarrow> ('v \<Rightarrow> siteKey \<Rightarrow> int option) \<Rightarrow> bool" where
  "counter_laws ops val \<longleftrightarrow>
     (\<forall>v k. val (cv_Inc ops k v) = (val v)(k \<mapsto> series val v k + 1)) \<and>
     (\<forall>v k n. 0 \<le> n \<longrightarrow> val (cv_Add ops k n v) = (val v)(k \<mapsto> series val v k + n)) \<and>
     (\<forall>v k. val (cv_Delete ops k v) = (val v)(k := None))"

record 'v metrics =
  m_Requests :: 'v
  m_ResponseBytes :: 'v
  m_lastSeen :: "siteKey \<rightharpoonup> int"

definition touch :: "gotime \<Rightarrow> string \<Rightarrow> string \<Rightarrow> 'v metrics \<Rightarrow> 'v metrics" where
  "touch now project name w =
     (let k = (project, name);
          n = UnixNano now
      in case m_lastSeen w k of
           Some _ \<Rightarrow> w\<lparr>m_lastSeen := (m_lastSeen w)(k \<mapsto> n)\<rparr>
         | None \<Rightarrow> w\<lparr>m_lastSeen := (m_lastSeen w)(k \<mapsto> n)\<rparr>)"

definition ObserveRequest :: "'v counter_ops \<Rightarrow> gotime \<Rightarrow> string \<Rightarrow> string \<Rightarrow> 'v metrics \<Rightarrow> 'v metrics" where
  "ObserveRequest ops now project name w =
     touch now project name (w\<lparr>m_Requests := cv_Inc ops (project, name) (m_Requests w)\<rparr>)"

definition AddResponseBytes :: "'v counter_ops \<Rightarrow> gotime \<Rightarrow> string \<Rightarrow> string \<Rightarrow> int \<Rightarrow> 'v metrics \<Rightarrow> 'v metrics" where
  "AddResponseBytes ops now project name n w =
     (if n \<le> 0 then w
      else touch now project name (w\<lparr>m_ResponseBytes := cv_Add ops (project, name) n (m_ResponseBytes w)\<rparr>))"

text \<open>The callback \<^verbatim>\<open>Range\<close> runs on one entry, and the sweep over the entries visited.\<close>

definition evict_site :: "'v counter_ops \<Rightarrow> int \<Rightarrow> siteKey \<Rightarrow> 'v metrics \<Rightarrow> 'v metrics" where
  "evict_site ops cutoff k w =
     (case m_lastSeen w k of
        None \<Rightarrow> w
      | Some t \<Rightarrow>
          if t < cutoff then
            w\<lparr>m_Requests := cv_Delete ops k (m_Requests w),
              m_ResponseBytes := cv_Delete ops k (m_ResponseBytes w),
              m_lastSeen := (m_lastSeen w)(k := None)\<rparr>
          else w)"

definition evictIdle :: "'v counter_ops \<Rightarrow> siteKey list \<Rightarrow> gotime \<Rightarrow> int \<Rightarrow> 'v metrics \<Rightarrow> 'v metrics" where
  "evictIdle ops visit now ttl w =
     (let cutoff = UnixNano (AddNanos now (- ttl)) in fold (evict_site ops cutoff) visit w)"

text \<open>
  \<^verbatim>\<open>StartEvictor\<close>: not started for a non-positive ttl; otherwise a loop that sweeps on each tick and
  stops when the context is done. Its life is the sequence of events its \<^verbatim>\<open>select\<close> receives, with the
  requests the server counts in between; \<open>gw_events\<close> runs such a history.
\<close>

datatype evictor = NotStarted | Running int | Stopped

definition hour :: int where
  "hour = 3600 * 1000000000"

definition StartEvictor :: "int \<Rightarrow> int \<Rightarrow> evictor \<times> int" where
  "StartEvictor ttl interval =
     (if ttl \<le> 0 then (NotStarted, interval)
      else (Running ttl, if interval \<le> 0 then hour else interval))"

datatype event =
  Request gotime string string
| Bytes gotime string string int
| Tick gotime "siteKey list"
| Done

fun gw_event :: "'v counter_ops \<Rightarrow> event \<Rightarrow> evictor \<times> 'v metrics \<Rightarrow> evictor \<times> 'v metrics" where
  "gw_event ops (Request t p n) (e, w) = (e, ObserveRequest ops t p n w)"
| "gw_event ops (Bytes t p n b) (e, w) = (e, AddResponseBytes ops t p n b w)"
| "gw_event ops (Tick t visit) (Running ttl, w) = (Running ttl, evictIdle ops visit t ttl w)"
| "gw_event ops Done (Running ttl, w) = (Stopped, w)"
| "gw_event ops _ s = s"

definition gw_events :: "'v counter_ops \<Rightarrow> event list \<Rightarrow> evictor \<times> 'v metrics \<Rightarrow> evictor \<times> 'v metrics" where
  "gw_events ops evs s = fold (gw_event ops) evs s"

subsection \<open>One operation\<close>

lemma touch_simps [simp]:
  "m_lastSeen (touch t p n w) = (m_lastSeen w)((p, n) \<mapsto> UnixNano t)"
  "m_Requests (touch t p n w) = m_Requests w" "m_ResponseBytes (touch t p n w) = m_ResponseBytes w"
  by (auto simp: touch_def Let_def split: option.split)

lemma ObserveRequest_simps [simp]:
  "m_lastSeen (ObserveRequest ops t p n w) = (m_lastSeen w)((p, n) \<mapsto> UnixNano t)"
  "m_Requests (ObserveRequest ops t p n w) = cv_Inc ops (p, n) (m_Requests w)"
  "m_ResponseBytes (ObserveRequest ops t p n w) = m_ResponseBytes w"
  by (simp_all add: ObserveRequest_def)

lemma AddResponseBytes_simps [simp]:
  "m_lastSeen (AddResponseBytes ops t p n b w) = (if b \<le> 0 then m_lastSeen w else (m_lastSeen w)((p, n) \<mapsto> UnixNano t))"
  "m_Requests (AddResponseBytes ops t p n b w) = m_Requests w"
  "m_ResponseBytes (AddResponseBytes ops t p n b w) =
     (if b \<le> 0 then m_ResponseBytes w else cv_Add ops (p, n) b (m_ResponseBytes w))"
  by (simp_all add: AddResponseBytes_def)

lemma counter_lawsD:
  assumes "counter_laws ops val"
  shows "val (cv_Inc ops k v) = (val v)(k \<mapsto> series val v k + 1)"
    "0 \<le> n \<Longrightarrow> val (cv_Add ops k n v) = (val v)(k \<mapsto> series val v k + n)"
    "val (cv_Delete ops k v) = (val v)(k := None)"
  using assms unfolding counter_laws_def by blast+

text \<open>What a sweep does to one site: it depends on that site alone.\<close>

definition idle :: "int \<Rightarrow> siteKey \<Rightarrow> 'v metrics \<Rightarrow> bool" where
  "idle cutoff k w \<longleftrightarrow> (case m_lastSeen w k of None \<Rightarrow> False | Some t \<Rightarrow> t < cutoff)"

text \<open>All that is recorded about a site: its last activity and its two series.\<close>

definition site_view :: "('v \<Rightarrow> siteKey \<Rightarrow> int option) \<Rightarrow> siteKey \<Rightarrow> 'v metrics \<Rightarrow> int option \<times> int option \<times> int option" where
  "site_view val k w = (m_lastSeen w k, val (m_Requests w) k, val (m_ResponseBytes w) k)"

lemma evict_site_view:
  assumes "counter_laws ops val"
  shows "site_view val k (evict_site ops c q w) =
     (if k = q \<and> idle c k w then (None, None, None) else site_view val k w)"
  by (cases "m_lastSeen w q") (auto simp: site_view_def idle_def evict_site_def counter_lawsD [OF assms])

lemma site_view_idle: "site_view val k w = site_view val k w' \<Longrightarrow> idle c k w = idle c k w'"
  by (simp add: site_view_def idle_def)

lemma evict_fold:
  assumes laws: "counter_laws ops val"
  shows "site_view val k (fold (evict_site ops c) ks w) =
     (if k \<in> set ks \<and> idle c k w then (None, None, None) else site_view val k w)"
proof (induction ks arbitrary: w)
  case (Cons q ks)
  let ?w = "evict_site ops c q w"
  note q = evict_site_view [OF laws, of k c q w]
  show ?case
  proof (cases "k = q \<and> idle c k w")
    case True
    with q have v: "site_view val k ?w = (None, None, None)" by metis
    then have "\<not> idle c k ?w" by (simp add: site_view_def idle_def)
    with Cons.IH [of ?w] v have "site_view val k (fold (evict_site ops c) (q # ks) w) = (None, None, None)"
      by simp
    with True show ?thesis by (metis list.set_intros(1))
  next
    case False
    with q have v: "site_view val k ?w = site_view val k w" by metis
    with Cons.IH [of ?w] False site_view_idle [OF v, of c] show ?thesis by auto
  qed
qed simp

lemma evictIdle_view:
  assumes "counter_laws ops val"
  shows "site_view val k (evictIdle ops visit t ttl w) =
     (if k \<in> set visit \<and> idle (UnixNano t - ttl) k w then (None, None, None) else site_view val k w)"
  by (simp add: evictIdle_def evict_fold [OF assms] UnixNano_Add)

lemma request_view:
  assumes "counter_laws ops val"
  shows "site_view val k (ObserveRequest ops t p n w) =
     (if k = (p, n) then (Some (UnixNano t), Some (series val (m_Requests w) k + 1), val (m_ResponseBytes w) k)
      else site_view val k w)"
  by (auto simp: site_view_def counter_lawsD [OF assms])

lemma bytes_view:
  assumes "counter_laws ops val"
  shows "site_view val k (AddResponseBytes ops t p n b w) =
     (if k = (p, n) \<and> 0 < b then (Some (UnixNano t), val (m_Requests w) k, Some (series val (m_ResponseBytes w) k + b))
      else site_view val k w)"
  by (auto simp: site_view_def counter_lawsD [OF assms])

subsection \<open>Properties\<close>

text \<open>Series and activity records in step: no series without a record the sweep can find it by.\<close>

definition tracked :: "('v \<Rightarrow> siteKey \<Rightarrow> int option) \<Rightarrow> 'v metrics \<Rightarrow> bool" where
  "tracked val w \<longleftrightarrow>
     (\<forall>k. m_lastSeen w k = None \<longleftrightarrow> val (m_Requests w) k = None \<and> val (m_ResponseBytes w) k = None)"

definition tracked_view :: "int option \<times> int option \<times> int option \<Rightarrow> bool" where
  "tracked_view v \<longleftrightarrow> (fst v = None \<longleftrightarrow> snd v = (None, None))"

lemma tracked_views: "tracked val w \<longleftrightarrow> (\<forall>k. tracked_view (site_view val k w))"
  by (simp add: tracked_def tracked_view_def site_view_def)

lemma tracked_event:
  assumes laws: "counter_laws ops val" and t: "tracked val w"
  shows "tracked val (snd (gw_event ops ev (e, w)))"
proof -
  have "tracked_view (site_view val k (snd (gw_event ops ev (e, w))))" for k
  proof -
    have w: "tracked_view (site_view val k w)" using t unfolding tracked_views by blast
    show ?thesis
    proof (cases ev)
      case (Request t p n)
      with w request_view [OF laws] show ?thesis by (simp add: tracked_view_def)
    next
      case (Bytes t p n b)
      with w bytes_view [OF laws] show ?thesis by (simp add: tracked_view_def)
    next
      case (Tick t visit)
      with w evictIdle_view [OF laws] show ?thesis by (cases e) (simp_all add: tracked_view_def)
    next
      case Done
      with w show ?thesis by (cases e) simp_all
    qed
  qed
  then show ?thesis unfolding tracked_views by blast
qed

lemma tracked_events:
  "counter_laws ops val \<Longrightarrow> tracked val w \<Longrightarrow> tracked val (snd (gw_events ops evs (e, w)))"
proof (induction evs arbitrary: e w)
  case (Cons ev evs)
  with tracked_event [of ops val w ev e] show ?case
    by (cases "gw_event ops ev (e, w)") (simp add: gw_events_def)
qed (simp add: gw_events_def)

text \<open>A counter vector as a map, for the witnesses.\<close>

definition map_ops :: "(siteKey \<rightharpoonup> int) counter_ops" where
  "map_ops = \<lparr>cv_Inc = (\<lambda>k v. v(k \<mapsto> series id v k + 1)), cv_Add = (\<lambda>k n v. v(k \<mapsto> series id v k + n)),
     cv_Delete = (\<lambda>k v. v(k := None))\<rparr>"

definition new_metrics :: "(siteKey \<rightharpoonup> int) metrics" where
  "new_metrics = \<lparr>m_Requests = Map.empty, m_ResponseBytes = Map.empty, m_lastSeen = Map.empty\<rparr>"

lemma map_ops_laws: "counter_laws map_ops id"
  by (simp add: counter_laws_def map_ops_def)

text \<open>Cardinality: whatever requests, bytes, ticks and shutdown happen, a series exists
  for exactly the sites with an activity record; and a tick that visits every record leaves only
  series of sites active within the ttl.\<close>

theorem metrics_cardinality:
  assumes laws: "counter_laws ops val" and t: "tracked val w"
  shows "tracked val (snd (gw_events ops evs (e, w))) \<and>
     (\<forall>k \<in> set visit. case site_view val k (evictIdle ops visit now ttl w) of
        (None, r, b) \<Rightarrow> r = None \<and> b = None
      | (Some seen, _) \<Rightarrow> UnixNano now - ttl \<le> seen)"
proof -
  have "case site_view val k (evictIdle ops visit now ttl w) of
        (None, r, b) \<Rightarrow> r = None \<and> b = None
      | (Some seen, _) \<Rightarrow> UnixNano now - ttl \<le> seen" if "k \<in> set visit" for k
  proof -
    have "m_lastSeen w k = None \<longleftrightarrow> val (m_Requests w) k = None \<and> val (m_ResponseBytes w) k = None"
      using t unfolding tracked_def by blast
    with that evictIdle_view [OF laws, of k visit now ttl w] show ?thesis
      by (auto simp: idle_def site_view_def split: if_splits option.splits)
  qed
  with tracked_events [OF laws t] show ?thesis by (intro conjI ballI)
qed

lemma metrics_cardinality_witness:
  "tracked id (snd (gw_events map_ops [Request (GoTime 62135596800 0) ''a'' ''b'', Tick (GoTime 62135596800 0) [(''a'', ''b'')]] (Running 5, new_metrics)))"
  using metrics_cardinality [OF map_ops_laws, of new_metrics "[Request (GoTime 62135596800 0) ''a'' ''b'', Tick (GoTime 62135596800 0) [(''a'', ''b'')]]" "Running 5"]
  by (simp add: tracked_def new_metrics_def)


text \<open>A history in which a site is never idle for longer than the ttl when a sweep runs, and what the
  history adds to its counters.\<close>

fun active_through :: "int \<Rightarrow> siteKey \<Rightarrow> int \<Rightarrow> event list \<Rightarrow> bool" where
  "active_through ttl k seen [] = True"
| "active_through ttl k seen (Request t p n # evs) =
     active_through ttl k (if k = (p, n) then UnixNano t else seen) evs"
| "active_through ttl k seen (Bytes t p n b # evs) =
     active_through ttl k (if k = (p, n) \<and> 0 < b then UnixNano t else seen) evs"
| "active_through ttl k seen (Tick t visit # evs) =
     (UnixNano t - ttl \<le> seen \<and> active_through ttl k seen evs)"
| "active_through ttl k seen (Done # evs) = active_through ttl k seen evs"

fun requests_of :: "siteKey \<Rightarrow> event list \<Rightarrow> int" where
  "requests_of k [] = 0"
| "requests_of k (Request t p n # evs) = (if k = (p, n) then 1 else 0) + requests_of k evs"
| "requests_of k (_ # evs) = requests_of k evs"

fun bytes_of :: "siteKey \<Rightarrow> event list \<Rightarrow> int" where
  "bytes_of k [] = 0"
| "bytes_of k (Bytes t p n b # evs) = (if k = (p, n) \<and> 0 < b then b else 0) + bytes_of k evs"
| "bytes_of k (_ # evs) = bytes_of k evs"

lemma no_loss:
  assumes laws: "counter_laws ops val"
  shows "e = Running ttl \<or> e = Stopped \<Longrightarrow> m_lastSeen w k = Some seen \<Longrightarrow> active_through ttl k seen evs \<Longrightarrow>
    series val (m_Requests (snd (gw_events ops evs (e, w)))) k = series val (m_Requests w) k + requests_of k evs \<and>
    series val (m_ResponseBytes (snd (gw_events ops evs (e, w)))) k = series val (m_ResponseBytes w) k + bytes_of k evs"
proof (induction evs arbitrary: e w seen)
  case (Cons ev evs)
  have step: "gw_events ops (ev # evs) (e, w) = gw_events ops evs (gw_event ops ev (e, w))"
    by (simp add: gw_events_def)
  show ?case
  proof (cases ev)
    case (Request t p n)
    let ?w = "ObserveRequest ops t p n w"
    have "m_lastSeen ?w k = Some (if k = (p, n) then UnixNano t else seen)"
      using Cons.prems by auto
    from Cons.IH [OF Cons.prems(1) this] Cons.prems(3) Request step show ?thesis
      by (auto simp: counter_lawsD [OF laws] series_def)
  next
    case (Bytes t p n b)
    let ?w = "AddResponseBytes ops t p n b w"
    have "m_lastSeen ?w k = Some (if k = (p, n) \<and> 0 < b then UnixNano t else seen)"
      using Cons.prems by auto
    from Cons.IH [OF Cons.prems(1) this] Cons.prems(3) Bytes step show ?thesis
      by (auto simp: counter_lawsD [OF laws] series_def)
  next
    case (Tick t visit)
    show ?thesis
    proof (cases "e = Running ttl")
      case True
      let ?w = "evictIdle ops visit t ttl w"
      have "\<not> idle (UnixNano t - ttl) k w"
        using Cons.prems(2,3) Tick by (simp add: idle_def)
      then have v: "site_view val k ?w = site_view val k w"
        using evictIdle_view [OF laws] by simp
      then have "m_lastSeen ?w k = Some seen"
        using Cons.prems(2) by (simp add: site_view_def)
      from Cons.IH [OF Cons.prems(1) this] Cons.prems(3) Tick step True v show ?thesis
        by (simp add: site_view_def series_def)
    next
      case False
      with Cons.prems Cons.IH [OF Cons.prems(1,2)] Tick step show ?thesis by simp
    qed
  next
    case Done
    with Cons.prems(1) have "gw_event ops ev (e, w) = (Stopped, w)" by auto
    with Cons.IH [of Stopped w seen] Cons.prems Done step show ?thesis by simp
  qed
qed (simp add: gw_events_def)

text \<open>No billable loss: as long as a site is never idle for longer than the ttl at a
  sweep, its counters are never reset: at the end of the history they have grown by exactly the number
  of its requests and the bytes streamed for it, whatever the other sites do and in whatever order the
  sweeps visit.\<close>

theorem metrics_no_loss:
  assumes laws: "counter_laws ops val" and seen: "m_lastSeen w k = Some seen"
    and act: "active_through ttl k seen evs"
  shows "series val (m_Requests (snd (gw_events ops evs (Running ttl, w)))) k =
       series val (m_Requests w) k + requests_of k evs \<and>
     series val (m_ResponseBytes (snd (gw_events ops evs (Running ttl, w)))) k =
       series val (m_ResponseBytes w) k + bytes_of k evs"
  using no_loss [OF laws _ seen act] by blast

definition epoch_plus :: "int \<Rightarrow> gotime" where
  "epoch_plus s = GoTime (62135596800 + s) 0"

definition demo_history :: "event list" where
  "demo_history = [Request (epoch_plus 1) ''a'' ''b'', Bytes (epoch_plus 1) ''a'' ''b'' 512,
     Tick (epoch_plus 3) [(''c'', ''d''), (''a'', ''b'')], Request (epoch_plus 4) ''a'' ''b'']"

lemma metrics_no_loss_witness:
  "series id (m_Requests (snd (gw_events map_ops demo_history
     (Running 5000000000, touch (epoch_plus 0) ''a'' ''b'' new_metrics)))) (''a'', ''b'') = 2"
proof -
  let ?w = "touch (epoch_plus 0) ''a'' ''b'' new_metrics"
  have "m_lastSeen ?w (''a'', ''b'') = Some 0"
    by (simp add: epoch_plus_def UnixNano_def)
  moreover have "active_through 5000000000 (''a'', ''b'') 0 demo_history"
    by (simp add: demo_history_def epoch_plus_def UnixNano_def)
  ultimately have "series id (m_Requests (snd (gw_events map_ops demo_history (Running 5000000000, ?w)))) (''a'', ''b'') =
      series id (m_Requests ?w) (''a'', ''b'') + requests_of (''a'', ''b'') demo_history"
    using metrics_no_loss [OF map_ops_laws] by blast
  then show ?thesis by (simp add: series_def new_metrics_def demo_history_def)
qed

text \<open>The evictor is disabled by a non-positive ttl: then no history of events ever
  drops a series.\<close>

theorem evictor_disabled:
  assumes laws: "counter_laws ops val" and off: "ttl \<le> 0"
  shows "series val (m_Requests (snd (gw_events ops evs (fst (StartEvictor ttl interval), w)))) k =
     series val (m_Requests w) k + requests_of k evs"
proof -
  have "series val (m_Requests (snd (gw_events ops evs (NotStarted, w)))) k =
     series val (m_Requests w) k + requests_of k evs"
  proof (induction evs arbitrary: w)
    case (Cons ev evs)
    then show ?case
      by (cases ev) (auto simp: gw_events_def counter_lawsD [OF laws] series_def)
  qed (simp add: gw_events_def)
  with off show ?thesis by (simp add: StartEvictor_def)
qed

lemma evictor_disabled_witness:
  "series id (m_Requests (snd (gw_events map_ops demo_history (fst (StartEvictor 0 7), new_metrics)))) (''a'', ''b'') = 2"
  using evictor_disabled [OF map_ops_laws, of 0 demo_history 7 new_metrics "(''a'', ''b'')"]
  by (simp add: series_def new_metrics_def demo_history_def)

end
