(* ===== verification/Server.thy ===== *)
theory Server
  imports HTTP Resolve ManifestCache Metrics GoStrconv
begin

section \<open>internal/server: the request handler\<close>

text \<open>
  \<^verbatim>\<open>server.go\<close>. The gateway's state is the record \<open>world\<close>: the store, the manifest cache, the metrics
  and the log. What is not under \<^verbatim>\<open>src/\<close>, or is chosen per run, is the record \<open>env\<close>: the store's \<^verbatim>\<open>Get\<close>,
  the counter operations, the clock, the JSON decoder, the map iteration order, \<^verbatim>\<open>http.ParseTime\<close> and
  singleflight's \<^verbatim>\<open>Do\<close>. A request runs as one sequential step of the world; \<open>do_runs\<close> is what \<^verbatim>\<open>Do\<close>
  promises a caller with no concurrent call for the same key.
\<close>

subsection \<open>Configuration and state\<close>

definition DefaultManifestCacheCap :: int where
  "DefaultManifestCacheCap = 1024"

datatype log_entry =
  LogLoadManifest string string string
| LogDanglingBlob string string
| LogReadBlob string store_error
| LogStreamBlob string copy_error

record ('s, 'v) world =
  w_store :: 's
  w_cache :: manifestCache
  w_metrics :: "'v metrics"
  w_log :: "log_entry list"

datatype lm_error = StoreFailure store_error | LoadFailure load_error

fun is_not_found :: "lm_error \<Rightarrow> bool" where
  "is_not_found (StoreFailure e) = is_NotExist e"
| "is_not_found (LoadFailure _) = False"

record ('s, 'v) env =
  e_Get :: "string \<Rightarrow> 's \<Rightarrow> (store_error + reader) \<times> 's"
  e_counters :: "'v counter_ops"
  e_now :: gotime
  e_decode :: "bytes \<Rightarrow> string + Manifest"
  e_rng :: rng
  e_ParseTime :: "string \<Rightarrow> gotime option"
  e_Do :: "string \<Rightarrow> (('s, 'v) world \<Rightarrow> (lm_error + Manifest) \<times> ('s, 'v) world) \<Rightarrow>
            ('s, 'v) world \<Rightarrow> (lm_error + Manifest) \<times> ('s, 'v) world"

definition do_runs :: "('s, 'v) env \<Rightarrow> bool" where
  "do_runs env \<longleftrightarrow> (\<forall>k f w. e_Do env k f w = f w)"

record 's Config =
  cfg_Store :: "'s option"
  cfg_ManifestCacheCap :: int
  cfg_ManifestCacheBytes :: int

text \<open>\<^verbatim>\<open>New\<close>: the handler's part of the state. The logger is not configurable here: the world has one log.\<close>

definition New :: "'s Config \<Rightarrow> 'v metrics \<Rightarrow> string + ('s, 'v) world" where
  "New cfg metrics =
     (case cfg_Store cfg of
        None \<Rightarrow> Inl ''server: nil store''
      | Some store \<Rightarrow>
          (let cap = (if cfg_ManifestCacheCap cfg \<le> 0 then DefaultManifestCacheCap else cfg_ManifestCacheCap cfg)
           in Inr \<lparr>w_store = store, w_cache = newManifestCache cap (cfg_ManifestCacheBytes cfg),
                   w_metrics = metrics, w_log = []\<rparr>))"

subsection \<open>The site prefix of a path\<close>

record site =
  s_project :: string
  s_name :: string
  s_releaseSHA :: string
  s_rest :: string

definition parseSite :: "string \<Rightarrow> site option" where
  "parseSite p =
     (let trimmed = TrimPrefix p ''/'';
          parts = SplitN 4 slash trimmed
      in if length parts < 3 \<or> parts ! 0 = [] \<or> parts ! 1 = [] \<or> parts ! 2 = [] then None
         else
           (let rest' = (if length parts = 4 then ''/'' @ parts ! 3 else ''/'')
            in Some \<lparr>s_project = parts ! 0, s_name = parts ! 1, s_releaseSHA = parts ! 2, s_rest = rest'\<rparr>))"

subsection \<open>Conditional requests and security headers\<close>

definition StatusOK :: nat where "StatusOK = 200"
definition StatusNotModified :: nat where "StatusNotModified = 304"
definition StatusBadRequest :: nat where "StatusBadRequest = 400"
definition StatusNotFound :: nat where "StatusNotFound = 404"
definition StatusMethodNotAllowed :: nat where "StatusMethodNotAllowed = 405"
definition StatusInternalServerError :: nat where "StatusInternalServerError = 500"

lemmas status_defs [simp] = StatusOK_def StatusNotModified_def StatusBadRequest_def StatusNotFound_def
  StatusMethodNotAllowed_def StatusInternalServerError_def

definition conditionalNotModified :: "(string \<Rightarrow> gotime option) \<Rightarrow> request \<Rightarrow> string \<Rightarrow> gotime \<Rightarrow> bool" where
  "conditionalNotModified ParseTime r etag mtime =
     (let inm = hdr_Get (rq_Header r) ''If-None-Match'';
          ims = hdr_Get (rq_Header r) ''If-Modified-Since''
      in if inm \<noteq> [] then NotModified inm etag
         else if ims \<noteq> [] \<and> \<not> IsZero mtime then
           (case ParseTime ims of
              Some t \<Rightarrow> \<not> After (TruncateSecond mtime) t
            | None \<Rightarrow> False)
         else False)"

definition setSecurityHeaders :: "Manifest \<Rightarrow> bool \<Rightarrow> response \<Rightarrow> response" where
  "setSecurityHeaders m isHTML w =
     (let w1 = SetHeader ''X-Frame-Options'' ''DENY'' (SetHeader ''X-Content-Type-Options'' ''nosniff'' w)
      in if isHTML \<and> \<not> IsProduction m then SetHeader ''X-Robots-Tag'' ''noindex'' w1 else w1)"

subsection \<open>Serving a blob\<close>

definition add_bytes :: "('s, 'v) env \<Rightarrow> site \<Rightarrow> nat \<Rightarrow> ('s, 'v) world \<Rightarrow> ('s, 'v) world" where
  "add_bytes env s n w =
     w\<lparr>w_metrics := AddResponseBytes (e_counters env) (e_now env) (s_project s) (s_name s) (int n) (w_metrics w)\<rparr>"

definition log_event :: "log_entry \<Rightarrow> ('s, 'v) world \<Rightarrow> ('s, 'v) world" where
  "log_event l w = w\<lparr>w_log := w_log w @ [l]\<rparr>"

text \<open>The headers \<^verbatim>\<open>serveBlob\<close> stamps before it decides how to answer.\<close>

definition stampHeaders :: "Manifest \<Rightarrow> File \<Rightarrow> response \<Rightarrow> response" where
  "stampHeaders m entry w =
     (let w1 = (if ContentType entry \<noteq> [] then SetHeader ''Content-Type'' (ContentType entry) w else w);
          w2 = SetHeader ''ETag'' (ETag (Blob entry)) (SetHeader ''Cache-Control'' (CacheControl (Cache entry)) w1);
          isHTML = HasPrefix (ContentType entry) ''text/html'';
          w3 = setSecurityHeaders m isHTML w2
      in if LastModified m \<noteq> [] then SetHeader ''Last-Modified'' (LastModified m) w3 else w3)"

text \<open>The streaming end of \<^verbatim>\<open>serveBlob\<close>, once the blob is open.\<close>

definition streamBlob :: "('s, 'v) env \<Rightarrow> site \<Rightarrow> string \<Rightarrow> nat \<Rightarrow> reader \<Rightarrow> response \<times> ('s, 'v) world \<Rightarrow>
   response \<times> ('s, 'v) world" where
  "streamBlob env s k status rc = (\<lambda>(rw, w).
     let rw1 = (case rd_size rc of
                  Some n \<Rightarrow> if 0 \<le> n then SetHeader ''Content-Length'' (FormatInt n) rw else rw
                | None \<Rightarrow> rw);
         (n, err, rw2) = CopyBuffer rc (WriteHeader status rw1);
         w1 = add_bytes env s n w
     in (rw2, case err of Some e \<Rightarrow> log_event (LogStreamBlob k e) w1 | None \<Rightarrow> w1))"

definition serveBlob :: "('s, 'v) env \<Rightarrow> request \<Rightarrow> site \<Rightarrow> Manifest \<Rightarrow> File \<Rightarrow> nat \<Rightarrow>
   response \<times> ('s, 'v) world \<Rightarrow> response \<times> ('s, 'v) world" where
  "serveBlob env r s m entry status = (\<lambda>(rw0, w).
     let etag = ETag (Blob entry);
         rw = stampHeaders m entry rw0
     in if status = StatusOK \<and> conditionalNotModified (e_ParseTime env) r etag (ModTime m) then
          (WriteHeader StatusNotModified rw, w)
        else if rq_Method r = MethodHead then (WriteHeader status rw, w)
        else
          (let k = BlobKey (s_project s) (s_name s) (Blob entry) in
           case e_Get env k (w_store w) of
             (Inl err, st) \<Rightarrow>
               (let w1 = w\<lparr>w_store := st\<rparr> in
                if is_NotExist err then
                  (HTTPError ''blob not found'' StatusNotFound rw, log_event (LogDanglingBlob k (s_releaseSHA s)) w1)
                else
                  (HTTPError ''internal error'' StatusInternalServerError rw, log_event (LogReadBlob k err) w1))
           | (Inr rc, st) \<Rightarrow> streamBlob env s k status rc (rw, w\<lparr>w_store := st\<rparr>)))"

definition defaultNotFoundBody :: string where
  "defaultNotFoundBody =
     ''<!doctype html>'' @ newline @
     ''<html lang=\"en\">'' @ newline @
     ''<head><meta charset=\"utf-8\"><title>404 Not Found</title>'' @ newline @
     ''<meta name=\"viewport\" content=\"width=device-width, initial-scale=1\">'' @ newline @
     ''<style>body{font-family:system-ui,sans-serif;margin:0;display:grid;place-items:center;min-height:100vh;color:#1a1a1a}main{text-align:center}h1{font-size:3rem;margin:0}p{color:#666}</style></head>'' @ newline @
     ''<body><main><h1>404</h1><p>The page you requested was not found.</p></main></body>'' @ newline @
     ''</html>'' @ newline"

definition serveNotFound :: "('s, 'v) env \<Rightarrow> request \<Rightarrow> site \<Rightarrow> Manifest \<Rightarrow>
   response \<times> ('s, 'v) world \<Rightarrow> response \<times> ('s, 'v) world" where
  "serveNotFound env r s m = (\<lambda>(rw, w).
     case Lookup m (NotFoundDoc m) of
       (entry, True) \<Rightarrow> serveBlob env r s m entry StatusNotFound (rw, w)
     | (_, False) \<Rightarrow>
         (let rw1 = WriteHeader StatusNotFound (setSecurityHeaders m True
                (SetHeader ''Cache-Control'' (CacheControl ClassHTML)
                  (SetHeader ''Content-Type'' ''text/html; charset=utf-8'' rw)))
          in if rq_Method r = MethodHead then (rw1, w)
             else
               (let (n, _, rw2) = WriteBody defaultNotFoundBody rw1
                in (rw2, add_bytes env s n w))))"

subsection \<open>Loading the manifest\<close>

text \<open>The function \<^verbatim>\<open>loadManifest\<close> hands to singleflight.\<close>

definition loadOnce :: "('s, 'v) env \<Rightarrow> string \<Rightarrow> ('s, 'v) world \<Rightarrow> (lm_error + Manifest) \<times> ('s, 'v) world" where
  "loadOnce env k w =
     (case mc_get k (w_cache w) of
        (Some m, c) \<Rightarrow> (Inr m, w\<lparr>w_cache := c\<rparr>)
      | (None, c) \<Rightarrow>
          (let w1 = w\<lparr>w_cache := c\<rparr> in
           case e_Get env k (w_store w1) of
             (Inl err, st) \<Rightarrow> (Inl (StoreFailure err), w1\<lparr>w_store := st\<rparr>)
           | (Inr rc, st) \<Rightarrow>
               (let w2 = w1\<lparr>w_store := st\<rparr> in
                case ReadAll rc of
                  Inl err \<Rightarrow> (Inl (StoreFailure err), w2)
                | Inr data \<Rightarrow>
                    (case Load (e_rng env) (e_decode env) data of
                       Inl err \<Rightarrow> (Inl (LoadFailure err), w2)
                     | Inr m \<Rightarrow> (Inr m, w2\<lparr>w_cache := mc_add k m (w_cache w2)\<rparr>)))))"

definition loadManifest :: "('s, 'v) env \<Rightarrow> site \<Rightarrow> ('s, 'v) world \<Rightarrow> (lm_error + Manifest) \<times> ('s, 'v) world" where
  "loadManifest env s w =
     (let k = ManifestKey (s_project s) (s_name s) (s_releaseSHA s) in
      case mc_get k (w_cache w) of
        (Some m, c) \<Rightarrow> (Inr m, w\<lparr>w_cache := c\<rparr>)
      | (None, c) \<Rightarrow> e_Do env k (loadOnce env k) (w\<lparr>w_cache := c\<rparr>))"

subsection \<open>The handler\<close>

definition observe :: "('s, 'v) env \<Rightarrow> site \<Rightarrow> ('s, 'v) world \<Rightarrow> ('s, 'v) world" where
  "observe env s w =
     w\<lparr>w_metrics := ObserveRequest (e_counters env) (e_now env) (s_project s) (s_name s) (w_metrics w)\<rparr>"

definition serveSite :: "('s, 'v) env \<Rightarrow> request \<Rightarrow> site \<Rightarrow> Manifest \<Rightarrow>
   response \<times> ('s, 'v) world \<Rightarrow> response \<times> ('s, 'v) world" where
  "serveSite env r s m st =
     (let res = Resolve (s_rest s) (\<lambda>p. snd (Lookup m p)) (SPA m) in
      case Kind res of
        Hit \<Rightarrow> serveBlob env r s m (fst (Lookup m (Path res))) StatusOK st
      | SPAFallback \<Rightarrow> serveBlob env r s m (fst (Lookup m (Path res))) StatusOK st
      | NotFound \<Rightarrow> serveNotFound env r s m st)"

definition ServeHTTP :: "('s, 'v) env \<Rightarrow> request \<Rightarrow> response \<times> ('s, 'v) world \<Rightarrow> response \<times> ('s, 'v) world" where
  "ServeHTTP env r = (\<lambda>(rw, w).
     if rq_Method r \<noteq> MethodGet \<and> rq_Method r \<noteq> MethodHead then
       (HTTPError ''method not allowed'' StatusMethodNotAllowed (SetHeader ''Allow'' ''GET, HEAD'' rw), w)
     else
       (case parseSite (rq_Path r) of
          None \<Rightarrow> (HTTPError ''bad request'' StatusBadRequest rw, w)
        | Some s \<Rightarrow>
            (case loadManifest env s (observe env s w) of
               (Inl err, w2) \<Rightarrow>
                 (if is_not_found err then (HTTPError ''release not found'' StatusNotFound rw, w2)
                  else (HTTPError ''internal error'' StatusInternalServerError rw,
                        log_event (LogLoadManifest (s_project s) (s_name s) (s_releaseSHA s)) w2))
             | (Inr m, w2) \<Rightarrow> serveSite env r s m (rw, w2))))"

text \<open>One request from a fresh response writer.\<close>

definition handle :: "('s, 'v) env \<Rightarrow> nat option \<Rightarrow> request \<Rightarrow> ('s, 'v) world \<Rightarrow> response \<times> ('s, 'v) world" where
  "handle env room r w = ServeHTTP env r (newResponse r room, w)"

end
