(* ===== verification/BlobCache.thy ===== *)
theory BlobCache
  imports LRU BlobStore
begin

section \<open>internal/blobstore: the caching store\<close>

text \<open>
  \<^verbatim>\<open>blobstore/cache.go\<close> in full: the byte-bounded cache of blob bodies and the store that wraps
  another store with it. The eviction loop of \<^verbatim>\<open>add\<close> runs while the byte count is over budget and
  evicts nothing from an empty list, so a cache whose counter had drifted would loop for ever: the
  loop is a partial function, \<open>None\<close> when it does not return, and that it returns is proved from the
  invariant.
\<close>

subsection \<open>The cache\<close>

record blobEntry =
  be_key :: string
  be_data :: bytes

record blobCache =
  bc_bytesCap :: int
  bc_bytes :: int
  bc_ll :: "blobEntry golist"
  bc_idx :: "string \<rightharpoonup> nat"

definition newBlobCache :: "int \<Rightarrow> blobCache" where
  "newBlobCache bytesCap = \<lparr>bc_bytesCap = bytesCap, bc_bytes = 0, bc_ll = list_New, bc_idx = Map.empty\<rparr>"

definition bc_get :: "string \<Rightarrow> blobCache \<Rightarrow> bytes option \<times> blobCache" where
  "bc_get k c =
     (case bc_idx c k of
        Some el \<Rightarrow> (let c' = c\<lparr>bc_ll := MoveToFront el (bc_ll c)\<rparr>
                    in (map_option be_data (Value (bc_ll c') el), c'))
      | None \<Rightarrow> (None, c))"

definition bc_evict :: "blobCache \<Rightarrow> blobCache" where
  "bc_evict c =
     (case Back (bc_ll c) of
        None \<Rightarrow> c
      | Some el \<Rightarrow>
          (case Value (bc_ll c) el of
             None \<Rightarrow> c
           | Some e \<Rightarrow> c\<lparr>bc_ll := Remove el (bc_ll c), bc_idx := (bc_idx c)(be_key e := None),
                         bc_bytes := bc_bytes c - int (length (be_data e))\<rparr>))"

partial_function (option) bc_evict_loop :: "blobCache \<Rightarrow> blobCache option" where
  "bc_evict_loop c = (if bc_bytesCap c < bc_bytes c then bc_evict_loop (bc_evict c) else Some c)"

definition bc_add :: "string \<Rightarrow> bytes \<Rightarrow> blobCache \<Rightarrow> blobCache option" where
  "bc_add k data c =
     (let size = int (length data) in
      if bc_bytesCap c < size then Some c
      else
        bc_evict_loop
          (case bc_idx c k of
             Some el \<Rightarrow>
               (let c1 = c\<lparr>bc_ll := MoveToFront el (bc_ll c)\<rparr> in
                case Value (bc_ll c1) el of
                  None \<Rightarrow> c1
                | Some e \<Rightarrow> c1\<lparr>bc_bytes := bc_bytes c1 + (size - int (length (be_data e))),
                               bc_ll := SetValue el (e\<lparr>be_data := data\<rparr>) (bc_ll c1)\<rparr>)
           | None \<Rightarrow>
               (let (el, ll') = PushFront \<lparr>be_key = k, be_data = data\<rparr> (bc_ll c)
                in c\<lparr>bc_ll := ll', bc_idx := (bc_idx c)(k \<mapsto> el), bc_bytes := bc_bytes c + size\<rparr>)))"

definition bc_len :: "blobCache \<Rightarrow> nat" where
  "bc_len c = Len (bc_ll c)"

subsection \<open>Invariant and abstraction\<close>

definition bc_entries :: "blobCache \<Rightarrow> blobEntry list" where
  "bc_entries c = entries (bc_ll c)"

definition be_size :: "blobEntry \<Rightarrow> int" where
  "be_size e = int (length (be_data e))"

definition over_bytes :: "int \<Rightarrow> blobEntry list \<Rightarrow> bool" where
  "over_bytes cap xs \<longleftrightarrow> cap < sum_list (map be_size xs)"

definition bc_wf :: "blobCache \<Rightarrow> bool" where
  "bc_wf c \<longleftrightarrow> indexed be_key (bc_ll c) (bc_idx c) \<and>
     bc_bytes c = sum_list (map be_size (bc_entries c)) \<and> 0 \<le> bc_bytesCap c"

definition bc_invar :: "blobCache \<Rightarrow> bool" where
  "bc_invar c \<longleftrightarrow> bc_wf c \<and> bc_bytes c \<le> bc_bytesCap c"

lemma bc_invar_wf: "bc_invar c \<Longrightarrow> bc_wf c"
  by (simp add: bc_invar_def)

lemma bc_wf_D:
  assumes "bc_wf c"
  shows "indexed be_key (bc_ll c) (bc_idx c)" "distinct (map be_key (bc_entries c))"
    "bc_bytes c = sum_list (map be_size (bc_entries c))"
  using assms by (auto simp: bc_wf_def indexed_def bc_entries_def)

lemma bc_evict_spec:
  assumes wf: "bc_wf c"
  shows "bc_wf (bc_evict c) \<and> bc_entries (bc_evict c) = butlast (bc_entries c) \<and>
     bc_bytesCap (bc_evict c) = bc_bytesCap c"
proof (cases "Back (bc_ll c)")
  case None
  then have "bc_entries c = []"
    unfolding bc_entries_def Back_None .
  with None wf show ?thesis by (simp add: bc_evict_def)
next
  case (Some el)
  note ix = bc_wf_D(1) [OF wf]
  note b = Back_Some [OF ix Some] indexed_Remove_Back [OF ix Some]
  have "sum_list (map be_size (butlast (bc_entries c))) =
      sum_list (map be_size (bc_entries c)) - be_size (last (bc_entries c))"
    using b(2) by (cases "bc_entries c" rule: rev_cases) (auto simp: bc_entries_def)
  with wf Some b show ?thesis
    by (auto simp: bc_evict_def bc_wf_def bc_entries_def be_size_def)
qed

text \<open>The loop returns, and does what the specification's \<open>shrink\<close> does.\<close>

lemma bc_evict_loop_spec:
  "bc_wf c \<Longrightarrow> \<exists>c'. bc_evict_loop c = Some c' \<and> bc_invar c' \<and> bc_bytesCap c' = bc_bytesCap c \<and>
     bc_entries c' = shrink 0 (over_bytes (bc_bytesCap c)) (bc_entries c)"
proof (induction "length (bc_entries c)" arbitrary: c)
  case 0
  then have "\<not> bc_bytesCap c < bc_bytes c"
    by (auto simp: bc_wf_def)
  with 0 show ?case
    by (subst bc_evict_loop.simps) (auto simp: bc_invar_def)
next
  case (Suc n)
  note wf = Suc.prems
  have ne: "0 < length (bc_entries c)" using Suc.hyps(2) by linarith
  have over: "bc_bytesCap c < bc_bytes c \<longleftrightarrow> over_bytes (bc_bytesCap c) (bc_entries c)"
    using bc_wf_D(3) [OF wf] by (simp add: over_bytes_def)
  show ?case
  proof (cases "bc_bytesCap c < bc_bytes c")
    case True
    have "bc_evict_loop c = bc_evict_loop (bc_evict c)"
      using True by (subst bc_evict_loop.simps) simp
    moreover have "shrink 0 (over_bytes (bc_bytesCap c)) (bc_entries c) =
        shrink 0 (over_bytes (bc_bytesCap c)) (butlast (bc_entries c))"
      using True over ne by (subst shrink_step) simp
    ultimately show ?thesis
      using Suc.hyps(1) [of "bc_evict c"] bc_evict_spec [OF wf] Suc.hyps(2) by simp
  next
    case False
    then have "bc_evict_loop c = Some c"
      by (subst bc_evict_loop.simps) simp
    moreover have "shrink 0 (over_bytes (bc_bytesCap c)) (bc_entries c) = bc_entries c"
      using False over by (subst shrink_step) simp
    ultimately show ?thesis using wf False by (simp add: bc_invar_def)
  qed
qed

lemma bc_get_spec:
  assumes wf: "bc_wf c"
  shows "fst (bc_get k c) = cached be_key be_data (bc_entries c) k \<and>
     bc_entries (snd (bc_get k c)) = lru_touch be_key k (bc_entries c) \<and> bc_wf (snd (bc_get k c)) \<and>
     bc_bytesCap (snd (bc_get k c)) = bc_bytesCap c \<and> bc_bytes (snd (bc_get k c)) = bc_bytes c"
proof (cases "bc_idx c k")
  case None
  then have "entry_for be_key k (bc_entries c) = None"
    using indexed_None [OF bc_wf_D(1) [OF wf]] by (simp add: bc_entries_def)
  with None wf show ?thesis by (simp add: bc_get_def cached_def lru_touch_def)
next
  case (Some el)
  note ix = bc_wf_D(1) [OF wf]
  obtain e where e: "entry_for be_key k (bc_entries c) = Some e" "be_key e = k"
      and m: "indexed be_key (MoveToFront el (bc_ll c)) (bc_idx c)"
        "entries (MoveToFront el (bc_ll c)) = e # others be_key k (bc_entries c)"
        "Value (MoveToFront el (bc_ll c)) el = Some e"
    unfolding bc_entries_def by (rule indexed_hit [OF ix Some])
  have sum: "sum_list (map be_size (others be_key k (bc_entries c))) + be_size e = bc_bytes c"
    using sum_others [OF bc_wf_D(2) [OF wf] e(1), of be_size] bc_wf_D(3) [OF wf] by simp
  with wf Some e m sum show ?thesis
    by (auto simp: bc_get_def Let_def cached_def lru_touch_def bc_wf_def bc_entries_def)
qed

lemma bc_add_spec:
  assumes wf: "bc_wf c" and fits: "int (length data) \<le> bc_bytesCap c"
  shows "\<exists>c'. bc_add k data c = Some c' \<and> bc_invar c' \<and> bc_bytesCap c' = bc_bytesCap c \<and>
     bc_entries c' = shrink 0 (over_bytes (bc_bytesCap c))
       (lru_put be_key \<lparr>be_key = k, be_data = data\<rparr> (bc_entries c))"
proof -
  let ?new = "\<lparr>be_key = k, be_data = data\<rparr>"
  have "\<exists>c'. bc_add k data c = bc_evict_loop c' \<and> bc_wf c' \<and> bc_bytesCap c' = bc_bytesCap c \<and>
      bc_entries c' = lru_put be_key ?new (bc_entries c)"
  proof (cases "bc_idx c k")
    case None
    note ix = bc_wf_D(1) [OF wf]
    obtain el ll' where push: "PushFront ?new (bc_ll c) = (el, ll')"
      by fastforce
    let ?c = "c\<lparr>bc_ll := ll', bc_idx := (bc_idx c)(k \<mapsto> el), bc_bytes := bc_bytes c + int (length data)\<rparr>"
    have "bc_add k data c = bc_evict_loop ?c"
      using None push fits by (simp add: bc_add_def)
    moreover have "indexed be_key ll' ((bc_idx c)(k \<mapsto> el))" "entries ll' = ?new # others be_key k (bc_entries c)"
      using indexed_miss [OF ix _ push] None by (simp_all add: bc_entries_def)
    moreover have "others be_key k (bc_entries c) = bc_entries c"
      using indexed_None [OF ix, of k] None by (intro others_absent) (simp add: bc_entries_def entry_for_None)
    moreover from calculation(2-4) have "bc_wf ?c"
      using wf by (simp add: bc_wf_def bc_entries_def be_size_def)
    ultimately show ?thesis
      by (intro exI [of _ ?c]) (simp add: bc_entries_def lru_put_def)
  next
    case (Some el)
    note ix = bc_wf_D(1) [OF wf]
    obtain e where e: "entry_for be_key k (bc_entries c) = Some e" "be_key e = k"
        and val: "Value (MoveToFront el (bc_ll c)) el = Some e"
      unfolding bc_entries_def by (rule indexed_hit [OF ix Some])
    let ?ll = "SetValue el ?new (MoveToFront el (bc_ll c))"
    have new: "e\<lparr>be_data := data\<rparr> = ?new"
      using e(2) by simp
    let ?c = "c\<lparr>bc_bytes := bc_bytes c + (int (length data) - int (length (be_data e))), bc_ll := ?ll\<rparr>"
    have add: "bc_add k data c = bc_evict_loop ?c"
      using Some val fits by (simp add: bc_add_def Let_def new)
    have sv: "indexed be_key ?ll (bc_idx c)" and ent: "entries ?ll = ?new # others be_key k (bc_entries c)"
      using indexed_refresh [OF ix, of ?new] Some by (simp_all add: bc_entries_def)
    have "sum_list (map be_size (others be_key k (bc_entries c))) = bc_bytes c - be_size e"
      using sum_others [OF bc_wf_D(2) [OF wf] e(1), of be_size] bc_wf_D(3) [OF wf] by simp
    then have "bc_wf ?c"
      using wf sv ent e(2) by (simp add: bc_wf_def bc_entries_def be_size_def)
    with add ent show ?thesis
      by (intro exI [of _ ?c]) (simp add: bc_entries_def lru_put_def)
  qed
  with bc_evict_loop_spec show ?thesis by metis
qed

lemma bc_add_oversize: "bc_bytesCap c < int (length data) \<Longrightarrow> bc_add k data c = Some c"
  by (simp add: bc_add_def)

subsection \<open>The contract holds\<close>

definition bc_lookup :: "blobCache \<Rightarrow> string \<Rightarrow> bytes option" where
  "bc_lookup c = cached be_key be_data (bc_entries c)"

definition bc_fits :: "blobCache \<Rightarrow> bytes \<Rightarrow> bool" where
  "bc_fits c data \<longleftrightarrow> int (length data) \<le> bc_bytesCap c"

lemma bc_get_invar: "bc_invar c \<Longrightarrow> bc_invar (snd (bc_get k c))"
  using bc_get_spec [of c k] by (simp add: bc_invar_def)

lemma bc_lookup_get: "bc_wf c \<Longrightarrow> bc_lookup (snd (bc_get k c)) = bc_lookup c"
  using bc_get_spec [of c k] cached_touch [OF bc_wf_D(2), of c be_data k] by (simp add: bc_lookup_def)

lemma bc_lookup_add:
  assumes inv: "bc_invar c"
  shows "\<exists>c'. bc_add k data c = Some c' \<and> bc_invar c' \<and> bc_bytesCap c' = bc_bytesCap c \<and>
    (\<forall>q w. bc_lookup c' q = Some w \<longrightarrow> bc_lookup c q = Some w \<or> q = k \<and> w = data) \<and>
    (bc_fits c data \<longrightarrow> bc_lookup c' k = Some data)"
proof (cases "bc_fits c data")
  case False
  then show ?thesis
    using inv bc_add_oversize [of c data k] by (auto simp: bc_fits_def)
next
  case True
  let ?new = "\<lparr>be_key = k, be_data = data\<rparr>"
  let ?over = "over_bytes (bc_bytesCap c)"
  have "\<not> ?over [?new]"
    using True by (simp add: over_bytes_def bc_fits_def be_size_def)
  then have "\<exists>ys. shrink 0 ?over (lru_put be_key ?new (bc_entries c)) = ?new # ys"
    unfolding lru_put_def by (intro shrink_newest) simp
  moreover obtain c' where "bc_add k data c = Some c'" "bc_invar c'" "bc_bytesCap c' = bc_bytesCap c"
      "bc_entries c' = shrink 0 ?over (lru_put be_key ?new (bc_entries c))"
    using bc_add_spec [OF bc_invar_wf [OF inv], of data k] True by (auto simp: bc_fits_def)
  ultimately show ?thesis
    using cached_after_put [of be_key be_data 0 ?over ?new "bc_entries c"]
    by (auto simp: bc_lookup_def cached_Cons)
qed

interpretation bc: lru_cache bc_invar bc_lookup bc_get bc_add bc_fits
proof
  fix c k v
  assume inv: "bc_invar c"
  show "fst (bc_get k c) = bc_lookup c k"
    using bc_get_spec [OF bc_invar_wf [OF inv]] by (simp add: bc_lookup_def)
  show "bc_invar (snd (bc_get k c))"
    by (rule bc_get_invar [OF inv])
  show "bc_lookup (snd (bc_get k c)) = bc_lookup c"
    by (rule bc_lookup_get [OF bc_invar_wf [OF inv]])
  show "\<exists>c'. bc_add k v c = Some c' \<and> bc_invar c' \<and>
      (\<forall>q w. bc_lookup c' q = Some w \<longrightarrow> bc_lookup c q = Some w \<or> q = k \<and> w = v) \<and>
      (bc_fits c v \<longrightarrow> bc_lookup c' k = Some v)"
    using bc_lookup_add [OF inv, of k v] by blast
qed

lemma newBlobCache_invar: "0 \<le> cap \<Longrightarrow> bc_invar (newBlobCache cap) \<and> bc_entries (newBlobCache cap) = []"
  by (auto simp: bc_invar_def bc_wf_def bc_entries_def newBlobCache_def indexed_new)


subsection \<open>The caching store\<close>

definition DefaultMaxCacheableBlobBytes :: int where
  "DefaultMaxCacheableBlobBytes = 2 ^ 20"

record 's CachingStore =
  cs_inner :: 's
  cs_cache :: blobCache
  cs_maxBlobBytes :: int

text \<open>What \<^verbatim>\<open>NewCachingStore\<close> returns: the store it was given, or the wrapper.\<close>

datatype 's Store = Unwrapped 's | Caching "'s CachingStore"

definition NewCachingStore :: "'s \<Rightarrow> int \<Rightarrow> int \<Rightarrow> 's Store" where
  "NewCachingStore inner totalBytes maxBlobBytes0 =
     (if totalBytes \<le> 0 then Unwrapped inner
      else
        (let maxBlobBytes = (if maxBlobBytes0 \<le> 0 then DefaultMaxCacheableBlobBytes else maxBlobBytes0)
         in Caching \<lparr>cs_inner = inner, cs_cache = newBlobCache totalBytes, cs_maxBlobBytes = maxBlobBytes\<rparr>))"

definition isBlobKey :: "string \<Rightarrow> bool" where
  "isBlobKey k = Contains k ''/blobs/''"

definition CachingStore_Get ::
  "(string \<Rightarrow> 's \<Rightarrow> (store_error + reader) \<times> 's) \<Rightarrow> string \<Rightarrow> 's CachingStore \<Rightarrow>
   ((store_error + reader) \<times> 's CachingStore) option" where
  "CachingStore_Get inner_Get k c0 =
     (if \<not> isBlobKey k then
        (case inner_Get k (cs_inner c0) of (res, s) \<Rightarrow> Some (res, c0\<lparr>cs_inner := s\<rparr>))
      else
        (case bc_get k (cs_cache c0) of
           (Some data, bc) \<Rightarrow> Some (Inr (bytesReader data), c0\<lparr>cs_cache := bc\<rparr>)
         | (None, bc) \<Rightarrow>
             (let c1 = c0\<lparr>cs_cache := bc\<rparr> in
              case inner_Get k (cs_inner c1) of
                (Inl err, s) \<Rightarrow> Some (Inl err, c1\<lparr>cs_inner := s\<rparr>)
              | (Inr rc, s) \<Rightarrow>
                  (let c2 = c1\<lparr>cs_inner := s\<rparr> in
                   case rd_size rc of
                     None \<Rightarrow> Some (Inr rc, c2)
                   | Some n \<Rightarrow>
                       if n < 0 \<or> cs_maxBlobBytes c2 < n then Some (Inr rc, c2)
                       else
                         (case ReadFull rc (nat n) of
                            Inl err \<Rightarrow> Some (Inl err, c2)
                          | Inr data \<Rightarrow>
                              (case bc_add k data (cs_cache c2) of
                                 None \<Rightarrow> None
                               | Some bc' \<Rightarrow> Some (Inr (bytesReader data), c2\<lparr>cs_cache := bc'\<rparr>)))))))"

definition CachingStore_Stat :: "(string \<Rightarrow> 's \<Rightarrow> (store_error + Attrs) \<times> 's) \<Rightarrow> string \<Rightarrow> 's CachingStore \<Rightarrow>
   (store_error + Attrs) \<times> 's CachingStore" where
  "CachingStore_Stat inner_Stat k c = (case inner_Stat k (cs_inner c) of (r, s) \<Rightarrow> (r, c\<lparr>cs_inner := s\<rparr>))"

definition CachingStore_Exists :: "(string \<Rightarrow> 's \<Rightarrow> (store_error + bool) \<times> 's) \<Rightarrow> string \<Rightarrow> 's CachingStore \<Rightarrow>
   (store_error + bool) \<times> 's CachingStore" where
  "CachingStore_Exists inner_Exists k c = (case inner_Exists k (cs_inner c) of (r, s) \<Rightarrow> (r, c\<lparr>cs_inner := s\<rparr>))"

text \<open>The wrapper as a store operation; \<open>the\<close> is justified by \<open>caching_Get_returns\<close> below.\<close>

definition cs_Get where
  "cs_Get inner_Get k c = the (CachingStore_Get inner_Get k c)"

definition cs_objs :: "('s \<Rightarrow> string \<Rightarrow> bytes option) \<Rightarrow> 's CachingStore \<Rightarrow> string \<Rightarrow> bytes option" where
  "cs_objs objs c = objs (cs_inner c)"

text \<open>The inner store's invariant, the cache's, and that every cached blob is the stored one, is of
  cacheable size and is under a blob key.\<close>

definition cs_invar :: "('s \<Rightarrow> bool) \<Rightarrow> ('s \<Rightarrow> string \<Rightarrow> bytes option) \<Rightarrow> 's CachingStore \<Rightarrow> bool" where
  "cs_invar iv objs c \<longleftrightarrow> iv (cs_inner c) \<and> bc_invar (cs_cache c) \<and>
     (\<forall>k d. bc_lookup (cs_cache c) k = Some d \<longrightarrow>
        objs (cs_inner c) k = Some d \<and> int (length d) \<le> cs_maxBlobBytes c \<and> isBlobKey k)"

context object_store
begin

text \<open>One \<^verbatim>\<open>Get\<close> of the wrapper, on every branch.\<close>

lemma caching_Get:
  assumes cinv: "cs_invar invar objs c"
  shows "\<exists>res c'. CachingStore_Get get k c = Some (res, c') \<and> cs_invar invar objs c' \<and>
     objs (cs_inner c') = objs (cs_inner c) \<and> cs_maxBlobBytes c' = cs_maxBlobBytes c \<and>
     bc_bytesCap (cs_cache c') = bc_bytesCap (cs_cache c) \<and>
     (\<forall>r. res = Inr r \<longrightarrow> (\<exists>d. objs (cs_inner c) k = Some d \<and> delivers r d)) \<and>
     (\<forall>e. res = Inl e \<longrightarrow> is_NotExist e \<longrightarrow> objs (cs_inner c) k = None)"
proof -
  let ?o = "objs (cs_inner c)"
  have iv: "invar (cs_inner c)" and bci: "bc_invar (cs_cache c)"
    and coh: "\<And>q d. bc_lookup (cs_cache c) q = Some d \<Longrightarrow> ?o q = Some d \<and> int (length d) \<le> cs_maxBlobBytes c \<and> isBlobKey q"
    using cinv by (auto simp: cs_invar_def)
  obtain res s' where g: "get k (cs_inner c) = (res, s')" by fastforce
  note st = get_step [OF iv g]
  have sound: "\<exists>d. ?o k = Some d \<and> delivers r d" if "res = Inr r" for r
    using get_sound [OF iv, of k r] g that by simp
  have absent: "?o k = None" if "res = Inl e" "is_NotExist e" for e
    using get_absent [OF iv, of k e] g that by simp
  obtain hit bc' where bg: "bc_get k (cs_cache c) = (hit, bc')" by fastforce
  have bc': "bc_invar bc'" "bc_lookup bc' = bc_lookup (cs_cache c)" "hit = bc_lookup (cs_cache c) k"
      "bc_bytesCap bc' = bc_bytesCap (cs_cache c)"
    using bc.get_invar [OF bci, of k] bc.get_lookup [OF bci, of k] bc.get_value [OF bci, of k]
      bc_get_spec [OF bc_invar_wf [OF bci], of k] bg by auto
  have pass: "cs_invar invar objs (c\<lparr>cs_cache := bc', cs_inner := s'\<rparr>)"
    "cs_invar invar objs (c\<lparr>cs_inner := s'\<rparr>)" "cs_invar invar objs (c\<lparr>cs_cache := bc'\<rparr>)"
    using st iv bci bc' coh by (auto simp: cs_invar_def)
  show ?thesis
  proof (cases "isBlobKey k")
    case False
    then show ?thesis
      using g pass(2) st bci sound absent by (simp add: CachingStore_Get_def)
  next
    case blob: True
    show ?thesis
    proof (cases hit)
      case (Some d)
      then have "?o k = Some d" using coh bc' by simp
      then show ?thesis
        using blob bg Some pass(3) bc' by (simp add: CachingStore_Get_def delivers_bytesReader)
    next
      case miss: None
      show ?thesis
      proof (cases res)
        case (Inl e)
        then show ?thesis
          using blob bg miss g pass(1) st bc' absent by (simp add: CachingStore_Get_def)
      next
        case (Inr r)
        show ?thesis
        proof (cases "\<exists>n. rd_size r = Some n \<and> 0 \<le> n \<and> n \<le> cs_maxBlobBytes c")
          case False
          then have "CachingStore_Get get k c = Some (Inr r, c\<lparr>cs_cache := bc', cs_inner := s'\<rparr>)"
            using blob bg miss g Inr by (cases "rd_size r") (auto simp: CachingStore_Get_def Let_def)
          then show ?thesis using pass(1) st bc' sound Inr by simp
        next
          case True
          then obtain n where n: "rd_size r = Some n" "0 \<le> n" "n \<le> cs_maxBlobBytes c" by blast
          show ?thesis
          proof (cases "ReadFull r (nat n)")
            case (Inl e)
            then have "\<not> is_NotExist e"
              using sound [OF \<open>res = Inr r\<close>] delivers_ReadFull_error by blast
            moreover have "CachingStore_Get get k c = Some (Inl e, c\<lparr>cs_cache := bc', cs_inner := s'\<rparr>)"
              using blob bg miss g \<open>res = Inr r\<close> n Inl by (simp add: CachingStore_Get_def Let_def)
            ultimately show ?thesis using pass(1) st bc' by simp
          next
            case data: (Inr data)
            obtain d where d: "?o k = Some d" "delivers r d" using sound Inr by blast
            then have "data = d" using delivers_ReadFull n data by blast
            moreover have "n = int (length d)"
              using d(2) n(1,2) by (auto simp: delivers_def)
            moreover obtain bc'' where add: "bc_add k data bc' = Some bc''" "bc_invar bc''"
                "bc_bytesCap bc'' = bc_bytesCap bc'"
                "\<forall>q w. bc_lookup bc'' q = Some w \<longrightarrow> bc_lookup bc' q = Some w \<or> q = k \<and> w = data"
              using bc_lookup_add [OF bc'(1), of k data] by blast
            ultimately have "cs_invar invar objs (c\<lparr>cs_cache := bc'', cs_inner := s'\<rparr>)"
              using st d(1) coh bc'(2) n(3) blob by (fastforce simp: cs_invar_def)
            moreover have "CachingStore_Get get k c = Some (Inr (bytesReader data), c\<lparr>cs_cache := bc'', cs_inner := s'\<rparr>)"
              using blob bg miss g Inr n data add by (simp add: CachingStore_Get_def Let_def)
            ultimately show ?thesis
              using st add bc' d(1) \<open>data = d\<close> by (simp add: delivers_bytesReader)
          qed
        qed
      qed
    qed
  qed
qed

lemma caching_Get_cases:
  assumes "cs_invar invar objs c"
  obtains res c' where "CachingStore_Get get k c = Some (res, c')" "cs_invar invar objs c'"
    "objs (cs_inner c') = objs (cs_inner c)" "cs_maxBlobBytes c' = cs_maxBlobBytes c"
    "bc_bytesCap (cs_cache c') = bc_bytesCap (cs_cache c)"
    "\<And>r. res = Inr r \<Longrightarrow> \<exists>d. objs (cs_inner c) k = Some d \<and> delivers r d"
    "\<And>e. res = Inl e \<Longrightarrow> is_NotExist e \<Longrightarrow> objs (cs_inner c) k = None"
  using caching_Get [OF assms, of k] by blast

text \<open>The wrapper is itself a store over the same objects.\<close>

lemma caching_object_store: "object_store (cs_invar invar objs) (cs_objs objs) (cs_Get get)"
proof
  fix c k
  assume "cs_invar invar objs c"
  then obtain res c' where r: "CachingStore_Get get k c = Some (res, c')" "cs_invar invar objs c'"
    "objs (cs_inner c') = objs (cs_inner c)"
    "\<And>r. res = Inr r \<Longrightarrow> \<exists>d. objs (cs_inner c) k = Some d \<and> delivers r d"
    "\<And>e. res = Inl e \<Longrightarrow> is_NotExist e \<Longrightarrow> objs (cs_inner c) k = None"
    using caching_Get [of c k] by blast
  show "cs_invar invar objs (snd (cs_Get get k c))" "cs_objs objs (snd (cs_Get get k c)) = cs_objs objs c"
    using r by (simp_all add: cs_Get_def cs_objs_def)
  show "\<exists>d. cs_objs objs c k = Some d \<and> delivers r d" if "fst (cs_Get get k c) = Inr r" for r
    using that r by (simp add: cs_Get_def cs_objs_def)
  show "cs_objs objs c k = None" if "fst (cs_Get get k c) = Inl e" "is_NotExist e" for e
    using that r by (simp add: cs_Get_def cs_objs_def)
qed

end

context reliable_store
begin

lemma get_value: "invar s \<Longrightarrow> objs s k = Some d \<Longrightarrow> fst (get k s) = Inr (bytesReader d)"
  using get_result [of s k] by simp

text \<open>Over a store without failures a read answers what the inner store answers, cached or not.\<close>

lemma get_transparent:
  assumes cinv: "cs_invar invar objs c"
  shows "\<exists>c'. CachingStore_Get get k c = Some (fst (get k (cs_inner c)), c')"
proof -
  have iv: "invar (cs_inner c)" and bci: "bc_invar (cs_cache c)"
    using cinv by (auto simp: cs_invar_def)
  obtain res c' where r: "CachingStore_Get get k c = Some (res, c')"
    by (rule caching_Get_cases [OF cinv, of k])
  obtain hit bc' where bg: "bc_get k (cs_cache c) = (hit, bc')" by fastforce
  then have hit: "hit = bc_lookup (cs_cache c) k" "bc_invar bc'"
    using bc.get_value [OF bci, of k] bc.get_invar [OF bci, of k] by auto
  show ?thesis
  proof (cases "isBlobKey k \<and> hit = None")
    case False
    show ?thesis
    proof (cases "isBlobKey k")
      case True
      with False obtain d where d: "hit = Some d" by auto
      with hit(1) have "bc_lookup (cs_cache c) k = Some d" by simp
      with cinv have "objs (cs_inner c) k = Some d" unfolding cs_invar_def by blast
      with d True bg get_value [OF iv] show ?thesis by (simp add: CachingStore_Get_def)
    qed (simp add: CachingStore_Get_def split: prod.split)
  next
    case miss: True
    show ?thesis
    proof (cases "objs (cs_inner c) k")
      case None
      with get_missing [OF iv] obtain e where "fst (get k (cs_inner c)) = Inl e" by blast
      then show ?thesis
        using miss bg by (cases "get k (cs_inner c)") (simp add: CachingStore_Get_def)
    next
      case (Some d)
      with get_value [OF iv] have g: "fst (get k (cs_inner c)) = Inr (bytesReader d)" by blast
      obtain bc'' where "bc_add k d bc' = Some bc''"
        using bc_lookup_add [OF hit(2)] by blast
      with g miss bg show ?thesis
        by (cases "get k (cs_inner c)") (simp add: CachingStore_Get_def bytesReader_def ReadFull_def Let_def)
    qed
  qed
qed

lemma caching_reliable_store: "reliable_store (cs_invar invar objs) (cs_objs objs) (cs_Get get)"
proof (rule reliable_store.intro [OF caching_object_store], unfold_locales)
  fix c k
  assume cinv: "cs_invar invar objs c"
  then have iv: "invar (cs_inner c)" by (simp add: cs_invar_def)
  obtain c' where g: "CachingStore_Get get k c = Some (fst (get k (cs_inner c)), c')"
    using get_transparent [OF cinv] by blast
  show "\<exists>r. fst (cs_Get get k c) = Inr r \<and> rd_data r = d \<and> rd_err r = None \<and> rd_size r = Some (int (length d))"
    if "cs_objs objs c k = Some d" for d
    using that g get_present [OF iv, of k d] by (simp add: cs_Get_def cs_objs_def)
  show "\<exists>e. fst (cs_Get get k c) = Inl e \<and> is_NotExist e" if "cs_objs objs c k = None"
    using that g get_missing [OF iv, of k] by (simp add: cs_Get_def cs_objs_def)
qed

end

text \<open>The wrapped fake: the composition the package's own tests run.\<close>

interpretation cached_fake: reliable_store "cs_invar (\<lambda>_. True) fake_objs" "cs_objs fake_objs" "cs_Get fake_Get"
  by (rule fake.caching_reliable_store)

subsection \<open>Histories of the caching store\<close>

fun cs_run :: "(string \<Rightarrow> 's \<Rightarrow> (store_error + reader) \<times> 's) \<Rightarrow> string list \<Rightarrow> 's CachingStore \<Rightarrow>
   ((store_error + reader) list \<times> 's CachingStore) option" where
  "cs_run g [] c = Some ([], c)"
| "cs_run g (k # ks) c =
     (case CachingStore_Get g k c of
        None \<Rightarrow> None
      | Some (r, c') \<Rightarrow> map_option (\<lambda>(rs, c''). (r # rs, c'')) (cs_run g ks c'))"

context object_store
begin

lemma cs_run_invar:
  "cs_invar invar objs c \<Longrightarrow> \<exists>rs c'. cs_run get ks c = Some (rs, c') \<and> cs_invar invar objs c' \<and>
     objs (cs_inner c') = objs (cs_inner c) \<and> cs_maxBlobBytes c' = cs_maxBlobBytes c \<and>
     bc_bytesCap (cs_cache c') = bc_bytesCap (cs_cache c)"
proof (induction ks arbitrary: c)
  case (Cons k ks)
  obtain res c1 where "CachingStore_Get get k c = Some (res, c1)" "cs_invar invar objs c1"
    "objs (cs_inner c1) = objs (cs_inner c)" "cs_maxBlobBytes c1 = cs_maxBlobBytes c"
    "bc_bytesCap (cs_cache c1) = bc_bytesCap (cs_cache c)"
    by (rule caching_Get_cases [OF Cons.prems, of k])
  with Cons.IH [of c1] show ?case by fastforce
qed simp

lemma new_caching_invar:
  assumes "invar s" "0 < budget"
  obtains c where "NewCachingStore s budget maxb = Caching c" "cs_invar invar objs c" "cs_inner c = s"
    "bc_bytesCap (cs_cache c) = budget"
    "cs_maxBlobBytes c = (if maxb \<le> 0 then DefaultMaxCacheableBlobBytes else maxb)"
proof -
  have "cached be_key be_data [] = Map.empty"
    by (simp add: cached_def entry_for_def fun_eq_iff)
  then have "bc_lookup (newBlobCache budget) = Map.empty" "bc_invar (newBlobCache budget)"
    using newBlobCache_invar [of budget] assms(2) by (simp_all add: bc_lookup_def)
  with assms that show ?thesis
    by (simp add: NewCachingStore_def Let_def cs_invar_def newBlobCache_def)
qed

end


subsection \<open>The store NewCachingStore returns\<close>

text \<open>A call through the interface: to the wrapper or straight to the store.\<close>

definition store_Get :: "(string \<Rightarrow> 's \<Rightarrow> (store_error + reader) \<times> 's) \<Rightarrow> string \<Rightarrow> 's Store \<Rightarrow>
   (store_error + reader) \<times> 's Store" where
  "store_Get g k st =
     (case st of
        Unwrapped s \<Rightarrow> (case g k s of (r, s') \<Rightarrow> (r, Unwrapped s'))
      | Caching c \<Rightarrow> (case cs_Get g k c of (r, c') \<Rightarrow> (r, Caching c')))"

definition store_objs :: "('s \<Rightarrow> string \<Rightarrow> bytes option) \<Rightarrow> 's Store \<Rightarrow> string \<Rightarrow> bytes option" where
  "store_objs objs st = (case st of Unwrapped s \<Rightarrow> objs s | Caching c \<Rightarrow> cs_objs objs c)"

definition store_invar :: "('s \<Rightarrow> bool) \<Rightarrow> ('s \<Rightarrow> string \<Rightarrow> bytes option) \<Rightarrow> 's Store \<Rightarrow> bool" where
  "store_invar iv objs st = (case st of Unwrapped s \<Rightarrow> iv s | Caching c \<Rightarrow> cs_invar iv objs c)"

lemma store_Get_simps [simp]:
  "fst (store_Get g k (Unwrapped s)) = fst (g k s)" "snd (store_Get g k (Unwrapped s)) = Unwrapped (snd (g k s))"
  "fst (store_Get g k (Caching c)) = fst (cs_Get g k c)" "snd (store_Get g k (Caching c)) = Caching (snd (cs_Get g k c))"
  "store_objs objs (Unwrapped s) = objs s" "store_objs objs (Caching c) = cs_objs objs c"
  "store_invar iv objs (Unwrapped s) = iv s" "store_invar iv objs (Caching c) = cs_invar iv objs c"
  by (simp_all add: store_Get_def store_objs_def store_invar_def split: prod.split)

text \<open>Whichever it is, it keeps the contract the store itself keeps.\<close>

lemma store_Get_object_store:
  assumes a: "object_store iv objs g"
  shows "object_store (store_invar iv objs) (store_objs objs) (store_Get g)"
proof
  note c = object_store.caching_object_store [OF a]
  fix st k
  assume iv: "store_invar iv objs st"
  show "store_invar iv objs (snd (store_Get g k st))"
    using iv object_store.get_invar [OF a] object_store.get_invar [OF c] by (cases st) simp_all
  show "store_objs objs (snd (store_Get g k st)) = store_objs objs st"
    using iv object_store.get_objs [OF a] object_store.get_objs [OF c] by (cases st) simp_all
  show "\<exists>d. store_objs objs st k = Some d \<and> delivers r d" if "fst (store_Get g k st) = Inr r" for r
    using iv that object_store.get_sound [OF a] object_store.get_sound [OF c] by (cases st) simp_all
  show "store_objs objs st k = None" if "fst (store_Get g k st) = Inl e" "is_NotExist e" for e
    using iv that object_store.get_absent [OF a] object_store.get_absent [OF c] by (cases st) simp_all
qed

lemma store_Get_reliable_store:
  assumes a: "reliable_store iv objs g"
  shows "reliable_store (store_invar iv objs) (store_objs objs) (store_Get g)"
proof (rule reliable_store.intro [OF store_Get_object_store [OF reliable_store.axioms(1) [OF a]]], unfold_locales)
  note c = reliable_store.caching_reliable_store [OF a]
  fix st k
  assume iv: "store_invar iv objs st"
  show "\<exists>r. fst (store_Get g k st) = Inr r \<and> rd_data r = d \<and> rd_err r = None \<and> rd_size r = Some (int (length d))"
    if "store_objs objs st k = Some d" for d
    using iv that reliable_store.get_present [OF a] reliable_store.get_present [OF c] by (cases st) simp_all
  show "\<exists>e. fst (store_Get g k st) = Inl e \<and> is_NotExist e" if "store_objs objs st k = None"
    using iv that reliable_store.get_missing [OF a] reliable_store.get_missing [OF c] by (cases st) simp_all
qed

lemma NewCachingStore_invar:
  assumes a: "object_store iv objs g" and s: "iv s"
  shows "store_invar iv objs (NewCachingStore s budget maxb) \<and>
    store_objs objs (NewCachingStore s budget maxb) = objs s"
proof (cases "0 < budget")
  case True
  obtain c where "NewCachingStore s budget maxb = Caching c" "cs_invar iv objs c" "cs_inner c = s"
    using object_store.new_caching_invar [OF a s True, of maxb] by blast
  then show ?thesis by (simp add: cs_objs_def)
qed (use s in \<open>simp add: NewCachingStore_def\<close>)

lemma sum_be_size: "sum_list (map be_size xs) = (\<Sum>e\<leftarrow>xs. int (length (be_data e)))"
  by (induction xs) (auto simp: be_size_def)

subsection \<open>Properties\<close>

text \<open>A fake with one small and one large blob, for the witnesses.\<close>

definition demo_fake :: Fake where
  "demo_fake = Put ''sites/a/b/blobs/s'' ''tiny'' ''text/plain'' (Put ''sites/a/b/blobs/l'' ''enormous'' ''text/plain'' NewFake)"

definition demo_cs :: "Fake CachingStore" where
  "demo_cs = \<lparr>cs_inner = demo_fake, cs_cache = newBlobCache 6, cs_maxBlobBytes = 5\<rparr>"

lemma demo_cs_invar: "cs_invar (\<lambda>_. True) fake_objs demo_cs"
proof -
  obtain c where "NewCachingStore demo_fake 6 5 = Caching c" "cs_invar (\<lambda>_. True) fake_objs c"
    using fake.new_caching_invar [where s = demo_fake and budget = 6 and maxb = 5] by auto
  then show ?thesis by (simp add: NewCachingStore_def demo_cs_def)
qed

text \<open>The caching store is a store: over any store that keeps the interface's
  contract the wrapper keeps it too, for the same objects. A cached read delivers exactly the stored
  object, a truncated body is never cached or served as complete, reads change nothing, and absence is
  never reported for an object that is there.\<close>

theorem caching_implements_store:
  assumes "object_store iv objs g"
  shows "object_store (cs_invar iv objs) (cs_objs objs) (cs_Get g)"
  by (rule object_store.caching_object_store [OF assms])

lemma caching_implements_store_witness:
  "object_store (cs_invar (\<lambda>_. True) fake_objs) (cs_objs fake_objs) (cs_Get fake_Get) \<and>
   cs_invar (\<lambda>_. True) fake_objs demo_cs"
  using caching_implements_store [OF fake.object_store_axioms] demo_cs_invar by blast

text \<open>C15: equivalence. Transparency and termination: over a store without failures of its own, every
  read through the cache returns, and returns the very result the backend would give for that key,
  whatever has been cached or evicted before.\<close>

theorem caching_transparent:
  assumes "reliable_store iv objs g" "cs_invar iv objs c"
  shows "\<exists>c'. CachingStore_Get g k c = Some (fst (g k (cs_inner c)), c')"
  by (rule reliable_store.get_transparent [OF assms])

lemma caching_transparent_witness:
  "\<exists>c'. CachingStore_Get fake_Get ''sites/a/b/blobs/s'' demo_cs = Some (Inr (bytesReader ''tiny''), c')"
proof -
  have "fst (fake_Get ''sites/a/b/blobs/s'' (cs_inner demo_cs)) = Inr (bytesReader ''tiny'')"
    by (simp add: demo_cs_def demo_fake_def fake_Get_def Put_def PutObject_def)
  with caching_transparent [OF fake.reliable_store_axioms demo_cs_invar, of "''sites/a/b/blobs/s''"]
  show ?thesis by simp
qed

text \<open>C16: bounds. However many reads of whatever keys, from a cache built with a positive budget
  every read returns, and what is held stays within bounds: the bodies together within the budget and
  counted exactly, each within the per-blob ceiling, and only under blob keys.\<close>

theorem caching_bounded:
  assumes st: "object_store iv objs g" "iv s" and budget: "0 < budget"
  shows "\<exists>c0 rs c. NewCachingStore s budget maxb = Caching c0 \<and> cs_run g ks c0 = Some (rs, c) \<and>
     bc_bytes (cs_cache c) = (\<Sum>e\<leftarrow>bc_entries (cs_cache c). int (length (be_data e))) \<and>
     bc_bytes (cs_cache c) \<le> budget \<and>
     list_all (\<lambda>e. isBlobKey (be_key e) \<and>
       int (length (be_data e)) \<le> (if maxb \<le> 0 then DefaultMaxCacheableBlobBytes else maxb)) (bc_entries (cs_cache c))"
proof -
  obtain c0 where c0: "NewCachingStore s budget maxb = Caching c0" "cs_invar iv objs c0"
      "bc_bytesCap (cs_cache c0) = budget"
      "cs_maxBlobBytes c0 = (if maxb \<le> 0 then DefaultMaxCacheableBlobBytes else maxb)"
    using object_store.new_caching_invar [OF st budget] by metis
  then obtain rs c where c: "cs_run g ks c0 = Some (rs, c)" "cs_invar iv objs c"
      "cs_maxBlobBytes c = cs_maxBlobBytes c0" "bc_bytesCap (cs_cache c) = budget"
    using object_store.cs_run_invar [OF st(1) c0(2), of ks] by auto
  have wf: "bc_wf (cs_cache c)" and le: "bc_bytes (cs_cache c) \<le> budget"
    using c(2,4) by (auto simp: cs_invar_def bc_invar_def)
  have "isBlobKey (be_key e) \<and> int (length (be_data e)) \<le> cs_maxBlobBytes c" if "e \<in> set (bc_entries (cs_cache c))" for e
  proof -
    have "bc_lookup (cs_cache c) (be_key e) = Some (be_data e)"
      using entry_for_unique [OF bc_wf_D(2) [OF wf] that] by (simp add: bc_lookup_def cached_def)
    with c(2) show ?thesis unfolding cs_invar_def by blast
  qed
  then have "list_all (\<lambda>e. isBlobKey (be_key e) \<and>
       int (length (be_data e)) \<le> (if maxb \<le> 0 then DefaultMaxCacheableBlobBytes else maxb)) (bc_entries (cs_cache c))"
    using c(3) c0(4) by (auto simp: list_all_iff)
  moreover have "bc_bytes (cs_cache c) = (\<Sum>e\<leftarrow>bc_entries (cs_cache c). int (length (be_data e)))"
    using bc_wf_D(3) [OF wf] by (simp add: sum_be_size)
  ultimately show ?thesis using c0(1) c(1) le by blast
qed

lemma caching_bounded_witness:
  "\<exists>c0 rs c. NewCachingStore demo_fake 6 5 = Caching c0 \<and>
     cs_run fake_Get [''sites/a/b/blobs/s'', ''sites/a/b/blobs/l'', ''sites/a/b/blobs/s''] c0 = Some (rs, c) \<and>
     bc_bytes (cs_cache c) \<le> 6"
proof -
  have "(0::int) < 6" by simp
  from caching_bounded [OF fake.object_store_axioms TrueI this, of demo_fake 5
      "[''sites/a/b/blobs/s'', ''sites/a/b/blobs/l'', ''sites/a/b/blobs/s'']"]
  show ?thesis by blast
qed

text \<open>A hit skips the backend: once a blob that fits has been read, the next read of
  it delivers the same bytes and leaves the inner store untouched.\<close>

theorem caching_hit_skips_backend:
  assumes st: "reliable_store iv objs g" and cinv: "cs_invar iv objs c" and k: "isBlobKey k"
    and d: "objs (cs_inner c) k = Some d"
    and fits: "int (length d) \<le> cs_maxBlobBytes c" "int (length d) \<le> bc_bytesCap (cs_cache c)"
  shows "\<exists>c1 c2. CachingStore_Get g k c = Some (Inr (bytesReader d), c1) \<and>
     CachingStore_Get g k c1 = Some (Inr (bytesReader d), c2) \<and> cs_inner c2 = cs_inner c1"
proof -
  have iv: "iv (cs_inner c)" and bci: "bc_invar (cs_cache c)"
    using cinv by (auto simp: cs_invar_def)
  obtain hit bc' where bg: "bc_get k (cs_cache c) = (hit, bc')" by fastforce
  then have hit: "hit = bc_lookup (cs_cache c) k" "bc_invar bc'" "bc_lookup bc' = bc_lookup (cs_cache c)"
      "bc_bytesCap bc' = bc_bytesCap (cs_cache c)"
    using bc.get_value [OF bci, of k] bc.get_invar [OF bci, of k] bc.get_lookup [OF bci, of k]
      bc_get_spec [OF bc_invar_wf [OF bci], of k] by auto
  have again: "\<exists>c2. CachingStore_Get g k c1 = Some (Inr (bytesReader d), c2) \<and> cs_inner c2 = cs_inner c1"
    if "bc_invar (cs_cache c1)" "bc_lookup (cs_cache c1) k = Some d" for c1
    using bc.get_value [OF that(1), of k] that(2) k
    by (cases "bc_get k (cs_cache c1)") (simp add: CachingStore_Get_def)
  show ?thesis
  proof (cases hit)
    case (Some d')
    then have "bc_lookup (cs_cache c) k = Some d'" using hit(1) by simp
    moreover from this have "d' = d" using cinv d unfolding cs_invar_def by (metis option.inject)
    ultimately show ?thesis
      using again [of "c\<lparr>cs_cache := bc'\<rparr>"] hit Some bg k by (simp add: CachingStore_Get_def)
  next
    case None
    obtain s' where g: "g k (cs_inner c) = (Inr (bytesReader d), s')"
      using reliable_store.get_value [OF st iv d] by (metis prod.collapse)
    obtain bc'' where add: "bc_add k d bc' = Some bc''" "bc_invar bc''" "bc_lookup bc'' k = Some d"
      using bc_lookup_add [OF hit(2), of k d] fits(2) hit(4) by (auto simp: bc_fits_def)
    have "CachingStore_Get g k c = Some (Inr (bytesReader d), c\<lparr>cs_cache := bc'', cs_inner := s'\<rparr>)"
      using None bg g k fits(1) add by (simp add: CachingStore_Get_def bytesReader_def ReadFull_def Let_def)
    with again [of "c\<lparr>cs_cache := bc'', cs_inner := s'\<rparr>"] add show ?thesis by simp
  qed
qed

lemma caching_hit_skips_backend_witness:
  "\<exists>c1 c2. CachingStore_Get fake_Get ''sites/a/b/blobs/s'' demo_cs = Some (Inr (bytesReader ''tiny''), c1) \<and>
     CachingStore_Get fake_Get ''sites/a/b/blobs/s'' c1 = Some (Inr (bytesReader ''tiny''), c2) \<and>
     cs_inner c2 = cs_inner c1"
proof -
  have "isBlobKey ''sites/a/b/blobs/s''" by code_simp
  moreover have "fake_objs (cs_inner demo_cs) ''sites/a/b/blobs/s'' = Some ''tiny''"
    by (simp add: demo_cs_def demo_fake_def fake_objs_def Put_def PutObject_def)
  moreover have "int (length ''tiny'') \<le> cs_maxBlobBytes demo_cs" "int (length ''tiny'') \<le> bc_bytesCap (cs_cache demo_cs)"
    by (simp_all add: demo_cs_def newBlobCache_def)
  ultimately show ?thesis
    by (rule caching_hit_skips_backend [OF fake.reliable_store_axioms demo_cs_invar])
qed

text \<open>An element of a slash-separated key is what the blob test looks for.\<close>

lemma isBlobKey_elements:
  "isBlobKey k \<longleftrightarrow> (\<exists>A B. A \<noteq> [] \<and> B \<noteq> [] \<and> Split slash k = A @ ''blobs'' # B)"
proof
  assume "isBlobKey k"
  then obtain a b where k: "k = a @ slash # ''blobs'' @ slash # b"
    by (auto simp: isBlobKey_def Contains_iff)
  have "Split slash k = Split slash a @ ''blobs'' # Split slash b"
    using Split_append_sep [of slash a "''blobs'' @ slash # b"] Split_append [of slash "''blobs''" b]
    unfolding k by simp
  then show "\<exists>A B. A \<noteq> [] \<and> B \<noteq> [] \<and> Split slash k = A @ ''blobs'' # B"
    by (metis Split_not_Nil)
next
  assume "\<exists>A B. A \<noteq> [] \<and> B \<noteq> [] \<and> Split slash k = A @ ''blobs'' # B"
  then obtain A B where AB: "A \<noteq> []" "B \<noteq> []" "Split slash k = A @ ''blobs'' # B" by blast
  then have "k = join_sep slash (A @ ''blobs'' # B)"
    by (metis join_Split)
  also have "\<dots> = join_sep slash A @ ''/blobs/'' @ join_sep slash B"
    using AB(1,2) by (simp add: join_sep_append join_sep_Cons)
  finally show "isBlobKey k"
    by (auto simp: isBlobKey_def Contains_iff)
qed

text \<open>What the cache takes for a blob: every well-named blob key, and a manifest key
  exactly when the project or the site is itself named \<^verbatim>\<open>blobs\<close>; for such a site manifest reads do not
  pass through but are cached as blobs.\<close>

theorem isBlobKey_of_keys:
  assumes "norm_seg p" "norm_seg n" "norm_seg x"
  shows "isBlobKey (BlobKey p n x) \<and> (isBlobKey (ManifestKey p n x) \<longleftrightarrow> p = ''blobs'' \<or> n = ''blobs'')"
proof -
  have sp: "Split slash (Join [''sites'', p, n, k, x]) = [''sites'', p, n, k, x]" if "norm_seg k" for k
  proof -
    have norm: "\<forall>e \<in> set [''sites'', p, n, k, x]. norm_seg e"
      using assms that by simp
    then have "Join [''sites'', p, n, k, x] = join_sep slash [''sites'', p, n, k, x]"
      by (intro Join_norm) simp
    moreover have "Split slash (join_sep slash [''sites'', p, n, k, x]) = [''sites'', p, n, k, x]"
      using norm by (intro Split_join) (auto simp only: norm_seg_def)
    ultimately show ?thesis by metis
  qed
  have "isBlobKey (BlobKey p n x)"
    unfolding isBlobKey_elements BlobKey_def sp [OF norm_seg_names(3)]
    by (intro exI [of _ "[''sites'', p, n]"] exI [of _ "[x]"]) simp
  moreover have "isBlobKey (ManifestKey p n x) \<longleftrightarrow> p = ''blobs'' \<or> n = ''blobs''"
    unfolding isBlobKey_elements ManifestKey_def sp [OF norm_seg_names(2)]
    by (auto simp: Cons_eq_append_conv append_eq_Cons_conv intro: exI [of _ "[''sites'']"] exI [of _ "[''sites'', p]"])
  ultimately show ?thesis by blast
qed

lemma isBlobKey_of_keys_witness:
  "isBlobKey (ManifestKey ''acme'' ''blobs'' ''r1'') \<and> \<not> isBlobKey (ManifestKey ''acme'' ''docs'' ''r1'')"
proof -
  have "norm_seg ''acme''" "norm_seg ''blobs''" "norm_seg ''docs''" "norm_seg ''r1''"
    by (simp_all add: norm_seg_def dots_def)
  with isBlobKey_of_keys [of "''acme''" "''blobs''" "''r1''"] isBlobKey_of_keys [of "''acme''" "''docs''" "''r1''"]
  show ?thesis by simp
qed

end
