(* ===== verification/ServerSpec.thy ===== *)
theory ServerSpec
  imports Server BlobCache
begin

section \<open>What a gateway response is\<close>

text \<open>
  The abstract specification of the handler: \<open>ideal\<close> gives the response to a request as a function of
  the objects stored and the request alone, with no cache, no store state and no metrics. The
  simulation shows that the handler of \<^verbatim>\<open>server.go\<close>, with its manifest cache and any reliable store
  behind it, answers exactly that, and keeps the invariant \<open>world_ok\<close>, for any history of requests.
\<close>

subsection \<open>The specification\<close>

record answer =
  an_Status :: nat
  an_Header :: header
  an_Body :: bytes

definition answer_of :: "response \<Rightarrow> answer" where
  "answer_of w = \<lparr>an_Status = (case rs_Status w of Some c \<Rightarrow> c | None \<Rightarrow> StatusOK), an_Header = rs_Header w,
     an_Body = rs_Body w\<rparr>"

definition blob_header :: "Manifest \<Rightarrow> File \<Rightarrow> header" where
  "blob_header m e k =
     (if k = ''Content-Type'' then (if ContentType e = [] then None else Some (ContentType e))
      else if k = ''Cache-Control'' then Some (CacheControl (Cache e))
      else if k = ''ETag'' then Some (ETag (Blob e))
      else if k = ''X-Content-Type-Options'' then Some ''nosniff''
      else if k = ''X-Frame-Options'' then Some ''DENY''
      else if k = ''X-Robots-Tag'' then
        (if HasPrefix (ContentType e) ''text/html'' \<and> \<not> IsProduction m then Some ''noindex'' else None)
      else if k = ''Last-Modified'' then (if LastModified m = [] then None else Some (LastModified m))
      else None)"

definition as_error :: "header \<Rightarrow> header" where
  "as_error h = h(''Content-Length'' := None, ''Content-Type'' \<mapsto> ''text/plain; charset=utf-8'',
     ''X-Content-Type-Options'' \<mapsto> ''nosniff'')"

text \<open>A body as this request's client gets it.\<close>

definition body_for :: "request \<Rightarrow> nat option \<Rightarrow> bytes \<Rightarrow> bytes" where
  "body_for r room d = (if rq_Method r = MethodHead then [] else received room d)"

definition error_answer :: "request \<Rightarrow> nat option \<Rightarrow> header \<Rightarrow> string \<Rightarrow> nat \<Rightarrow> answer" where
  "error_answer r room h msg code =
     \<lparr>an_Status = code, an_Header = as_error h, an_Body = body_for r room (msg @ newline)\<rparr>"

definition ideal_blob :: "(string \<Rightarrow> gotime option) \<Rightarrow> (string \<Rightarrow> bytes option) \<Rightarrow> nat option \<Rightarrow> request \<Rightarrow> site \<Rightarrow>
   Manifest \<Rightarrow> File \<Rightarrow> nat \<Rightarrow> answer" where
  "ideal_blob pt stored room r s m e status =
     (if status = 200 \<and> conditionalNotModified pt r (ETag (Blob e)) (ModTime m) then
        \<lparr>an_Status = 304, an_Header = blob_header m e, an_Body = []\<rparr>
      else if rq_Method r = MethodHead then
        \<lparr>an_Status = status, an_Header = blob_header m e, an_Body = []\<rparr>
      else case stored (BlobKey (s_project s) (s_name s) (Blob e)) of
        None \<Rightarrow> error_answer r room (blob_header m e) ''blob not found'' 404
      | Some d \<Rightarrow> \<lparr>an_Status = status, an_Header = (blob_header m e)(''Content-Length'' \<mapsto> FormatInt (int (length d))),
          an_Body = received room d\<rparr>)"

definition ideal_not_found :: "(string \<Rightarrow> gotime option) \<Rightarrow> (string \<Rightarrow> bytes option) \<Rightarrow> nat option \<Rightarrow> request \<Rightarrow> site \<Rightarrow>
   Manifest \<Rightarrow> answer" where
  "ideal_not_found pt stored room r s m =
     (if snd (Lookup m (NotFoundDoc m)) then ideal_blob pt stored room r s m (fst (Lookup m (NotFoundDoc m))) 404
      else \<lparr>an_Status = 404,
        an_Header = [''Content-Type'' \<mapsto> ''text/html; charset=utf-8'', ''Cache-Control'' \<mapsto> cacheControlHTML,
          ''X-Content-Type-Options'' \<mapsto> ''nosniff'', ''X-Frame-Options'' \<mapsto> ''DENY'']
          (''X-Robots-Tag'' := if IsProduction m then None else Some ''noindex''),
        an_Body = body_for r room defaultNotFoundBody\<rparr>)"

text \<open>The release a site prefix names, as far as the store holds one.\<close>

definition released :: "('s, 'v) env \<Rightarrow> (string \<Rightarrow> bytes option) \<Rightarrow> string \<Rightarrow> Manifest option" where
  "released env stored k =
     (case stored k of
        None \<Rightarrow> None
      | Some data \<Rightarrow> (case Load (e_rng env) (e_decode env) data of Inl _ \<Rightarrow> None | Inr m \<Rightarrow> Some m))"

definition ideal_site :: "('s, 'v) env \<Rightarrow> (string \<Rightarrow> bytes option) \<Rightarrow> nat option \<Rightarrow> request \<Rightarrow> site \<Rightarrow> Manifest \<Rightarrow> answer" where
  "ideal_site env stored room r s m =
     (case find (\<lambda>p. snd (Lookup m p)) (candidates (s_rest s)) of
        Some p \<Rightarrow> ideal_blob (e_ParseTime env) stored room r s m (fst (Lookup m p)) 200
      | None \<Rightarrow>
          if SPA m \<and> snd (Lookup m indexHTML) then
            ideal_blob (e_ParseTime env) stored room r s m (fst (Lookup m indexHTML)) 200
          else ideal_not_found (e_ParseTime env) stored room r s m)"

definition site_key :: "site \<Rightarrow> string" where
  "site_key s = ManifestKey (s_project s) (s_name s) (s_releaseSHA s)"

definition ideal :: "('s, 'v) env \<Rightarrow> (string \<Rightarrow> bytes option) \<Rightarrow> nat option \<Rightarrow> request \<Rightarrow> answer" where
  "ideal env stored room r =
     (if rq_Method r \<noteq> MethodGet \<and> rq_Method r \<noteq> MethodHead then
        error_answer r room [''Allow'' \<mapsto> ''GET, HEAD''] ''method not allowed'' 405
      else case parseSite (rq_Path r) of
        None \<Rightarrow> error_answer r room Map.empty ''bad request'' 400
      | Some s \<Rightarrow>
          (case released env stored (site_key s) of
             Some m \<Rightarrow> ideal_site env stored room r s m
           | None \<Rightarrow>
               if stored (site_key s) = None then error_answer r room Map.empty ''release not found'' 404
               else error_answer r room Map.empty ''internal error'' 500))"

text \<open>Which document of the release answers a request for the site's rest, and with which status; none when
  the built-in not-found page does.\<close>

definition chosen :: "site \<Rightarrow> Manifest \<Rightarrow> (File \<times> nat) option" where
  "chosen s m =
     (case find (\<lambda>p. snd (Lookup m p)) (candidates (s_rest s)) of
        Some p \<Rightarrow> Some (fst (Lookup m p), 200)
      | None \<Rightarrow>
          if SPA m \<and> snd (Lookup m indexHTML) then Some (fst (Lookup m indexHTML), 200)
          else if snd (Lookup m (NotFoundDoc m)) then Some (fst (Lookup m (NotFoundDoc m)), 404)
          else None)"

definition unmodified :: "(string \<Rightarrow> gotime option) \<Rightarrow> request \<Rightarrow> Manifest \<Rightarrow> File \<Rightarrow> nat \<Rightarrow> bool" where
  "unmodified pt r m e status \<longleftrightarrow> status = 200 \<and> conditionalNotModified pt r (ETag (Blob e)) (ModTime m)"

lemma ideal_site_chosen:
  "ideal_site env stored room r s m =
     (case chosen s m of
        Some (e, c) \<Rightarrow> ideal_blob (e_ParseTime env) stored room r s m e c
      | None \<Rightarrow> ideal_not_found (e_ParseTime env) stored room r s m)"
  by (simp add: ideal_site_def chosen_def ideal_not_found_def split: option.split)

lemma chosen_none: "chosen s m = None \<Longrightarrow> \<not> snd (Lookup m (NotFoundDoc m))"
  by (auto simp: chosen_def split: option.splits if_splits)

subsection \<open>The parts of the handler\<close>

lemma stampHeaders_fields:
  "rs_Status (stampHeaders m e w) = rs_Status w" "rs_Body (stampHeaders m e w) = rs_Body w"
  "rs_discards (stampHeaders m e w) = rs_discards w" "rs_room (stampHeaders m e w) = rs_room w"
  by (simp_all add: stampHeaders_def setSecurityHeaders_def Let_def header_ops)

lemma stampHeaders_header:
  "rs_Header w = Map.empty \<Longrightarrow> rs_Header (stampHeaders m e w) = blob_header m e"
  by (rule ext) (simp add: stampHeaders_def setSecurityHeaders_def Let_def header_ops blob_header_def)

lemma answer_HTTPError:
  "rs_Status w = None \<Longrightarrow> rs_Body w = [] \<Longrightarrow>
   answer_of (HTTPError msg code w) =
     \<lparr>an_Status = code, an_Header = as_error (rs_Header w),
      an_Body = (if rs_discards w then [] else received (rs_room w) (msg @ newline))\<rparr>"
  by (simp add: answer_of_def HTTPError_spec as_error_def)

lemma answer_stream:
  assumes "rs_Status rw = None" "rs_Body rw = []" "\<not> rs_discards rw"
  shows "answer_of (fst (streamBlob env s k status (bytesReader d) (rw, w))) =
     \<lparr>an_Status = status, an_Header = (rs_Header rw)(''Content-Length'' \<mapsto> FormatInt (int (length d))),
      an_Body = received (rs_room rw) d\<rparr>"
proof -
  let ?rw = "WriteHeader status (SetHeader ''Content-Length'' (FormatInt (int (length d))) rw)"
  obtain n err rw2 where cb: "CopyBuffer (bytesReader d) ?rw = (n, err, rw2)"
    by (cases "CopyBuffer (bytesReader d) ?rw")
  then have "fst (streamBlob env s k status (bytesReader d) (rw, w)) = rw2"
    by (simp add: streamBlob_def bytesReader_def Let_def)
  with CopyBuffer_spec [OF cb] assms show ?thesis
    by (simp add: answer_of_def header_ops bytesReader_def)
qed

lemma streamBlob_world:
  "w_store (snd (streamBlob env s k status rc (rw, w))) = w_store w"
  "w_cache (snd (streamBlob env s k status rc (rw, w))) = w_cache w"
  by (simp_all add: streamBlob_def Let_def add_bytes_def log_event_def split: prod.split option.split)


text \<open>Serving a blob leaves the cache and reads the store at most once, at the blob's key.\<close>

lemma serveBlob_world:
  "w_cache (snd (serveBlob env r s m e status (rw, w))) = w_cache w \<and>
   (w_store (snd (serveBlob env r s m e status (rw, w))) = w_store w \<or>
    w_store (snd (serveBlob env r s m e status (rw, w))) =
      snd (e_Get env (BlobKey (s_project s) (s_name s) (Blob e)) (w_store w)))"
proof -
  obtain res st where g: "e_Get env (BlobKey (s_project s) (s_name s) (Blob e)) (w_store w) = (res, st)"
    by fastforce
  then show ?thesis
    by (cases res) (simp_all add: serveBlob_def Let_def log_event_def streamBlob_world)
qed

subsection \<open>The simulation\<close>

definition world_ok where
  "world_ok iv objs env w \<longleftrightarrow>
     iv (w_store w) \<and> mc_invar (w_cache w) \<and> mc_lookup (w_cache w) \<subseteq>\<^sub>m released env (objs (w_store w))"

lemma world_ok_coherent:
  "world_ok iv objs env w \<longleftrightarrow> iv (w_store w) \<and> mc.coherent (released env (objs (w_store w))) (w_cache w)"
  by (simp add: world_ok_def mc.coherent_def)

context object_store
begin

text \<open>Any store that keeps the contract: what a load can yield, and that it keeps the invariant.\<close>

lemma loadOnce_sound:
  assumes ok: "world_ok invar objs env w" and g: "e_Get env = get" and ld: "loadOnce env k w = (res, w')"
  shows "world_ok invar objs env w'" "objs (w_store w') = objs (w_store w)"
    "res = Inr m \<Longrightarrow> released env (objs (w_store w)) k = Some m"
    "res = Inl e \<Longrightarrow> is_not_found e \<Longrightarrow> objs (w_store w) k = None"
    "w_metrics w' = w_metrics w"
proof -
  let ?t = "released env (objs (w_store w))"
  have iv: "invar (w_store w)" and co: "mc.coherent ?t (w_cache w)"
    using ok by (simp_all add: world_ok_coherent)
  obtain hit c where mg: "mc_get k (w_cache w) = (hit, c)" by fastforce
  note cg = mc.coherent_get [OF co mg]
  obtain r st where st: "get k (w_store w) = (r, st)" by fastforce
  note gs = get_step [OF iv st]
  have "world_ok invar objs env w' \<and> objs (w_store w') = objs (w_store w) \<and> w_metrics w' = w_metrics w \<and>
    (\<forall>m. res = Inr m \<longrightarrow> ?t k = Some m) \<and> (\<forall>e. res = Inl e \<longrightarrow> is_not_found e \<longrightarrow> objs (w_store w) k = None)"
  proof (cases hit)
    case (Some m)
    with mc.coherent_hit [OF co] mg have "?t k = Some m" by blast
    with Some mg ld cg iv show ?thesis
      by (auto simp: loadOnce_def world_ok_coherent)
  next
    case None
    show ?thesis
    proof (cases r)
      case (Inl err)
      have "objs (w_store w) k = None" if "is_NotExist err"
        using get_absent [OF iv, of k err] st Inl that by simp
      with None Inl mg ld st g gs cg show ?thesis
        by (auto simp: loadOnce_def world_ok_coherent)
    next
      case (Inr rc)
      then obtain d where d: "objs (w_store w) k = Some d" "delivers rc d"
        using get_sound [OF iv, of k rc] st by auto
      show ?thesis
      proof (cases "ReadAll rc")
        case (Inl err)
        have "\<not> is_NotExist err"
          using Inl d(2) by (auto simp: ReadAll_def delivers_def split: option.splits)
        with None \<open>r = Inr rc\<close> Inl mg ld st g gs cg show ?thesis
          by (auto simp: loadOnce_def world_ok_coherent)
      next
        case (Inr b)
        then have b: "b = d" using delivers_ReadAll [OF d(2)] by blast
        show ?thesis
        proof (cases "Load (e_rng env) (e_decode env) d")
          case (Inl err)
          with None \<open>r = Inr rc\<close> Inr b mg ld st g gs cg show ?thesis
            by (auto simp: loadOnce_def world_ok_coherent)
        next
          case load: (Inr m)
          then have t: "?t k = Some m" using d(1) by (simp add: released_def)
          then have "mc.coherent ?t (mc_add k m c)"
            using cg mc.coherent_add [of ?t c k m] by auto
          with None \<open>r = Inr rc\<close> Inr b load mg ld st g gs t show ?thesis
            by (auto simp: loadOnce_def world_ok_coherent)
        qed
      qed
    qed
  qed
  then show "world_ok invar objs env w'" "objs (w_store w') = objs (w_store w)"
    "res = Inr m \<Longrightarrow> released env (objs (w_store w)) k = Some m"
    "res = Inl e \<Longrightarrow> is_not_found e \<Longrightarrow> objs (w_store w) k = None"
    "w_metrics w' = w_metrics w" by blast+
qed

lemma loadManifest_sound:
  assumes ok: "world_ok invar objs env w" and g: "e_Get env = get" and d: "do_runs env"
    and ld: "loadManifest env s w = (res, w')"
  shows "world_ok invar objs env w'" "objs (w_store w') = objs (w_store w)"
    "res = Inr m \<Longrightarrow> released env (objs (w_store w)) (site_key s) = Some m"
    "res = Inl e \<Longrightarrow> is_not_found e \<Longrightarrow> objs (w_store w) (site_key s) = None"
    "w_metrics w' = w_metrics w"
proof -
  let ?t = "released env (objs (w_store w))"
  have iv: "invar (w_store w)" and co: "mc.coherent ?t (w_cache w)"
    using ok by (simp_all add: world_ok_coherent)
  obtain hit c where mg: "mc_get (site_key s) (w_cache w) = (hit, c)" by fastforce
  note cg = mc.coherent_get [OF co mg]
  let ?w = "w\<lparr>w_cache := c\<rparr>"
  have okc: "world_ok invar objs env ?w"
    using cg iv by (simp add: world_ok_coherent)
  have "world_ok invar objs env w' \<and> objs (w_store w') = objs (w_store w) \<and> w_metrics w' = w_metrics w \<and>
    (\<forall>m. res = Inr m \<longrightarrow> ?t (site_key s) = Some m) \<and>
    (\<forall>e. res = Inl e \<longrightarrow> is_not_found e \<longrightarrow> objs (w_store w) (site_key s) = None)"
  proof (cases hit)
    case (Some m)
    with mc.coherent_hit [OF co] mg have "?t (site_key s) = Some m" by blast
    with Some mg ld okc show ?thesis
      by (auto simp: loadManifest_def site_key_def Let_def)
  next
    case None
    then have "loadOnce env (site_key s) ?w = (res, w')"
      using mg ld d by (simp add: loadManifest_def site_key_def Let_def do_runs_def)
    from loadOnce_sound [OF okc g this] show ?thesis by simp
  qed
  then show "world_ok invar objs env w'" "objs (w_store w') = objs (w_store w)"
    "res = Inr m \<Longrightarrow> released env (objs (w_store w)) (site_key s) = Some m"
    "res = Inl e \<Longrightarrow> is_not_found e \<Longrightarrow> objs (w_store w) (site_key s) = None"
    "w_metrics w' = w_metrics w" by blast+
qed

lemma serveBlob_ok:
  assumes ok: "world_ok invar objs env w" and g: "e_Get env = get"
    and sb: "serveBlob env r s m e status (rw, w) = (rw', w')"
  shows "world_ok invar objs env w' \<and> objs (w_store w') = objs (w_store w)"
proof -
  obtain res st where st: "get (BlobKey (s_project s) (s_name s) (Blob e)) (w_store w) = (res, st)" by fastforce
  have "invar (w_store w)" using ok by (simp add: world_ok_def)
  note gs = get_step [OF this st]
  have "w_cache w' = w_cache w \<and> (w_store w' = w_store w \<or> w_store w' = st)"
    using serveBlob_world [of env r s m e status rw w] sb st g by auto
  with ok gs show ?thesis by (auto simp: world_ok_def)
qed

lemma observe_simps [simp]:
  "w_store (observe env s w) = w_store w" "w_cache (observe env s w) = w_cache w"
  "world_ok iv ob env' (observe env s w) = world_ok iv ob env' w"
  by (simp_all add: observe_def world_ok_def)

lemma world_ok_frame [simp]:
  "world_ok iv ob env (w\<lparr>w_metrics := x\<rparr>) = world_ok iv ob env w"
  "world_ok iv ob env (w\<lparr>w_log := l\<rparr>) = world_ok iv ob env w"
  by (simp_all add: world_ok_def)

lemma serveNotFound_ok:
  assumes ok: "world_ok invar objs env w" and g: "e_Get env = get"
    and sn: "serveNotFound env r s m (rw, w) = (rw', w')"
  shows "world_ok invar objs env w' \<and> objs (w_store w') = objs (w_store w)"
proof (cases "Lookup m (NotFoundDoc m)")
  case (Pair entry found)
  with sn serveBlob_ok [OF ok g, of r s m entry StatusNotFound rw rw' w'] ok show ?thesis
    by (cases found) (auto simp: serveNotFound_def Let_def add_bytes_def split: if_splits prod.splits)
qed

lemma serveSite_ok:
  assumes ok: "world_ok invar objs env w" and g: "e_Get env = get"
    and ss: "serveSite env r s m (rw, w) = (rw', w')"
  shows "world_ok invar objs env w' \<and> objs (w_store w') = objs (w_store w)"
  using ss serveBlob_ok [OF ok g] serveNotFound_ok [OF ok g]
  by (auto simp: serveSite_def Let_def split: Kind.splits)

lemma handle_ok:
  assumes ok: "world_ok invar objs env w" and g: "e_Get env = get" and d: "do_runs env"
    and h: "handle env room r w = (rw, w')"
  shows "world_ok invar objs env w' \<and> objs (w_store w') = objs (w_store w)"
proof (cases "(rq_Method r = MethodGet \<or> rq_Method r = MethodHead) \<and> parseSite (rq_Path r) \<noteq> None")
  case False
  with h ok show ?thesis
    by (auto simp: handle_def ServeHTTP_def split: if_splits option.splits)
next
  case True
  then obtain s where s: "parseSite (rq_Path r) = Some s" by blast
  let ?w = "observe env s w"
  obtain res w2 where ld: "loadManifest env s ?w = (res, w2)" by fastforce
  have okw: "world_ok invar objs env ?w" using ok by simp
  note l = loadManifest_sound(1,2) [OF okw g d ld]
  show ?thesis
  proof (cases res)
    case (Inl e)
    with h True s ld l show ?thesis
      by (auto simp: handle_def ServeHTTP_def Let_def log_event_def split: if_splits)
  next
    case (Inr m)
    with h True s ld have "serveSite env r s m (newResponse r room, w2) = (rw, w')"
      by (auto simp: handle_def ServeHTTP_def Let_def)
    with serveSite_ok [OF l(1) g] l show ?thesis by simp
  qed
qed

end

context reliable_store
begin

lemma loadManifest_complete:
  assumes ok: "world_ok invar objs env w" and g: "e_Get env = get" and d: "do_runs env"
    and ld: "loadManifest env s w = (res, w')"
  shows "case released env (objs (w_store w)) (site_key s) of
     Some m \<Rightarrow> res = Inr m
   | None \<Rightarrow> (\<exists>e. res = Inl e \<and> (is_not_found e \<longleftrightarrow> objs (w_store w) (site_key s) = None))"
proof -
  let ?k = "site_key s"
  let ?t = "released env (objs (w_store w))"
  have iv: "invar (w_store w)" and co: "mc.coherent ?t (w_cache w)"
    using ok by (simp_all add: world_ok_coherent)
  obtain hit c where mg: "mc_get ?k (w_cache w) = (hit, c)" by fastforce
  note cg = mc.coherent_get [OF co mg]
  obtain hit' c' where mg': "mc_get ?k c = (hit', c')" by fastforce
  note cg' = mc.coherent_get [OF conjunct1 [OF cg] mg']
  show ?thesis
  proof (cases hit)
    case (Some m)
    with mc.coherent_hit [OF co] mg have "?t ?k = Some m" by blast
    with Some mg ld show ?thesis
      by (auto simp: loadManifest_def site_key_def Let_def)
  next
    case None
    with cg cg' have miss: "hit' = None" by simp
    have lo: "loadOnce env ?k (w\<lparr>w_cache := c\<rparr>) = (res, w')"
      using None mg ld d by (simp add: loadManifest_def site_key_def Let_def do_runs_def)
    obtain r st where st: "get ?k (w_store w) = (r, st)" by fastforce
    show ?thesis
    proof (cases "objs (w_store w) ?k")
      case None
      with get_missing [OF iv None] st obtain e where "r = Inl e" "is_NotExist e" by auto
      with lo miss mg' st g None show ?thesis
        by (auto simp: loadOnce_def released_def)
    next
      case (Some data)
      with get_value [OF iv Some] st have "r = Inr (bytesReader data)" by simp
      with lo miss mg' st g Some show ?thesis
        by (auto simp: loadOnce_def released_def ReadAll_def bytesReader_def split: sum.splits)
    qed
  qed
qed

lemma serveBlob_answer:
  assumes iv: "invar (w_store w)" and g: "e_Get env = get"
    and m: "rq_Method r = MethodGet \<or> rq_Method r = MethodHead"
  shows "answer_of (fst (serveBlob env r s m e status (newResponse r room, w))) =
     ideal_blob (e_ParseTime env) (objs (w_store w)) room r s m e status"
proof -
  let ?rw = "stampHeaders m e (newResponse r room)"
  let ?k = "BlobKey (s_project s) (s_name s) (Blob e)"
  have rw: "rs_Status ?rw = None" "rs_Body ?rw = []" "rs_discards ?rw \<longleftrightarrow> rq_Method r = MethodHead"
    "rs_room ?rw = room" "rs_Header ?rw = blob_header m e"
    by (simp_all add: stampHeaders_fields stampHeaders_header newResponse_simps)
  obtain res st where st: "get ?k (w_store w) = (res, st)" by fastforce
  show ?thesis
  proof (cases "status = 200 \<and> conditionalNotModified (e_ParseTime env) r (ETag (Blob e)) (ModTime m) \<or>
      rq_Method r = MethodHead")
    case True
    then show ?thesis
      by (auto simp: serveBlob_def Let_def ideal_blob_def answer_of_def header_ops rw)
  next
    case False
    then have fin: "serveBlob env r s m e status (newResponse r room, w) =
      (case res of
         Inl err \<Rightarrow>
           (if is_NotExist err then
              (HTTPError ''blob not found'' StatusNotFound ?rw, log_event (LogDanglingBlob ?k (s_releaseSHA s)) (w\<lparr>w_store := st\<rparr>))
            else
              (HTTPError ''internal error'' StatusInternalServerError ?rw, log_event (LogReadBlob ?k err) (w\<lparr>w_store := st\<rparr>)))
       | Inr rc \<Rightarrow> streamBlob env s ?k status rc (?rw, w\<lparr>w_store := st\<rparr>))"
      using st g by (auto simp: serveBlob_def Let_def split: sum.split)
    show ?thesis
    proof (cases "objs (w_store w) ?k")
      case None
      with get_missing [OF iv None] st obtain err where "res = Inl err" "is_NotExist err" by auto
      with fin None False show ?thesis
        by (simp add: answer_HTTPError rw ideal_blob_def error_answer_def body_for_def)
    next
      case (Some d)
      with get_value [OF iv Some] st have "res = Inr (bytesReader d)" by simp
      with fin Some False show ?thesis
        by (simp add: answer_stream rw ideal_blob_def)
    qed
  qed
qed

lemma serveNotFound_answer:
  assumes iv: "invar (w_store w)" and g: "e_Get env = get"
    and mt: "rq_Method r = MethodGet \<or> rq_Method r = MethodHead"
  shows "answer_of (fst (serveNotFound env r s m (newResponse r room, w))) =
     ideal_not_found (e_ParseTime env) (objs (w_store w)) room r s m"
proof (cases "snd (Lookup m (NotFoundDoc m))")
  case True
  then have "serveNotFound env r s m (newResponse r room, w) =
      serveBlob env r s m (fst (Lookup m (NotFoundDoc m))) 404 (newResponse r room, w)"
    by (cases "Lookup m (NotFoundDoc m)") (simp add: serveNotFound_def)
  with True serveBlob_answer [OF iv g mt] show ?thesis
    by (simp add: ideal_not_found_def)
next
  case False
  let ?rw = "setSecurityHeaders m True (SetHeader ''Cache-Control'' (CacheControl ClassHTML)
      (SetHeader ''Content-Type'' ''text/html; charset=utf-8'' (newResponse r room)))"
  let ?h = "[''Content-Type'' \<mapsto> ''text/html; charset=utf-8'', ''Cache-Control'' \<mapsto> cacheControlHTML,
          ''X-Content-Type-Options'' \<mapsto> ''nosniff'', ''X-Frame-Options'' \<mapsto> ''DENY'']
          (''X-Robots-Tag'' := if IsProduction m then None else Some ''noindex'')"
  have rw: "rs_Status ?rw = None" "rs_Body ?rw = []" "rs_discards ?rw \<longleftrightarrow> rq_Method r = MethodHead"
    "rs_room ?rw = room"
    by (simp_all add: setSecurityHeaders_def Let_def header_ops newResponse_simps)
  have h: "rs_Header ?rw = ?h"
    by (rule ext) (simp add: setSecurityHeaders_def Let_def header_ops newResponse_simps CacheControl_def ClassHTML_def ClassImmutable_def)
  obtain n f rw2 where wb: "WriteBody defaultNotFoundBody (WriteHeader 404 ?rw) = (n, f, rw2)"
    by (cases "WriteBody defaultNotFoundBody (WriteHeader 404 ?rw)")
  have "fst (serveNotFound env r s m (newResponse r room, w)) =
      (if rq_Method r = MethodHead then WriteHeader 404 ?rw else rw2)"
    using False wb by (cases "Lookup m (NotFoundDoc m)") (simp add: serveNotFound_def Let_def)
  moreover have "answer_of (if rq_Method r = MethodHead then WriteHeader 404 ?rw else rw2) =
      \<lparr>an_Status = 404, an_Header = ?h, an_Body = body_for r room defaultNotFoundBody\<rparr>"
    using WriteBody_spec [OF wb] by (simp add: answer_of_def header_ops rw h body_for_def)
  ultimately show ?thesis using False by (simp add: ideal_not_found_def)
qed

lemma serveSite_answer:
  assumes iv: "invar (w_store w)" and g: "e_Get env = get"
    and mt: "rq_Method r = MethodGet \<or> rq_Method r = MethodHead"
  shows "answer_of (fst (serveSite env r s m (newResponse r room, w))) = ideal_site env (objs (w_store w)) room r s m"
proof -
  note [simp] = serveBlob_answer [OF iv g mt] serveNotFound_answer [OF iv g mt]
  show ?thesis
  proof (cases "find (\<lambda>p. snd (Lookup m p)) (candidates (s_rest s))")
    case (Some p)
    then show ?thesis
      by (simp add: serveSite_def ideal_site_def Resolve_by_candidates)
  next
    case None
    then show ?thesis
      by (simp add: serveSite_def ideal_site_def Resolve_by_candidates miss_def)
  qed
qed

text \<open>One request: the handler's answer is the specification's.\<close>

lemma handle_answer:
  assumes ok: "world_ok invar objs env w" and g: "e_Get env = get" and d: "do_runs env"
  shows "answer_of (fst (handle env room r w)) = ideal env (objs (w_store w)) room r"
proof (cases "rq_Method r = MethodGet \<or> rq_Method r = MethodHead")
  case False
  then show ?thesis
    by (auto simp: handle_def ServeHTTP_def ideal_def error_answer_def body_for_def answer_HTTPError header_ops
        newResponse_simps)
next
  case mt: True
  show ?thesis
  proof (cases "parseSite (rq_Path r)")
    case None
    with mt show ?thesis
      by (auto simp: handle_def ServeHTTP_def ideal_def error_answer_def body_for_def answer_HTTPError newResponse_simps)
  next
    case (Some s)
    let ?w = "observe env s w"
    obtain res w2 where ld: "loadManifest env s ?w = (res, w2)" by fastforce
    have okw: "world_ok invar objs env ?w" using ok by simp
    note l = loadManifest_sound(1,2) [OF okw g d ld]
    then have iv2: "invar (w_store w2)" by (simp add: world_ok_def)
    show ?thesis
    proof (cases "released env (objs (w_store w)) (site_key s)")
      case None
      with loadManifest_complete [OF okw g d ld] obtain e where
        "res = Inl e" "is_not_found e \<longleftrightarrow> objs (w_store w) (site_key s) = None" by auto
      with mt Some ld None show ?thesis
        by (auto simp: handle_def ServeHTTP_def Let_def ideal_def error_answer_def body_for_def
            answer_HTTPError newResponse_simps)
    next
      case m: (Some m)
      with loadManifest_complete [OF okw g d ld] have "res = Inr m" by simp
      with mt Some ld m serveSite_answer [OF iv2 g mt, of s m room] l show ?thesis
        by (auto simp: handle_def ServeHTTP_def Let_def ideal_def)
    qed
  qed
qed

end


subsection \<open>Histories\<close>

fun handle_all :: "('s, 'v) env \<Rightarrow> (request \<times> nat option) list \<Rightarrow> ('s, 'v) world \<Rightarrow> answer list \<times> ('s, 'v) world" where
  "handle_all env [] w = ([], w)"
| "handle_all env ((r, room) # rs) w =
     (let (rw, w') = handle env room r w; (as, w'') = handle_all env rs w' in (answer_of rw # as, w''))"

context reliable_store
begin

lemma handle_all_answers:
  assumes g: "e_Get env = get" and d: "do_runs env"
  shows "world_ok invar objs env w \<Longrightarrow>
     fst (handle_all env rs w) = map (\<lambda>(r, room). ideal env (objs (w_store w)) room r) rs \<and>
     world_ok invar objs env (snd (handle_all env rs w)) \<and>
     objs (w_store (snd (handle_all env rs w))) = objs (w_store w)"
proof (induction rs arbitrary: w)
  case (Cons a rs)
  obtain r room where a: "a = (r, room)" by fastforce
  obtain rw w' where h: "handle env room r w = (rw, w')" by fastforce
  note ok = handle_ok [OF Cons.prems g d h]
  with handle_answer [OF Cons.prems g d, of room r] h Cons.IH [of w'] show ?case
    by (simp add: a split_beta Let_def)
qed simp

end

lemma New_ok:
  assumes "New cfg mt = Inr w" "cfg_Store cfg = Some st" "iv st"
  shows "world_ok iv objs env w" "w_store w = st"
proof -
  have "mc_lookup (newManifestCache cap b) = Map.empty" for cap b
    using newManifestCache_invar [of cap b] by (simp add: mc_lookup_def cached_def entry_for_def fun_eq_iff)
  with assms newManifestCache_invar show "world_ok iv objs env w" "w_store w = st"
    by (auto simp: New_def world_ok_def Let_def)
qed

end
