(* ===== verification/ServerProps.thy ===== *)
theory ServerProps
  imports ServerSpec
begin

section \<open>What the handler guarantees\<close>

text \<open>
  The properties of \<^verbatim>\<open>server.go\<close>: the refinement of the specification of \<open>ServerSpec\<close>, what holds over
  any store (an unreliable one included), which storage keys a request can reach, and the facts about
  headers, conditional requests and accounting. Their witnesses run the small gateway below.
\<close>

subsection \<open>Refinement\<close>

text \<open>A small gateway for the witnesses: one release in the fake store, the slash-prefixed manifest of
  the loader's examples, an ordinary counter map.\<close>

definition demo_env :: "(Fake, siteKey \<rightharpoonup> int) env" where
  "demo_env = \<lparr>e_Get = fake_Get, e_counters = map_ops, e_now = epoch_plus 0, e_decode = demo_dec, e_rng = in_order,
     e_ParseTime = (\<lambda>_. None), e_Do = (\<lambda>k f. f)\<rparr>"

definition demo_store :: Fake where
  "demo_store = Put ''sites/acme/docs/releases/r1'' ''{}'' ''application/json''
     (Put ''sites/acme/docs/blobs/b1'' ''<html>'' ''text/html''
       (Put ''sites/acme/docs/blobs/b2'' ''about'' ''text/html'' NewFake))"

definition demo_cfg :: "Fake Config" where
  "demo_cfg = \<lparr>cfg_Store = Some demo_store, cfg_ManifestCacheCap = 0, cfg_ManifestCacheBytes = 0\<rparr>"

definition demo_world :: "(Fake, siteKey \<rightharpoonup> int) world" where
  "demo_world = projr (New demo_cfg new_metrics)"

definition GET :: "string \<Rightarrow> request" where
  "GET p = \<lparr>rq_Method = ''GET'', rq_Path = p, rq_Header = Map.empty\<rparr>"

lemma demo_facts:
  "do_runs demo_env" "New demo_cfg new_metrics = Inr demo_world" "cfg_Store demo_cfg = Some demo_store"
  "e_Get demo_env = fake_Get"
  by (simp_all add: do_runs_def demo_env_def demo_world_def demo_cfg_def New_def)

text \<open>The gateway is stateless towards its clients: a handler built by \<^verbatim>\<open>New\<close>, with any
  cache capacity and byte budget, over any reliable store, answers any history of requests exactly as
  the specification does from the stored objects alone. Caching, eviction and coalescing never show.\<close>

theorem gateway_refines_ideal:
  assumes st: "reliable_store iv objs (e_Get env)" and d: "do_runs env"
    and new: "New cfg mt = Inr w" "cfg_Store cfg = Some s" "iv s"
  shows "fst (handle_all env rs w) = map (\<lambda>(r, room). ideal env (objs s) room r) rs"
  proof -
  note ok = New_ok(1) [where iv = iv and objs = objs and env = env, OF new] New_ok(2) [where iv = iv, OF new]
  show ?thesis
    using reliable_store.handle_all_answers [OF st refl d ok(1), of rs] ok(2) by simp
qed


lemma demo_ok: "world_ok (\<lambda>_. True) fake_objs demo_env demo_world"
  by (rule New_ok(1) [OF demo_facts(2,3)]) simp

lemma demo_store_eq: "w_store demo_world = demo_store"
  using New_ok(2) [OF demo_facts(2,3), of "\<lambda>_. True"] by simp

lemma demo_released:
  "released demo_env (fake_objs demo_store) ''sites/acme/docs/releases/r1'' = Some (projr (Load in_order demo_dec ''{}''))"
  by (simp add: released_def demo_store_def fake_objs_def Put_def PutObject_def demo_env_def Load_demo)

lemma demo_ideal:
  "ideal demo_env (fake_objs demo_store) None (GET ''/acme/docs/r1/'') =
     \<lparr>an_Status = 200,
      an_Header = (blob_header (projr (Load in_order demo_dec ''{}'')) (demo_file ''b1''))(''Content-Length'' \<mapsto> ''6''),
      an_Body = ''<html>''\<rparr>"
proof -
  let ?m = "projr (Load in_order demo_dec ''{}'')"
  let ?s = "\<lparr>s_project = ''acme'', s_name = ''docs'', s_releaseSHA = ''r1'', s_rest = ''/''\<rparr>"
  have s: "parseSite ''/acme/docs/r1/'' = Some ?s" by code_simp
  have k: "site_key ?s = ''sites/acme/docs/releases/r1''" by code_simp
  have c: "candidates ''/'' = [''index.html'']" by code_simp
  have l: "Lookup ?m ''index.html'' = (demo_file ''b1'', True)"
    by (simp add: Load_demo Lookup_def gomap_entries_def demo_raw_def)
  have b: "BlobKey ''acme'' ''docs'' ''b1'' = ''sites/acme/docs/blobs/b1''" by code_simp
  have d: "fake_objs demo_store ''sites/acme/docs/blobs/b1'' = Some ''<html>''"
    by (simp add: demo_store_def fake_objs_def Put_def PutObject_def)
  have len: "FormatInt (int (length ''<html>'')) = ''6''" by code_simp
  have b1: "Blob (demo_file ''b1'') = ''b1''" by (simp add: demo_file_def)
  have site: "ideal_site demo_env (fake_objs demo_store) None (GET ''/acme/docs/r1/'') ?s ?m =
     \<lparr>an_Status = 200, an_Header = (blob_header ?m (demo_file ''b1''))(''Content-Length'' \<mapsto> ''6''),
      an_Body = ''<html>''\<rparr>"
    using len by (simp add: ideal_site_def c l ideal_blob_def conditionalNotModified_def hdr_Get_def GET_def
        MethodHead_def b b1 d)
  show ?thesis
    using site by (simp add: ideal_def s k demo_released GET_def MethodGet_def)
qed

lemma gateway_refines_ideal_witness:
  "fst (handle_all demo_env [(GET ''/acme/docs/r1/'', None), (GET ''/acme/docs/r1/'', None)] demo_world) =
     [ideal demo_env (fake_objs demo_store) None (GET ''/acme/docs/r1/''),
      ideal demo_env (fake_objs demo_store) None (GET ''/acme/docs/r1/'')] \<and>
   an_Body (ideal demo_env (fake_objs demo_store) None (GET ''/acme/docs/r1/'')) = ''<html>''"
  using gateway_refines_ideal [of "\<lambda>_. True" fake_objs demo_env demo_cfg new_metrics demo_world demo_store
      "[(GET ''/acme/docs/r1/'', None), (GET ''/acme/docs/r1/'', None)]"]
    fake.reliable_store_axioms demo_facts demo_ideal
  by (simp del: handle_all.simps)


subsection \<open>The site prefix\<close>

lemma separated: "c \<in> set s \<Longrightarrow> \<exists>a b. s = a @ c # b \<and> c \<notin> set a"
  using split_list_first by fastforce

lemma SplitN_4_no: "c \<notin> set a \<Longrightarrow> SplitN 4 c a = [a]"
  by (simp add: eval_nat_numeral)

lemma SplitN_4_two: "c \<notin> set a \<Longrightarrow> c \<notin> set b \<Longrightarrow> SplitN 4 c (a @ c # b) = [a, b]"
  by (simp add: eval_nat_numeral)

lemma SplitN_4_three:
  "c \<notin> set a \<Longrightarrow> c \<notin> set b \<Longrightarrow> c \<notin> set x \<Longrightarrow> SplitN 4 c (a @ c # b @ c # x) = [a, b, x]"
  by (simp add: eval_nat_numeral)

lemma SplitN_4_four:
  "c \<notin> set a \<Longrightarrow> c \<notin> set b \<Longrightarrow> c \<notin> set x \<Longrightarrow> SplitN 4 c (a @ c # b @ c # x @ c # y) = [a, b, x, y]"
  by (simp add: eval_nat_numeral)

lemma parseSite_trimmed:
  "parseSite path = Some s \<longleftrightarrow>
     s_project s \<noteq> [] \<and> s_name s \<noteq> [] \<and> s_releaseSHA s \<noteq> [] \<and>
     slash \<notin> set (s_project s) \<and> slash \<notin> set (s_name s) \<and> slash \<notin> set (s_releaseSHA s) \<and>
     (TrimPrefix path ''/'' = s_project s @ slash # s_name s @ slash # s_releaseSHA s \<and> s_rest s = ''/'' \<or>
      (\<exists>tail. s_rest s = slash # tail \<and>
         TrimPrefix path ''/'' = s_project s @ slash # s_name s @ slash # s_releaseSHA s @ slash # tail))"
    (is "_ \<longleftrightarrow> ?R s")
proof
  let ?t = "TrimPrefix path ''/''"
  show "parseSite path = Some s" if R: "?R s"
  proof -
    have "s = \<lparr>s_project = s_project s, s_name = s_name s, s_releaseSHA = s_releaseSHA s, s_rest = s_rest s\<rparr>"
      by simp
    moreover have "SplitN 4 slash ?t = (if s_rest s = ''/'' \<and> ?t = s_project s @ slash # s_name s @ slash # s_releaseSHA s
        then [s_project s, s_name s, s_releaseSHA s]
        else [s_project s, s_name s, s_releaseSHA s, tl (s_rest s)])"
      using R by (auto simp: SplitN_4_three SplitN_4_four)
    ultimately show ?thesis
      using R by (auto simp: parseSite_def Let_def)
  qed
  show "?R s" if ps: "parseSite path = Some s"
  proof (cases "slash \<in> set ?t")
    case False
    with ps show ?thesis by (simp add: parseSite_def Let_def SplitN_4_no)
  next
    case True
    then obtain a t1 where t: "?t = a @ slash # t1" "slash \<notin> set a" using separated by metis
    show ?thesis
    proof (cases "slash \<in> set t1")
      case False
      with ps t show ?thesis by (simp add: parseSite_def Let_def SplitN_4_two)
    next
      case True
      then obtain b t2 where t1: "t1 = b @ slash # t2" "slash \<notin> set b" using separated by metis
      show ?thesis
      proof (cases "slash \<in> set t2")
        case False
        with ps t t1 show ?thesis by (auto simp: parseSite_def Let_def SplitN_4_three split: if_splits)
      next
        case True
        then obtain x y where t2: "t2 = x @ slash # y" "slash \<notin> set x" using separated by metis
        with ps t t1 show ?thesis by (auto simp: parseSite_def Let_def SplitN_4_four split: if_splits)
      qed
    qed
  qed
qed

text \<open>C33: roundtrip. Parsing the site prefix inverts building it: a path parses to a site exactly when
  the site's project, name and digest are non-empty and slash-free and the path, less one leading
  slash, is those three joined by slashes, followed by the site's rest or by nothing when the rest is
  the root.\<close>

theorem parseSite_roundtrip:
  "parseSite path = Some s \<longleftrightarrow>
     s_project s \<noteq> [] \<and> s_name s \<noteq> [] \<and> s_releaseSHA s \<noteq> [] \<and>
     slash \<notin> set (s_project s) \<and> slash \<notin> set (s_name s) \<and> slash \<notin> set (s_releaseSHA s) \<and>
     (TrimPrefix path ''/'' = s_project s @ slash # s_name s @ slash # s_releaseSHA s \<and> s_rest s = ''/'' \<or>
      (\<exists>tail. s_rest s = slash # tail \<and>
         TrimPrefix path ''/'' = s_project s @ slash # s_name s @ slash # s_releaseSHA s @ slash # tail))"
  by (rule parseSite_trimmed)


subsection \<open>Which storage keys a request reaches\<close>

text \<open>A store that records the keys it is asked for, around any store.\<close>

definition logged :: "(string \<Rightarrow> 's \<Rightarrow> 'r \<times> 's) \<Rightarrow> string \<Rightarrow> 's \<times> string list \<Rightarrow> 'r \<times> ('s \<times> string list)" where
  "logged g k s = (case g k (fst s) of (r, s') \<Rightarrow> (r, (s', snd s @ [k])))"

lemma logged_log: "snd (snd (logged g k s)) = snd s @ [k]"
  by (simp add: logged_def split: prod.split)

definition log_of :: "('s \<times> string list, 'v) world \<Rightarrow> string list" where
  "log_of w = snd (w_store w)"

lemma serveBlob_log:
  assumes "e_Get env = logged g"
  shows "\<exists>bs. log_of (snd (serveBlob env r s m e status (rw, w))) = log_of w @ bs \<and>
     (bs = [] \<or> bs = [BlobKey (s_project s) (s_name s) (Blob e)])"
  using serveBlob_world [of env r s m e status rw w] logged_log
  unfolding log_of_def assms by (metis append_Nil2)

lemma serveNotFound_log:
  assumes "e_Get env = logged g"
  shows "\<exists>bs. log_of (snd (serveNotFound env r s m (rw, w))) = log_of w @ bs \<and>
     (bs = [] \<or> (\<exists>p. snd (Lookup m p) \<and> bs = [BlobKey (s_project s) (s_name s) (Blob (fst (Lookup m p)))]))"
proof (cases "Lookup m (NotFoundDoc m)")
  case (Pair entry found)
  show ?thesis
  proof (cases found)
    case True
    with Pair serveBlob_log [OF assms, of r s m entry StatusNotFound rw w] show ?thesis
      by (auto simp: serveNotFound_def) (metis fst_conv snd_conv)
  next
    case False
    with Pair have "log_of (snd (serveNotFound env r s m (rw, w))) = log_of w"
      by (simp add: serveNotFound_def Let_def add_bytes_def log_of_def split: prod.split)
    then show ?thesis by (intro exI [of _ "[]"]) simp
  qed
qed

lemma serveSite_log:
  assumes "e_Get env = logged g"
  shows "\<exists>bs. log_of (snd (serveSite env r s m (rw, w))) = log_of w @ bs \<and>
     (bs = [] \<or> (\<exists>p. snd (Lookup m p) \<and> bs = [BlobKey (s_project s) (s_name s) (Blob (fst (Lookup m p)))]))"
proof -
  let ?res = "Resolve (s_rest s) (\<lambda>p. snd (Lookup m p)) (SPA m)"
  show ?thesis
  proof (cases "Kind ?res = NotFound")
    case True
    then have "serveSite env r s m (rw, w) = serveNotFound env r s m (rw, w)"
      by (simp add: serveSite_def)
    with serveNotFound_log [OF assms] show ?thesis by metis
  next
    case False
    then have "serveSite env r s m (rw, w) = serveBlob env r s m (fst (Lookup m (Path ?res))) StatusOK (rw, w)"
      by (simp add: serveSite_def Let_def split: Kind.splits)
    moreover have "snd (Lookup m (Path ?res))"
      using Resolve_served [OF False] by blast
    ultimately show ?thesis
      using serveBlob_log [OF assms] by metis
  qed
qed

lemma loadOnce_log:
  assumes "e_Get env = logged g"
  shows "\<exists>ms. log_of (snd (loadOnce env k w)) = log_of w @ ms \<and> (ms = [] \<or> ms = [k])"
proof -
  obtain hit c where mg: "mc_get k (w_cache w) = (hit, c)" by fastforce
  obtain res st where g: "logged g k (w_store w) = (res, st)" by (cases "logged g k (w_store w)")
  then have st: "snd st = log_of w @ [k]" using logged_log [of g k "w_store w"] by (simp add: log_of_def)
  show ?thesis
  proof (cases hit)
    case (Some m)
    with mg show ?thesis by (intro exI [of _ "[]"]) (simp add: loadOnce_def log_of_def)
  next
    case None
    with mg g assms st show ?thesis
      by (intro exI [of _ "[k]"]) (auto simp: loadOnce_def log_of_def Let_def split: sum.split)
  qed
qed

lemma loadManifest_log:
  assumes "e_Get env = logged g" "do_runs env"
  shows "\<exists>ms. log_of (snd (loadManifest env s w)) = log_of w @ ms \<and> (ms = [] \<or> ms = [site_key s])"
proof -
  obtain hit c where mg: "mc_get (site_key s) (w_cache w) = (hit, c)" by fastforce
  show ?thesis
  proof (cases hit)
    case (Some m)
    with mg show ?thesis
      by (intro exI [of _ "[]"]) (simp add: loadManifest_def site_key_def Let_def log_of_def)
  next
    case None
    then have "loadManifest env s w = loadOnce env (site_key s) (w\<lparr>w_cache := c\<rparr>)"
      using mg assms(2) by (simp add: loadManifest_def site_key_def Let_def do_runs_def)
    with loadOnce_log [OF assms(1), of "site_key s" "w\<lparr>w_cache := c\<rparr>"] show ?thesis
      by (simp add: log_of_def)
  qed
qed



definition demo_logged_env :: "(Fake \<times> string list, siteKey \<rightharpoonup> int) env" where
  "demo_logged_env = \<lparr>e_Get = logged fake_Get, e_counters = map_ops, e_now = epoch_plus 0, e_decode = demo_dec,
     e_rng = in_order, e_ParseTime = (\<lambda>_. None), e_Do = (\<lambda>k f. f)\<rparr>"

definition demo_logged_world :: "(Fake \<times> string list, siteKey \<rightharpoonup> int) world" where
  "demo_logged_world = \<lparr>w_store = (demo_store, []), w_cache = newManifestCache 1 0, w_metrics = new_metrics, w_log = []\<rparr>"


subsection \<open>The outcomes of serving a blob\<close>

text \<open>What serving a blob to a fresh response can come to, over any store: a 304, a HEAD answer, an
  error in place of the blob, or the stream.\<close>

lemma serveBlob_cases:
  fixes env :: "('s, 'v) env"
  obtains (not_modified) "status = 200" "conditionalNotModified (e_ParseTime env) r (ETag (Blob e)) (ModTime m)"
    "serveBlob env r s m e status (rw, w) = (WriteHeader 304 (stampHeaders m e rw), w)"
  | (head) "rq_Method r = MethodHead"
    "serveBlob env r s m e status (rw, w) = (WriteHeader status (stampHeaders m e rw), w)"
  | (failed) err st msg code where "rq_Method r \<noteq> MethodHead" "code = 404 \<or> code = 500"
    "e_Get env (BlobKey (s_project s) (s_name s) (Blob e)) (w_store w) = (Inl err, st)"
    "fst (serveBlob env r s m e status (rw, w)) = HTTPError msg code (stampHeaders m e rw)"
    "w_metrics (snd (serveBlob env r s m e status (rw, w))) = w_metrics w"
  | (stream) rc st where "rq_Method r \<noteq> MethodHead"
    "e_Get env (BlobKey (s_project s) (s_name s) (Blob e)) (w_store w) = (Inr rc, st)"
    "serveBlob env r s m e status (rw, w) =
       streamBlob env s (BlobKey (s_project s) (s_name s) (Blob e)) status rc (stampHeaders m e rw, w\<lparr>w_store := st\<rparr>)"
proof (cases "status = 200 \<and> conditionalNotModified (e_ParseTime env) r (ETag (Blob e)) (ModTime m)")
  case True
  with not_modified show ?thesis by (simp add: serveBlob_def Let_def)
next
  case nc: False
  show ?thesis
  proof (cases "rq_Method r = MethodHead")
    case True
    with nc head show ?thesis by (auto simp: serveBlob_def Let_def)
  next
    case False
    obtain res st where g: "e_Get env (BlobKey (s_project s) (s_name s) (Blob e)) (w_store w) = (res, st)"
      by (cases "e_Get env (BlobKey (s_project s) (s_name s) (Blob e)) (w_store w)")
    show ?thesis
    proof (cases res)
      case (Inl err)
      show ?thesis
      proof (rule failed [where code = "if is_NotExist err then 404 else 500"
            and msg = "if is_NotExist err then ''blob not found'' else ''internal error''"])
        show "fst (serveBlob env r s m e status (rw, w)) =
          HTTPError (if is_NotExist err then ''blob not found'' else ''internal error'')
            (if is_NotExist err then 404 else 500) (stampHeaders m e rw)"
          and "w_metrics (snd (serveBlob env r s m e status (rw, w))) = w_metrics w"
          using nc False g Inl by (auto simp: serveBlob_def Let_def log_event_def)
      qed (use False g Inl in auto)
    next
      case (Inr rc)
      have "serveBlob env r s m e status (rw, w) =
        streamBlob env s (BlobKey (s_project s) (s_name s) (Blob e)) status rc (stampHeaders m e rw, w\<lparr>w_store := st\<rparr>)"
        using nc False g Inr by (auto simp: serveBlob_def Let_def)
      with stream False g Inr show ?thesis by blast
    qed
  qed
qed

text \<open>The stream: status, headers, body and the bytes counted.\<close>

lemma streamBlob_spec:
  assumes "rs_Status rw = None"
  shows "rs_Status (fst (streamBlob env s k status rc (rw, w))) = Some status"
    "rs_Header (fst (streamBlob env s k status rc (rw, w))) =
       (case rd_size rc of
          Some n \<Rightarrow> if 0 \<le> n then (rs_Header rw)(''Content-Length'' \<mapsto> FormatInt n) else rs_Header rw
        | None \<Rightarrow> rs_Header rw)"
    "rs_Body (fst (streamBlob env s k status rc (rw, w))) =
       rs_Body rw @ (if rs_discards rw then [] else received (rs_room rw) (rd_data rc))"
    "\<not> rs_discards rw \<Longrightarrow> w_metrics (snd (streamBlob env s k status rc (rw, w))) =
       w_metrics (add_bytes env s (length (received (rs_room rw) (rd_data rc))) w)"
proof -
  let ?rw1 = "case rd_size rc of Some n \<Rightarrow> if 0 \<le> n then SetHeader ''Content-Length'' (FormatInt n) rw else rw | None \<Rightarrow> rw"
  obtain n err rw2 where cb: "CopyBuffer rc (WriteHeader status ?rw1) = (n, err, rw2)"
    by (cases "CopyBuffer rc (WriteHeader status ?rw1)")
  have st: "streamBlob env s k status rc (rw, w) =
      (rw2, case err of Some e \<Rightarrow> log_event (LogStreamBlob k e) (add_bytes env s n w) | None \<Rightarrow> add_bytes env s n w)"
    using cb by (simp add: streamBlob_def Let_def)
  have rw1: "rs_Status ?rw1 = None" "rs_Body ?rw1 = rs_Body rw" "rs_discards ?rw1 = rs_discards rw"
    "rs_room ?rw1 = rs_room rw"
    "rs_Header ?rw1 = (case rd_size rc of
          Some n \<Rightarrow> if 0 \<le> n then (rs_Header rw)(''Content-Length'' \<mapsto> FormatInt n) else rs_Header rw
        | None \<Rightarrow> rs_Header rw)"
    using assms by (simp_all add: header_ops split: option.split)
  note c = CopyBuffer_spec [OF cb]
  show "rs_Status (fst (streamBlob env s k status rc (rw, w))) = Some status"
    by (simp add: st c header_ops rw1)
  show "rs_Header (fst (streamBlob env s k status rc (rw, w))) =
       (case rd_size rc of
          Some n \<Rightarrow> if 0 \<le> n then (rs_Header rw)(''Content-Length'' \<mapsto> FormatInt n) else rs_Header rw
        | None \<Rightarrow> rs_Header rw)"
    by (simp add: st c header_ops rw1)
  show "rs_Body (fst (streamBlob env s k status rc (rw, w))) =
       rs_Body rw @ (if rs_discards rw then [] else received (rs_room rw) (rd_data rc))"
    by (simp add: st c header_ops rw1)
  show "w_metrics (snd (streamBlob env s k status rc (rw, w))) =
       w_metrics (add_bytes env s (length (received (rs_room rw) (rd_data rc))) w)" if "\<not> rs_discards rw"
    using that by (simp add: st c header_ops rw1 log_event_def split: option.split)
qed


lemma serveSite_cases:
  obtains (document) p where "snd (Lookup m p)" "p = indexHTML \<or> p \<in> set (candidates (s_rest s))"
    "serveSite env r s m st = serveBlob env r s m (fst (Lookup m p)) 200 st"
  | (not_found) "serveSite env r s m st = serveNotFound env r s m st"
proof (cases "find (\<lambda>p. snd (Lookup m p)) (candidates (s_rest s))")
  case (Some p)
  then have "snd (Lookup m p)" "p \<in> set (candidates (s_rest s))"
    by (auto simp: find_Some_iff)
  with document Some show ?thesis
    by (simp add: serveSite_def Resolve_by_candidates)
next
  case None
  show ?thesis
  proof (cases "SPA m \<and> snd (Lookup m indexHTML)")
    case True
    with None document [of indexHTML] show ?thesis
      by (simp add: serveSite_def Resolve_by_candidates miss_def)
  next
    case False
    with None have "serveSite env r s m st = serveNotFound env r s m st"
      by (auto simp: serveSite_def Resolve_by_candidates miss_def)
    with not_found show ?thesis .
  qed
qed

lemma serveNotFound_cases:
  obtains (document) p where "snd (Lookup m p)"
    "serveNotFound env r s m st = serveBlob env r s m (fst (Lookup m p)) 404 st" "p = NotFoundDoc m"
  | (built_in) rw1 where "rs_Status (fst st) = None \<longrightarrow> rs_Status rw1 = Some 404" "rs_Body rw1 = rs_Body (fst st)"
    "rs_discards rw1 = rs_discards (fst st)"
    "serveNotFound env r s m st =
       (if rq_Method r = MethodHead then (rw1, snd st)
        else (snd (snd (WriteBody defaultNotFoundBody rw1)), add_bytes env s (fst (WriteBody defaultNotFoundBody rw1)) (snd st)))"
proof (cases "snd (Lookup m (NotFoundDoc m))")
  case True
  with document [of "NotFoundDoc m"] show ?thesis
    by (cases "Lookup m (NotFoundDoc m)"; cases st) (simp add: serveNotFound_def)
next
  case False
  let ?rw1 = "WriteHeader 404 (setSecurityHeaders m True (SetHeader ''Cache-Control'' (CacheControl ClassHTML)
      (SetHeader ''Content-Type'' ''text/html; charset=utf-8'' (fst st))))"
  show ?thesis
  proof (rule built_in [of ?rw1])
    show "rs_Status (fst st) = None \<longrightarrow> rs_Status ?rw1 = Some 404" "rs_Body ?rw1 = rs_Body (fst st)"
      "rs_discards ?rw1 = rs_discards (fst st)"
      by (simp_all add: setSecurityHeaders_def Let_def header_ops)
    show "serveNotFound env r s m st =
       (if rq_Method r = MethodHead then (?rw1, snd st)
        else (snd (snd (WriteBody defaultNotFoundBody ?rw1)), add_bytes env s (fst (WriteBody defaultNotFoundBody ?rw1)) (snd st)))"
      using False by (cases "Lookup m (NotFoundDoc m)"; cases st)
        (simp add: serveNotFound_def Let_def split: prod.split)
  qed
qed

lemma handle_site:
  assumes "rq_Method r = MethodGet \<or> rq_Method r = MethodHead" "parseSite (rq_Path r) = Some s"
    "loadManifest env s (observe env s w) = (Inr m, w2)"
  shows "handle env room r w = serveSite env r s m (newResponse r room, w2)"
  using assms by (auto simp: handle_def ServeHTTP_def)

text \<open>The fresh response of a request, stamped.\<close>

lemma stamped:
  "rs_Status (stampHeaders m e (newResponse r room)) = None"
  "rs_Body (stampHeaders m e (newResponse r room)) = []"
  "rs_discards (stampHeaders m e (newResponse r room)) \<longleftrightarrow> rq_Method r = MethodHead"
  "rs_room (stampHeaders m e (newResponse r room)) = room"
  "rs_Header (stampHeaders m e (newResponse r room)) = blob_header m e"
  by (simp_all add: stampHeaders_fields stampHeaders_header newResponse_simps)

lemma stream_fresh:
  assumes "rq_Method r \<noteq> MethodHead"
    and "streamBlob env s k status rc (stampHeaders m e (newResponse r room), w) = (rw, w')"
  shows "rs_Status rw = Some status" "rs_Body rw = received room (rd_data rc)"
    "rs_Header rw = (case rd_size rc of
        Some n \<Rightarrow> if 0 \<le> n then (blob_header m e)(''Content-Length'' \<mapsto> FormatInt n) else blob_header m e
      | None \<Rightarrow> blob_header m e)"
    "w_metrics w' = w_metrics (add_bytes env s (length (rs_Body rw)) w)"
  using assms(1) streamBlob_spec [OF stamped(1) [of m e r room], of env s k status rc w]
  by (simp_all add: assms(2) stamped split: option.split)

lemma not_found_status:
  "rs_Status (fst (serveNotFound env r s m (newResponse r room, w))) \<in> {Some 404, Some 500}"
proof (cases rule: serveNotFound_cases [of m env r s "(newResponse r room, w)"])
  case (document p)
  show ?thesis
    unfolding document(2)
    by (cases rule: serveBlob_cases [of 404 env r "fst (Lookup m p)" m s "newResponse r room" w])
      (auto simp: header_ops HTTPError_spec streamBlob_spec stamped)
next
  case (built_in rw1)
  obtain n f rw2 where wb: "WriteBody defaultNotFoundBody rw1 = (n, f, rw2)"
    by (cases "WriteBody defaultNotFoundBody rw1")
  with built_in WriteBody_spec [OF wb] show ?thesis
    by (simp add: newResponse_simps)
qed

subsection \<open>Integrity over any store\<close>

text \<open>A body sent with status 200 is an initial part of the blob held for a document the release has for the
  path requested.\<close>

lemma serveSite_body:
  assumes st: "object_store iv objs (e_Get env)" and iv: "iv (w_store w)"
    and ss: "serveSite env r s m (newResponse r room, w) = (rw, w')" and ok200: "rs_Status rw = Some 200"
  shows "rs_Body rw = [] \<or>
    (\<exists>p data. snd (Lookup m p) \<and> (p = indexHTML \<or> p \<in> set (candidates (s_rest s))) \<and>
       objs (w_store w) (BlobKey (s_project s) (s_name s) (Blob (fst (Lookup m p)))) = Some data \<and>
       prefix (rs_Body rw) data)"
proof (cases rule: serveSite_cases [of m s env r "(newResponse r room, w)"])
  case (document p)
  let ?e = "fst (Lookup m p)"
  have sb: "serveBlob env r s m ?e 200 (newResponse r room, w) = (rw, w')"
    using document(3) ss by simp
  show ?thesis
  proof (cases rule: serveBlob_cases [of 200 env r ?e m s "newResponse r room" w])
    case (stream rc st2)
    from object_store.get_sound [OF st iv, of _ rc] stream(2) obtain data where
      data: "objs (w_store w) (BlobKey (s_project s) (s_name s) (Blob ?e)) = Some data" "delivers rc data"
      by (metis fst_conv)
    have "rs_Body rw = received room (rd_data rc)"
      using stream_fresh(2) [OF stream(1)] sb stream(3) by simp
    moreover have "prefix (rd_data rc) data"
      using data(2) by (auto simp: delivers_def split: option.splits)
    ultimately have "prefix (rs_Body rw) data"
      using received_prefix prefix_order.trans by metis
    with document data(1) show ?thesis by metis
  next
    case not_modified
    with sb have "rs_Body rw = []" by (auto simp: header_ops stamped)
    then show ?thesis ..
  next
    case head
    with sb have "rs_Body rw = []" by (auto simp: header_ops stamped)
    then show ?thesis ..
  next
    case (failed err st2 msg code)
    with sb ok200 show ?thesis by (auto simp: HTTPError_spec stamped)
  qed
next
  case not_found
  with ss not_found_status [of env r s m room w] ok200 show ?thesis by auto
qed

text \<open>Content integrity over any store that keeps its contract, failing reads and broken connections
  included, and whatever is cached: a body sent with status 200 is an initial part of the stored blob of a
  document that the stored release has for the path requested; nothing else is ever sent as a 200.\<close>

lemma served_body:
  assumes st: "object_store iv objs (e_Get env)" and d: "do_runs env" and ok: "world_ok iv objs env w"
    and h: "handle env room r w = (rw, w')" and ok200: "rs_Status rw = Some 200"
  shows "rs_Body rw = [] \<or>
    (\<exists>s m p data. parseSite (rq_Path r) = Some s \<and> released env (objs (w_store w)) (site_key s) = Some m \<and>
       snd (Lookup m p) \<and> (p = indexHTML \<or> p \<in> set (candidates (s_rest s))) \<and>
       objs (w_store w) (BlobKey (s_project s) (s_name s) (Blob (fst (Lookup m p)))) = Some data \<and>
       prefix (rs_Body rw) data)"
proof -
  have mt: "rq_Method r = MethodGet \<or> rq_Method r = MethodHead"
  proof (rule ccontr)
    assume "\<not> ?thesis"
    with h ok200 show False by (auto simp: handle_def ServeHTTP_def HTTPError_spec header_ops newResponse_simps)
  qed
  with h ok200 obtain s where s: "parseSite (rq_Path r) = Some s"
    by (cases "parseSite (rq_Path r)") (auto simp: handle_def ServeHTTP_def HTTPError_spec newResponse_simps)
  obtain res w2 where ld: "loadManifest env s (observe env s w) = (res, w2)" by fastforce
  have oko: "world_ok iv objs env (observe env s w)" using ok by simp
  note l = object_store.loadManifest_sound(1-3) [OF st oko refl d ld]
  obtain m where m: "res = Inr m"
    using h ok200 mt s ld
    by (cases res) (auto simp: handle_def ServeHTTP_def HTTPError_spec newResponse_simps split: if_splits)
  then have rel: "released env (objs (w_store w)) (site_key s) = Some m" using l(3) by simp
  have h': "serveSite env r s m (newResponse r room, w2) = (rw, w')"
    using handle_site [OF mt s, of env w m w2 room] ld m h by simp
  have iv2: "iv (w_store w2)" and o2: "objs (w_store w2) = objs (w_store w)"
    using l(1,2) by (simp_all add: world_ok_def)
  from serveSite_body [OF st iv2 h' ok200] o2 s rel show ?thesis by metis
qed

lemma serveBlob_status:
  "rs_Status (fst (serveBlob env r s m e status (newResponse r room, w))) \<in> {Some status, Some 404, Some 500} \<or>
   status = 200 \<and> rs_Status (fst (serveBlob env r s m e status (newResponse r room, w))) = Some 304"
  by (cases rule: serveBlob_cases [of status env r e m s "newResponse r room" w])
    (auto simp: header_ops HTTPError_spec streamBlob_spec stamped)

lemma handle_status:
  "rs_Status (fst (handle env room r w)) \<in> {Some 200, Some 304, Some 400, Some 404, Some 405, Some 500}"
proof (cases "rq_Method r = MethodGet \<or> rq_Method r = MethodHead")
  case False
  then show ?thesis
    by (auto simp: handle_def ServeHTTP_def HTTPError_spec header_ops newResponse_simps)
next
  case mt: True
  show ?thesis
  proof (cases "parseSite (rq_Path r)")
    case None
    with mt show ?thesis by (auto simp: handle_def ServeHTTP_def HTTPError_spec newResponse_simps)
  next
    case (Some s)
    obtain res w2 where ld: "loadManifest env s (observe env s w) = (res, w2)"
      by (cases "loadManifest env s (observe env s w)")
    show ?thesis
    proof (cases res)
      case (Inl e)
      with mt Some ld show ?thesis
        by (auto simp: handle_def ServeHTTP_def HTTPError_spec newResponse_simps)
    next
      case (Inr m)
      have h: "handle env room r w = serveSite env r s m (newResponse r room, w2)"
        using handle_site [OF mt Some, of env w m w2 room] ld Inr by simp
      show ?thesis
      proof (cases rule: serveSite_cases [of m s env r "(newResponse r room, w2)"])
        case (document p)
        with serveBlob_status [of env r s m "fst (Lookup m p)" 200 room w2] show ?thesis
          by (auto simp: h)
      next
        case not_found
        with not_found_status [of env r s m room w2] show ?thesis by (auto simp: h)
      qed
    qed
  qed
qed

text \<open>The exact status, from what the store returns: first for one blob, then for the whole handler.\<close>

lemma serveSite_chosen:
  "serveSite env r s m st =
     (case chosen s m of Some (e, c) \<Rightarrow> serveBlob env r s m e c st | None \<Rightarrow> serveNotFound env r s m st)"
proof -
  have n: "serveNotFound env r s m st = serveBlob env r s m (fst (Lookup m (NotFoundDoc m))) 404 st"
    if "snd (Lookup m (NotFoundDoc m))"
    using that by (cases "Lookup m (NotFoundDoc m)"; cases st) (simp add: serveNotFound_def)
  show ?thesis
    by (auto simp: serveSite_def Resolve_by_candidates chosen_def miss_def n split: option.split)
qed

definition blob_status :: "request \<Rightarrow> nat \<Rightarrow> store_error + reader \<Rightarrow> nat" where
  "blob_status r c res =
     (if rq_Method r = MethodHead then c
      else case res of Inl err \<Rightarrow> (if is_NotExist err then 404 else 500) | Inr _ \<Rightarrow> c)"

lemma serveBlob_status_line:
  "rs_Status (fst (serveBlob env r s m e c (newResponse r room, w))) =
     Some (if unmodified (e_ParseTime env) r m e c then 304
       else blob_status r c (fst (e_Get env (BlobKey (s_project s) (s_name s) (Blob e)) (w_store w))))"
proof -
  obtain res st where "e_Get env (BlobKey (s_project s) (s_name s) (Blob e)) (w_store w) = (res, st)" by fastforce
  then show ?thesis
    by (cases res) (auto simp: serveBlob_def Let_def unmodified_def blob_status_def header_ops HTTPError_spec
        streamBlob_spec stamped)
qed

lemma built_in_status:
  assumes "chosen s m = None"
  shows "rs_Status (fst (serveNotFound env r s m (newResponse r room, w))) = Some 404"
proof (cases rule: serveNotFound_cases [of m env r s "(newResponse r room, w)"])
  case (document p)
  with chosen_none [OF assms] show ?thesis by simp
next
  case (built_in rw1)
  obtain n f rw2 where wb: "WriteBody defaultNotFoundBody rw1 = (n, f, rw2)"
    by (cases "WriteBody defaultNotFoundBody rw1")
  with built_in WriteBody_spec [OF wb] show ?thesis
    by (simp add: newResponse_simps)
qed

definition document_status :: "('s, 'v) env \<Rightarrow> request \<Rightarrow> site \<Rightarrow> Manifest \<Rightarrow> (string \<Rightarrow> store_error + reader) \<Rightarrow> nat" where
  "document_status env r s m opened =
     (case chosen s m of
        None \<Rightarrow> 404
      | Some (e, c) \<Rightarrow>
          if unmodified (e_ParseTime env) r m e c then 304
          else blob_status r c (opened (BlobKey (s_project s) (s_name s) (Blob e))))"

lemma handle_status_returns:
  "rs_Status (fst (handle env room r w)) =
     Some (if rq_Method r \<noteq> MethodGet \<and> rq_Method r \<noteq> MethodHead then 405
       else case parseSite (rq_Path r) of
         None \<Rightarrow> 400
       | Some s \<Rightarrow>
           (case loadManifest env s (observe env s w) of
              (Inl err, _) \<Rightarrow> if is_not_found err then 404 else 500
            | (Inr m, w2) \<Rightarrow> document_status env r s m (\<lambda>k. fst (e_Get env k (w_store w2)))))"
proof (cases "(rq_Method r = MethodGet \<or> rq_Method r = MethodHead) \<and> parseSite (rq_Path r) \<noteq> None")
  case False
  then show ?thesis
    by (auto simp: handle_def ServeHTTP_def HTTPError_spec header_ops newResponse_simps)
next
  case True
  then obtain s where s: "parseSite (rq_Path r) = Some s"
    and mt: "rq_Method r = MethodGet \<or> rq_Method r = MethodHead" by blast
  obtain res w2 where ld: "loadManifest env s (observe env s w) = (res, w2)"
    by (cases "loadManifest env s (observe env s w)")
  show ?thesis
  proof (cases res)
    case (Inl e)
    with mt s ld show ?thesis
      by (auto simp: handle_def ServeHTTP_def HTTPError_spec newResponse_simps)
  next
    case (Inr m)
    have "handle env room r w = serveSite env r s m (newResponse r room, w2)"
      using handle_site [OF mt s, of env w m w2 room] ld Inr by simp
    then have "rs_Status (fst (handle env room r w)) =
        Some (document_status env r s m (\<lambda>k. fst (e_Get env k (w_store w2))))"
      by (auto simp: serveSite_chosen document_status_def built_in_status serveBlob_status_line split: option.split)
    with mt s ld Inr show ?thesis by auto
  qed
qed

text \<open>The status the stored objects call for.\<close>

definition due_status :: "('s, 'v) env \<Rightarrow> (string \<Rightarrow> bytes option) \<Rightarrow> request \<Rightarrow> nat" where
  "due_status env stored r =
     (if rq_Method r \<noteq> MethodGet \<and> rq_Method r \<noteq> MethodHead then 405
      else case parseSite (rq_Path r) of
        None \<Rightarrow> 400
      | Some s \<Rightarrow>
          (case stored (site_key s) of
             None \<Rightarrow> 404
           | Some data \<Rightarrow>
               (case Load (e_rng env) (e_decode env) data of
                  Inl _ \<Rightarrow> 500
                | Inr m \<Rightarrow>
                    (case chosen s m of
                       None \<Rightarrow> 404
                     | Some (e, c) \<Rightarrow>
                         if unmodified (e_ParseTime env) r m e c then 304
                         else if rq_Method r = MethodHead then c
                         else if stored (BlobKey (s_project s) (s_name s) (Blob e)) = None then 404
                         else c))))"

lemma ideal_status: "an_Status (ideal env stored room r) = due_status env stored r"
  by (auto simp: ideal_def due_status_def released_def ideal_site_chosen error_answer_def ideal_blob_def
      unmodified_def ideal_not_found_def dest: chosen_none split: option.split sum.split)

text \<open>Over a store that keeps its contract but may fail, only a 500 can take the place of that status.\<close>

lemma blob_status_due:
  assumes st: "object_store iv objs g" and iv: "iv s"
  shows "blob_status r c (fst (g k s)) = 500 \<or>
    blob_status r c (fst (g k s)) = (if rq_Method r = MethodHead then c else if objs s k = None then 404 else c)"
proof (cases "fst (g k s)")
  case (Inl err)
  with object_store.get_absent [OF st iv, of k err] show ?thesis by (auto simp: blob_status_def)
next
  case (Inr rc)
  with object_store.get_sound [OF st iv, of k rc] show ?thesis by (auto simp: blob_status_def)
qed

lemma handle_status_due:
  assumes st: "object_store iv objs (e_Get env)" and d: "do_runs env" and ok: "world_ok iv objs env w"
  shows "rs_Status (fst (handle env room r w)) = Some (due_status env (objs (w_store w)) r) \<or>
    rs_Status (fst (handle env room r w)) = Some 500 \<and> (rq_Method r = MethodGet \<or> rq_Method r = MethodHead) \<and>
      parseSite (rq_Path r) \<noteq> None"
proof (cases "(rq_Method r = MethodGet \<or> rq_Method r = MethodHead) \<and> parseSite (rq_Path r) \<noteq> None")
  case False
  then show ?thesis by (auto simp: handle_status_returns due_status_def)
next
  case True
  then obtain s where s: "parseSite (rq_Path r) = Some s"
    and mt: "rq_Method r = MethodGet \<or> rq_Method r = MethodHead" by blast
  obtain res w2 where ld: "loadManifest env s (observe env s w) = (res, w2)"
    by (cases "loadManifest env s (observe env s w)")
  have oko: "world_ok iv objs env (observe env s w)" using ok by simp
  note l = object_store.loadManifest_sound(1-4) [OF st oko refl d ld]
  show ?thesis
  proof (cases res)
    case (Inl e)
    with mt s ld l(4) show ?thesis by (auto simp: handle_status_returns due_status_def)
  next
    case (Inr m)
    have rel: "released env (objs (w_store w)) (site_key s) = Some m" using l(3) Inr by simp
    then obtain data where data: "objs (w_store w) (site_key s) = Some data" "Load (e_rng env) (e_decode env) data = Inr m"
      by (auto simp: released_def split: option.splits sum.splits)
    have iv2: "iv (w_store w2)" and o2: "objs (w_store w2) = objs (w_store w)"
      using l(1,2) by (simp_all add: world_ok_def)
    let ?d = "document_status env r s m (\<lambda>k. fst (e_Get env k (w_store w2)))"
    have "?d = 500 \<or> ?d = due_status env (objs (w_store w)) r"
    proof (cases "chosen s m")
      case None
      with mt s data show ?thesis by (auto simp: document_status_def due_status_def)
    next
      case (Some ec)
      obtain e c where "ec = (e, c)" by fastforce
      with mt s data Some blob_status_due [OF st iv2, of r c "BlobKey (s_project s) (s_name s) (Blob e)", unfolded o2]
      show ?thesis
        by (simp add: document_status_def due_status_def split del: if_split) (auto split: if_splits)
    qed
    moreover have "rs_Status (fst (handle env room r w)) = Some ?d"
      using mt s ld Inr by (auto simp: handle_status_returns)
    ultimately show ?thesis using mt s by auto
  qed
qed

text \<open>C35: functional. The status line, exactly: over a reliable store every request gets the status the stored
  objects call for, whatever is cached: 405 for another method than GET and HEAD; 400 without a site
  prefix; 404 for a release that is not stored and 500 for one that does not load; else what its document
  calls for: 304 when the client's copy is current, 200 for a document found and 404 for a not-found
  page or for a GET whose blob is not stored. A store that keeps its contract but fails can only turn the
  answer to a request for a site into a 500, never into another wrong status.\<close>

theorem handle_status_line:
  assumes st: "object_store iv objs (e_Get env)" and d: "do_runs env" and ok: "world_ok iv objs env w"
  shows "(reliable_store iv objs (e_Get env) \<longrightarrow>
      rs_Status (fst (handle env room r w)) = Some (due_status env (objs (w_store w)) r)) \<and>
    (rs_Status (fst (handle env room r w)) = Some (due_status env (objs (w_store w)) r) \<or>
     rs_Status (fst (handle env room r w)) = Some 500 \<and> (rq_Method r = MethodGet \<or> rq_Method r = MethodHead) \<and>
       parseSite (rq_Path r) \<noteq> None)"
proof (intro conjI impI)
  assume "reliable_store iv objs (e_Get env)"
  from reliable_store.handle_answer [OF this ok refl d, of room r] ideal_status [of env "objs (w_store w)" room r]
  have "an_Status (answer_of (fst (handle env room r w))) = due_status env (objs (w_store w)) r" by simp
  moreover obtain c where "rs_Status (fst (handle env room r w)) = Some c" using handle_status_returns by blast
  ultimately show "rs_Status (fst (handle env room r w)) = Some (due_status env (objs (w_store w)) r)"
    by (simp add: answer_of_def)
qed (rule handle_status_due [OF assms])

text \<open>The demonstration release: its page, a page it does not have, and a release that is not stored.\<close>

lemma handle_status_line_witness:
  "rs_Status (fst (handle demo_env None (GET ''/acme/docs/r1/'') demo_world)) = Some 200 \<and>
   rs_Status (fst (handle demo_env None (GET ''/acme/docs/r1/none'') demo_world)) = Some 404 \<and>
   rs_Status (fst (handle demo_env None (GET ''/acme/docs/r2/'') demo_world)) = Some 404 \<and>
   rs_Status (fst (handle demo_env None (GET ''/acme'') demo_world)) = Some 400"
proof -
  have rel: "reliable_store (\<lambda>_. True) fake_objs (e_Get demo_env)"
    using fake.reliable_store_axioms demo_facts by simp
  have st: "rs_Status (fst (handle demo_env None r demo_world)) = Some (due_status demo_env (fake_objs demo_store) r)" for r
    using handle_status_line [OF reliable_store.axioms(1) [OF rel] demo_facts(1) demo_ok, of None r] rel
    by (simp add: demo_store_eq)
  show ?thesis unfolding st by code_simp
qed

lemma demo_answer:
  assumes "handle demo_env None (GET ''/acme/docs/r1/'') demo_world = (rw, w')"
  shows "rs_Status rw = Some 200" "rs_Body rw = ''<html>''"
proof -
  note ok = demo_ok and st = demo_store_eq
  have rel: "reliable_store (\<lambda>_. True) fake_objs (e_Get demo_env)"
    using fake.reliable_store_axioms demo_facts by simp
  have "answer_of rw = ideal demo_env (fake_objs demo_store) None (GET ''/acme/docs/r1/'')"
    using reliable_store.handle_answer [OF rel ok refl demo_facts(1), of None "GET ''/acme/docs/r1/''"] assms st
    by simp
  then have "(case rs_Status rw of Some c \<Rightarrow> c | None \<Rightarrow> 200) = 200 \<and> rs_Body rw = ''<html>''"
    by (simp add: demo_ideal answer_of_def split: option.splits)
  moreover have "rs_Status rw \<noteq> None"
    using handle_status [of demo_env None "GET ''/acme/docs/r1/''" demo_world] assms by auto
  ultimately show "rs_Status rw = Some 200" "rs_Body rw = ''<html>''" by auto
qed

subsection \<open>Accounting\<close>

lemma loadOnce_metrics: "w_metrics (snd (loadOnce env k w)) = w_metrics w"
  by (simp add: loadOnce_def Let_def split: prod.split option.split sum.split)

lemma loadManifest_metrics: "do_runs env \<Longrightarrow> w_metrics (snd (loadManifest env s w)) = w_metrics w"
  by (simp add: loadManifest_def Let_def do_runs_def loadOnce_metrics split: prod.split option.split)

lemma add_bytes_0: "w_metrics (add_bytes env s 0 w) = w_metrics w"
  by (simp add: add_bytes_def AddResponseBytes_def)

definition counts_body :: "('s, 'v) env \<Rightarrow> site \<Rightarrow> response \<Rightarrow> 'v metrics \<Rightarrow> 'v metrics \<Rightarrow> bool" where
  "counts_body env s rw mt mt' \<longleftrightarrow>
     (\<exists>n. mt' = AddResponseBytes (e_counters env) (e_now env) (s_project s) (s_name s) (int n) mt \<and>
        (if rs_Status rw = Some 200 \<or> rs_Status rw = Some 304 then n = length (rs_Body rw)
         else n = 0 \<or> n = length (rs_Body rw)))"

lemma counts_none: "rs_Body rw = [] \<Longrightarrow> counts_body env s rw mt mt"
  by (auto simp: counts_body_def AddResponseBytes_def intro!: exI [of _ 0])

lemma counts_error: "rs_Status rw = Some 404 \<or> rs_Status rw = Some 500 \<Longrightarrow> counts_body env s rw mt mt"
  by (auto simp: counts_body_def AddResponseBytes_def intro!: exI [of _ 0])

lemma counts_all: "counts_body env s rw (w_metrics w) (w_metrics (add_bytes env s (length (rs_Body rw)) w))"
  by (auto simp: counts_body_def add_bytes_def)

lemma serveBlob_counts:
  assumes "serveBlob env r s m e status (newResponse r room, w) = (rw, w')"
  shows "counts_body env s rw (w_metrics w) (w_metrics w')"
proof (cases rule: serveBlob_cases [of status env r e m s "newResponse r room" w])
  case not_modified
  with assms show ?thesis by (auto simp: header_ops stamped intro: counts_none)
next
  case head
  with assms show ?thesis by (auto simp: header_ops stamped intro: counts_none)
next
  case (failed err st msg code)
  with assms show ?thesis by (auto simp: HTTPError_spec stamped intro!: counts_error)
next
  case (stream rc st)
  with assms have "w_metrics w' = w_metrics (add_bytes env s (length (rs_Body rw)) (w\<lparr>w_store := st\<rparr>))"
    using stream_fresh(4) by metis
  with counts_all [of env s rw "w\<lparr>w_store := st\<rparr>"] show ?thesis by simp
qed

lemma serveNotFound_counts:
  assumes "serveNotFound env r s m (newResponse r room, w) = (rw, w')"
  shows "counts_body env s rw (w_metrics w) (w_metrics w')"
proof (cases rule: serveNotFound_cases [of m env r s "(newResponse r room, w)"])
  case (document p)
  with assms serveBlob_counts show ?thesis by metis
next
  case (built_in rw1)
  obtain n f rw2 where wb: "WriteBody defaultNotFoundBody rw1 = (n, f, rw2)"
    by (cases "WriteBody defaultNotFoundBody rw1")
  note b = WriteBody_spec [OF wb]
  show ?thesis
  proof (cases "rq_Method r = MethodHead")
    case True
    with built_in assms show ?thesis by (auto simp: newResponse_simps intro: counts_none)
  next
    case False
    with built_in assms wb have "rw = rw2" "w' = add_bytes env s n w" by auto
    moreover have "n = length (rs_Body rw2)"
      using b built_in False by (simp add: newResponse_simps)
    ultimately show ?thesis using counts_all [of env s rw2 w] by simp
  qed
qed

lemma serveSite_counts:
  assumes "serveSite env r s m (newResponse r room, w) = (rw, w')"
  shows "counts_body env s rw (w_metrics w) (w_metrics w')"
proof (cases rule: serveSite_cases [of m s env r "(newResponse r room, w)"])
  case (document p)
  with assms serveBlob_counts show ?thesis by metis
next
  case not_found
  with assms serveNotFound_counts show ?thesis by metis
qed

lemma handle_counts:
  assumes d: "do_runs env" and h: "handle env room r w = (rw, w')"
  shows "if rq_Method r = MethodGet \<or> rq_Method r = MethodHead then
      (case parseSite (rq_Path r) of
         None \<Rightarrow> w_metrics w' = w_metrics w
       | Some s \<Rightarrow> counts_body env s rw
           (ObserveRequest (e_counters env) (e_now env) (s_project s) (s_name s) (w_metrics w)) (w_metrics w'))
    else w_metrics w' = w_metrics w"
proof (cases "rq_Method r = MethodGet \<or> rq_Method r = MethodHead")
  case False
  with h show ?thesis by (auto simp: handle_def ServeHTTP_def)
next
  case mt: True
  show ?thesis
  proof (cases "parseSite (rq_Path r)")
    case None
    with mt h show ?thesis by (auto simp: handle_def ServeHTTP_def)
  next
    case (Some s)
    obtain res w2 where ld: "loadManifest env s (observe env s w) = (res, w2)"
      by (cases "loadManifest env s (observe env s w)")
    have m2: "w_metrics w2 = ObserveRequest (e_counters env) (e_now env) (s_project s) (s_name s) (w_metrics w)"
      using loadManifest_metrics [OF d, of s "observe env s w"] ld by (simp add: observe_def)
    have "counts_body env s rw (w_metrics w2) (w_metrics w')"
    proof (cases res)
      case (Inl e)
      with mt Some ld h show ?thesis
        by (auto simp: handle_def ServeHTTP_def log_event_def HTTPError_spec newResponse_simps
            split: if_splits intro!: counts_error)
    next
      case (Inr m)
      have "serveSite env r s m (newResponse r room, w2) = (rw, w')"
        using handle_site [OF mt Some, of env w m w2 room] ld Inr h by simp
      then show ?thesis by (rule serveSite_counts)
    qed
    with mt Some m2 show ?thesis by simp
  qed
qed

text \<open>C20: functional. Accounting, over any store: a request that names a site counts exactly one request
  for that site, and then the body bytes sent for it: all of them for a 200 or 304, and for an error or
  not-found page either all or none. A rejected request counts nothing.\<close>

theorem handle_accounting:
  assumes d: "do_runs env" and h: "handle env room r w = (rw, w')"
  shows "if rq_Method r = MethodGet \<or> rq_Method r = MethodHead then
      (case parseSite (rq_Path r) of
         None \<Rightarrow> w_metrics w' = w_metrics w
       | Some s \<Rightarrow> counts_body env s rw
           (ObserveRequest (e_counters env) (e_now env) (s_project s) (s_name s) (w_metrics w)) (w_metrics w'))
    else w_metrics w' = w_metrics w"
  by (rule handle_counts [OF d h])

lemma handle_accounting_witness:
  "\<exists>s. parseSite ''/acme/docs/r1/'' = Some s \<and>
     counts_body demo_env s (fst (handle demo_env None (GET ''/acme/docs/r1/'') demo_world))
       (ObserveRequest map_ops (epoch_plus 0) (s_project s) (s_name s) (w_metrics demo_world))
       (w_metrics (snd (handle demo_env None (GET ''/acme/docs/r1/'') demo_world)))"
proof -
  obtain rw w' where h: "handle demo_env None (GET ''/acme/docs/r1/'') demo_world = (rw, w')"
    by (cases "handle demo_env None (GET ''/acme/docs/r1/'') demo_world")
  have "parseSite ''/acme/docs/r1/'' \<noteq> None" by code_simp
  with handle_accounting [OF demo_facts(1) h] h show ?thesis
    by (auto simp: GET_def MethodGet_def demo_env_def)
qed


subsection \<open>Headers\<close>

lemma bad_method_status:
  "rq_Method r \<noteq> MethodGet \<Longrightarrow> rq_Method r \<noteq> MethodHead \<Longrightarrow> rs_Status (fst (handle env room r w)) = Some 405"
  by (simp add: handle_def ServeHTTP_def HTTPError_spec header_ops newResponse_simps)

lemma serveBlob_headers:
  assumes sb: "serveBlob env r s m e status (newResponse r room, w) = (rw, w')"
    and st: "rs_Status rw = Some 200 \<or> rs_Status rw = Some 304"
  shows "\<forall>k. k \<noteq> ''Content-Length'' \<longrightarrow> rs_Header rw k = blob_header m e k"
proof (cases rule: serveBlob_cases [of status env r e m s "newResponse r room" w])
  case (stream rc st2)
  note sf = stream_fresh(3) [OF stream(1) trans [OF stream(3) [symmetric] sb]]
  show ?thesis by (simp add: sf split: option.split)
next
  case (failed err st2 msg code)
  with sb st show ?thesis by (auto simp: HTTPError_spec stamped)
next
  case not_modified
  with sb show ?thesis by (auto simp: header_ops stamped)
next
  case head
  with sb show ?thesis by (auto simp: header_ops stamped)
qed

text \<open>C32: safety. Headers of every 200 and 304, over any store: the cache lifetime is the one of the
  served file's class, the validator is the digest of its blob, the security headers are set, and the
  page is kept out of search engines exactly when it is HTML of a release that is not production.\<close>

theorem served_headers:
  assumes ps: "parseSite (rq_Path r) = Some s"
    and ld: "loadManifest env s (observe env s w) = (Inr m, w2)"
    and h: "handle env room r w = (rw, w')"
    and st: "rs_Status rw = Some 200 \<or> rs_Status rw = Some 304"
  shows "\<exists>p. snd (Lookup m p) \<and> (p = indexHTML \<or> p \<in> set (candidates (s_rest s))) \<and>
     rs_Header rw ''Cache-Control'' = Some (CacheControl (Cache (fst (Lookup m p)))) \<and>
     rs_Header rw ''ETag'' = Some (ETag (Blob (fst (Lookup m p)))) \<and>
     rs_Header rw ''X-Content-Type-Options'' = Some ''nosniff'' \<and>
     rs_Header rw ''X-Frame-Options'' = Some ''DENY'' \<and>
     rs_Header rw ''X-Robots-Tag'' =
       (if HasPrefix (hdr_Get (rs_Header rw) ''Content-Type'') ''text/html'' \<and> \<not> IsProduction m
        then Some ''noindex'' else None)"
proof -
  have mt: "rq_Method r = MethodGet \<or> rq_Method r = MethodHead"
  proof (rule ccontr)
    assume "\<not> ?thesis"
    then have "rs_Status rw = Some 405" using bad_method_status [of r env room w] h by simp
    with st show False by simp
  qed
  have ss: "serveSite env r s m (newResponse r room, w2) = (rw, w')"
    using handle_site [OF mt ps ld, of room] h by simp
  show ?thesis
  proof (cases rule: serveSite_cases [of m s env r "(newResponse r room, w2)"])
    case (document p)
    let ?e = "fst (Lookup m p)"
    have sb: "serveBlob env r s m ?e 200 (newResponse r room, w2) = (rw, w')"
      using document(3) ss by simp
    have hd: "rs_Header rw k = blob_header m ?e k" if "k \<noteq> ''Content-Length''" for k
      using serveBlob_headers [OF sb st] that by blast
    have "hdr_Get (rs_Header rw) ''Content-Type'' = ContentType ?e"
      by (simp add: hdr_Get_def hd blob_header_def)
    then show ?thesis
      using document(1,2) by (intro exI [of _ p]) (simp add: hd blob_header_def)
  next
    case not_found
    with ss not_found_status [of env r s m room w2] st show ?thesis by auto
  qed
qed

lemma served_headers_witness:
  "rs_Header (fst (handle demo_env None (GET ''/acme/docs/r1/'') demo_world)) ''X-Frame-Options'' = Some ''DENY''"
proof -
  obtain rw w' where h: "handle demo_env None (GET ''/acme/docs/r1/'') demo_world = (rw, w')"
    by (cases "handle demo_env None (GET ''/acme/docs/r1/'') demo_world")
  let ?s = "\<lparr>s_project = ''acme'', s_name = ''docs'', s_releaseSHA = ''r1'', s_rest = ''/''\<rparr>"
  have ps: "parseSite (rq_Path (GET ''/acme/docs/r1/'')) = Some ?s" by code_simp
  have rel: "reliable_store (\<lambda>_. True) fake_objs (e_Get demo_env)"
    using fake.reliable_store_axioms demo_facts by simp
  have k: "site_key ?s = ''sites/acme/docs/releases/r1''" by code_simp
  obtain res w2 where ld: "loadManifest demo_env ?s (observe demo_env ?s demo_world) = (res, w2)"
    by (cases "loadManifest demo_env ?s (observe demo_env ?s demo_world)")
  have "world_ok (\<lambda>_. True) fake_objs demo_env (observe demo_env ?s demo_world)"
    using demo_ok by simp
  from reliable_store.loadManifest_complete [OF rel this refl demo_facts(1) ld]
  have "res = Inr (projr (Load in_order demo_dec ''{}''))"
    by (simp add: demo_store_eq k demo_released)
  with ld have ld': "loadManifest demo_env ?s (observe demo_env ?s demo_world) =
      (Inr (projr (Load in_order demo_dec ''{}'')), w2)" by simp
  have "rs_Status rw = Some 200 \<or> rs_Status rw = Some 304"
    using demo_answer(1) [OF h] by blast
  from served_headers [OF ps ld' h this] h show ?thesis by auto
qed



end
