(* ===== verification/ServerClient.thy ===== *)
theory ServerClient
  imports ServerProps
begin

section \<open>The gateway as its clients and publishers see it\<close>

text \<open>
  Properties that combine the handler with what a client or publisher does: revalidating a response
  with its own validator, asking for the headers alone, publishing with slash-prefixed paths, and
  asking for site prefixes made of dot elements. They rest on the refinement of \<open>ServerSpec\<close>.
\<close>

subsection \<open>Revalidation\<close>

definition revalidate :: "string \<Rightarrow> request \<Rightarrow> request" where
  "revalidate etag r = r\<lparr>rq_Header := (rq_Header r)(''If-None-Match'' \<mapsto> etag)\<rparr>"

lemma revalidate_simps [simp]:
  "rq_Method (revalidate t r) = rq_Method r" "rq_Path (revalidate t r) = rq_Path r"
  "hdr_Get (rq_Header (revalidate t r)) ''If-None-Match'' = t"
  by (simp_all add: revalidate_def hdr_Get_def)

lemma ETag_matches_itself: "CHR '','' \<notin> set x \<Longrightarrow> NotModified (ETag x) (ETag x)"
proof -
  assume "CHR '','' \<notin> set x"
  then have "CHR '','' \<notin> set (ETag x)" by (simp add: ETag_def quote_def)
  moreover have "ETag x \<noteq> []" "ETag x \<noteq> ''*''" by (simp_all add: ETag_def quote_def)
  ultimately show ?thesis by (simp add: NotModified_def)
qed

lemma ideal_blob_revalidate:
  assumes "an_Status (ideal_blob pt stored room r s m e status) = 200" "CHR '','' \<notin> set (Blob e)"
  shows "ideal_blob pt stored room (revalidate (ETag (Blob e)) r) s m e status =
    \<lparr>an_Status = 304, an_Header = blob_header m e, an_Body = []\<rparr>"
proof -
  have "status = 200"
    using assms(1) by (auto simp: ideal_blob_def error_answer_def split: if_splits option.splits)
  moreover have "conditionalNotModified pt (revalidate (ETag (Blob e)) r) (ETag (Blob e)) (ModTime m)"
    using ETag_matches_itself [OF assms(2)] by (simp add: conditionalNotModified_def ETag_def)
  ultimately show ?thesis by (simp add: ideal_blob_def)
qed

lemma ideal_not_found_status: "an_Status (ideal_not_found pt stored room r s m) = 404"
  by (auto simp: ideal_not_found_def ideal_blob_def error_answer_def split: option.split)

lemma ideal_site_200:
  assumes "an_Status (ideal_site env stored room r s m) = 200"
  obtains e where "\<And>r. ideal_site env stored room r s m = ideal_blob (e_ParseTime env) stored room r s m e 200"
proof (cases "find (\<lambda>p. snd (Lookup m p)) (candidates (s_rest s))")
  case (Some p)
  with that show ?thesis by (simp add: ideal_site_def)
next
  case None
  with assms that ideal_not_found_status show ?thesis
    by (auto simp: ideal_site_def split: if_splits)
qed

lemma ideal_blob_200_ETag:
  "an_Status (ideal_blob pt stored room r s m e 200) = 200 \<Longrightarrow>
   an_Header (ideal_blob pt stored room r s m e 200) ''ETag'' = Some (ETag (Blob e))"
  by (auto simp: ideal_blob_def error_answer_def blob_header_def split: if_splits option.splits)

lemma ideal_200:
  assumes "an_Status (ideal env stored room r) = 200"
  obtains s m where "rq_Method r = MethodGet \<or> rq_Method r = MethodHead" "parseSite (rq_Path r) = Some s"
    "released env stored (site_key s) = Some m" "ideal env stored room r = ideal_site env stored room r s m"
  using assms that
  by (auto simp: ideal_def error_answer_def split: if_splits option.splits)

text \<open>A request answered 200 names a blob, and every request for the same path is answered from it.\<close>

lemma served_200:
  fixes env :: "('s, 'v) env"
  assumes st: "reliable_store iv objs (e_Get env)" and d: "do_runs env" and ok: "world_ok iv objs env w"
    and a: "answer_of (fst (handle env room r w)) = a" "an_Status a = 200"
  obtains s m e where "released env (objs (w_store w)) (site_key s) = Some m"
    "a = ideal_blob (e_ParseTime env) (objs (w_store w)) room r s m e 200"
    "\<And>r' w2. \<lbrakk>rq_Method r' = rq_Method r; rq_Path r' = rq_Path r; world_ok iv objs env w2;
       objs (w_store w2) = objs (w_store w)\<rbrakk> \<Longrightarrow>
       answer_of (fst (handle env room r' w2)) = ideal_blob (e_ParseTime env) (objs (w_store w)) room r' s m e 200"
proof -
  let ?o = "objs (w_store w)"
  have id: "ideal env ?o room r = a"
    using reliable_store.handle_answer [OF st ok refl d, of room r] a(1) by simp
  then obtain s m where mt: "rq_Method r = MethodGet \<or> rq_Method r = MethodHead"
    and s: "parseSite (rq_Path r) = Some s" and m: "released env ?o (site_key s) = Some m"
    and site: "ideal env ?o room r = ideal_site env ?o room r s m"
    using a(2) ideal_200 by metis
  then have "an_Status (ideal_site env ?o room r s m) = 200" using id a(2) by simp
  then obtain e where e: "\<And>r. ideal_site env ?o room r s m = ideal_blob (e_ParseTime env) ?o room r s m e 200"
    by (rule ideal_site_200) blast
  show thesis
  proof (rule that [OF m])
    show "a = ideal_blob (e_ParseTime env) ?o room r s m e 200" using id site e by simp
    fix r' :: request and w2 :: "('s, 'v) world"
    assume r': "rq_Method r' = rq_Method r" "rq_Path r' = rq_Path r"
      and w2: "world_ok iv objs env w2" "objs (w_store w2) = ?o"
    have "ideal env ?o room r' = ideal_blob (e_ParseTime env) ?o room r' s m e 200"
      using mt s m r' by (auto simp: ideal_def e)
    with reliable_store.handle_answer [OF st w2(1) refl d, of room r'] w2(2)
    show "answer_of (fst (handle env room r' w2)) = ideal_blob (e_ParseTime env) ?o room r' s m e 200"
      by simp
  qed
qed

text \<open>C17: functional. Revalidation is cheap: whenever a request is answered 200, the same request sent
  again with the validator it was given, to the same gateway in any later state of its cache, is
  answered 304 with no body and the same validator.\<close>

theorem revalidation_304:
  assumes st: "reliable_store iv objs (e_Get env)" and d: "do_runs env"
    and ok: "world_ok iv objs env w" "world_ok iv objs env w2" and same: "objs (w_store w2) = objs (w_store w)"
    and a: "answer_of (fst (handle env room r w)) = a" "an_Status a = 200" "an_Header a ''ETag'' = Some t"
    and comma: "CHR '','' \<notin> set t"
  shows "an_Status (answer_of (fst (handle env room (revalidate t r) w2))) = 304 \<and>
     an_Body (answer_of (fst (handle env room (revalidate t r) w2))) = [] \<and>
     an_Header (answer_of (fst (handle env room (revalidate t r) w2))) ''ETag'' = Some t"
proof -
  from st d ok(1) a(1,2) obtain s m e where site: "a = ideal_blob (e_ParseTime env) (objs (w_store w)) room r s m e 200"
    and again: "\<And>r' w2. \<lbrakk>rq_Method r' = rq_Method r; rq_Path r' = rq_Path r; world_ok iv objs env w2;
       objs (w_store w2) = objs (w_store w)\<rbrakk> \<Longrightarrow>
       answer_of (fst (handle env room r' w2)) = ideal_blob (e_ParseTime env) (objs (w_store w)) room r' s m e 200"
    by (rule served_200) blast
  have a200: "an_Status (ideal_blob (e_ParseTime env) (objs (w_store w)) room r s m e 200) = 200"
    using site a(2) by simp
  from ideal_blob_200_ETag [OF a200] have t: "t = ETag (Blob e)" using site a(3) by simp
  with comma have "CHR '','' \<notin> set (Blob e)" by (simp add: ETag_def)
  from ideal_blob_revalidate [OF a200 this] again [of "revalidate t r" w2] ok(2) same
  show ?thesis by (simp add: blob_header_def t)
qed

lemma revalidation_304_witness:
  "an_Status (answer_of (fst (handle demo_env None (revalidate (ETag ''b1'') (GET ''/acme/docs/r1/'')) demo_world))) = 304"
proof -
  have rel: "reliable_store (\<lambda>_. True) fake_objs (e_Get demo_env)"
    using fake.reliable_store_axioms demo_facts by simp
  have a: "answer_of (fst (handle demo_env None (GET ''/acme/docs/r1/'') demo_world)) =
      ideal demo_env (fake_objs demo_store) None (GET ''/acme/docs/r1/'')"
    using reliable_store.handle_answer [OF rel demo_ok refl demo_facts(1)] by (simp add: demo_store_eq)
  have "an_Header (ideal demo_env (fake_objs demo_store) None (GET ''/acme/docs/r1/'')) ''ETag'' = Some (ETag ''b1'')"
    by (simp add: demo_ideal blob_header_def demo_file_def)
  moreover have "CHR '','' \<notin> set (ETag ''b1'')" by (simp add: ETag_def quote_def)
  ultimately show ?thesis
    using revalidation_304 [OF rel demo_facts(1) demo_ok demo_ok refl a] by (simp add: demo_ideal)
qed

subsection \<open>HEAD\<close>

definition as_HEAD :: "request \<Rightarrow> request" where
  "as_HEAD r = r\<lparr>rq_Method := MethodHead\<rparr>"

lemma as_HEAD_simps [simp]:
  "rq_Method (as_HEAD r) = MethodHead" "rq_Path (as_HEAD r) = rq_Path r" "rq_Header (as_HEAD r) = rq_Header r"
  by (simp_all add: as_HEAD_def)

lemma conditional_as_HEAD: "conditionalNotModified pt (as_HEAD r) t mt = conditionalNotModified pt r t mt"
  by (simp add: conditionalNotModified_def)

text \<open>The document that answers a request, as far as the stored objects have one.\<close>

definition document :: "('s, 'v) env \<Rightarrow> (string \<Rightarrow> bytes option) \<Rightarrow> request \<Rightarrow> (site \<times> Manifest \<times> File \<times> nat) option" where
  "document env stored r =
     (case parseSite (rq_Path r) of
        None \<Rightarrow> None
      | Some s \<Rightarrow>
          (case released env stored (site_key s) of
             None \<Rightarrow> None
           | Some m \<Rightarrow> map_option (\<lambda>(e, c). (s, m, e, c)) (chosen s m)))"

text \<open>What a HEAD answer owes to the answer of a GET that needs no blob.\<close>

definition bodiless :: "answer \<Rightarrow> answer" where
  "bodiless a = a\<lparr>an_Body := []\<rparr>"

lemma bodiless_error: "error_answer (as_HEAD r) room h msg c = bodiless (error_answer r room h msg c)"
  by (simp add: error_answer_def bodiless_def body_for_def)

lemma ideal_not_found_HEAD:
  "chosen s m = None \<Longrightarrow> ideal_not_found pt stored room (as_HEAD r) s m = bodiless (ideal_not_found pt stored room r s m)"
  by (simp add: ideal_not_found_def chosen_none bodiless_def body_for_def)

lemma ideal_blob_HEAD:
  "ideal_blob pt stored room (as_HEAD r) s m e c =
     \<lparr>an_Status = (if unmodified pt r m e c then 304 else c), an_Header = blob_header m e, an_Body = []\<rparr>"
  by (simp add: ideal_blob_def unmodified_def conditional_as_HEAD)

lemma ideal_blob_GET:
  assumes "rq_Method r = MethodGet"
  shows "ideal_blob pt stored room r s m e c =
     (if unmodified pt r m e c then \<lparr>an_Status = 304, an_Header = blob_header m e, an_Body = []\<rparr>
      else case stored (BlobKey (s_project s) (s_name s) (Blob e)) of
        None \<Rightarrow> error_answer r room (blob_header m e) ''blob not found'' 404
      | Some d \<Rightarrow> \<lparr>an_Status = c, an_Header = (blob_header m e)(''Content-Length'' \<mapsto> FormatInt (int (length d))),
          an_Body = received room d\<rparr>)"
  using assms by (simp add: ideal_blob_def unmodified_def MethodGet_def MethodHead_def)

lemma ideal_document:
  assumes "rq_Method r = MethodGet \<or> rq_Method r = MethodHead" "document env stored r = Some (s, m, e, c)"
  shows "ideal env stored room r = ideal_blob (e_ParseTime env) stored room r s m e c"
  using assms by (auto simp: document_def ideal_def ideal_site_chosen split: option.splits)

lemma ideal_no_document:
  assumes "rq_Method r = MethodGet" "document env stored r = None"
  shows "ideal env stored room (as_HEAD r) = bodiless (ideal env stored room r)"
  using assms
  by (auto simp: document_def ideal_def ideal_site_chosen bodiless_error ideal_not_found_HEAD split: option.splits)

lemma document_as_HEAD: "document env stored (as_HEAD r) = document env stored r"
  by (simp add: document_def)

text \<open>C34: equivalence. HEAD beside GET, exactly, over a reliable store, whatever is cached. Where no document
  answers, HEAD has the status and all headers of GET, without the body. Where one does, HEAD has its
  status and headers, or is a 304 exactly when GET is; it never reads the blob. So against a GET that
  sends the blob it lacks exactly the Content-Length, which GET takes from the stored blob; and for a blob
  that is not stored HEAD still announces the document where GET is a 404.\<close>

theorem HEAD_beside_GET:
  fixes stored :: "string \<Rightarrow> bytes option" and head get :: answer
  assumes st: "reliable_store iv objs (e_Get env)" and d: "do_runs env" and ok: "world_ok iv objs env w"
    and g: "rq_Method r = MethodGet" and stored: "stored = objs (w_store w)"
    and head: "head = answer_of (fst (handle env room (as_HEAD r) w))"
    and get: "get = answer_of (fst (handle env room r w))"
  shows "case document env stored r of
     None \<Rightarrow> head = bodiless get
   | Some (s, m, e, c) \<Rightarrow>
       if unmodified (e_ParseTime env) r m e c
       then head = get \<and> get = \<lparr>an_Status = 304, an_Header = blob_header m e, an_Body = []\<rparr>
       else head = \<lparr>an_Status = c, an_Header = blob_header m e, an_Body = []\<rparr> \<and>
         an_Header head ''Content-Length'' = None \<and>
         (case stored (BlobKey (s_project s) (s_name s) (Blob e)) of
            Some data \<Rightarrow> get = head\<lparr>an_Header := (an_Header head)(''Content-Length'' \<mapsto> FormatInt (int (length data))),
              an_Body := received room data\<rparr>
          | None \<Rightarrow> an_Status get = 404 \<and> an_Header get = as_error (an_Header head) \<and>
              an_Body get = received room (''blob not found'' @ newline))"
proof -
  have h: "head = ideal env stored room (as_HEAD r)" and i: "get = ideal env stored room r"
    using reliable_store.handle_answer [OF st ok refl d] by (simp_all add: head get stored)
  show ?thesis
  proof (cases "document env stored r")
    case None
    with ideal_no_document [OF g None] show ?thesis by (simp add: h i)
  next
    case (Some x)
    obtain s m e c where x: "x = (s, m, e, c)" by (cases x)
    have "document env stored (as_HEAD r) = Some (s, m, e, c)" using Some x document_as_HEAD by metis
    then have h': "head = ideal_blob (e_ParseTime env) stored room (as_HEAD r) s m e c"
      unfolding h by (intro ideal_document) simp_all
    have i': "get = ideal_blob (e_ParseTime env) stored room r s m e c"
      unfolding i using g Some x by (intro ideal_document) simp_all
    have "blob_header m e ''Content-Length'' = None" by (simp add: blob_header_def)
    with Some x g show ?thesis
      by (simp add: h' i' ideal_blob_HEAD ideal_blob_GET error_answer_def body_for_def MethodGet_def MethodHead_def
          split: option.split)
  qed
qed

lemma HEAD_beside_GET_witness:
  "an_Header (answer_of (fst (handle demo_env None (as_HEAD (GET ''/acme/docs/r1/'')) demo_world))) =
     blob_header (projr (Load in_order demo_dec ''{}'')) (demo_file ''b1'') \<and>
   an_Header (answer_of (fst (handle demo_env None (as_HEAD (GET ''/acme/docs/r1/'')) demo_world))) ''Content-Length'' = None \<and>
   an_Header (answer_of (fst (handle demo_env None (GET ''/acme/docs/r1/'') demo_world))) ''Content-Length'' = Some ''6''"
proof -
  let ?r = "GET ''/acme/docs/r1/''"
  let ?s = "\<lparr>s_project = ''acme'', s_name = ''docs'', s_releaseSHA = ''r1'', s_rest = ''/''\<rparr>"
  have rel: "reliable_store (\<lambda>_. True) fake_objs (e_Get demo_env)"
    using fake.reliable_store_axioms demo_facts by simp
  have g: "rq_Method ?r = MethodGet" by (simp add: GET_def MethodGet_def)
  have s: "parseSite (rq_Path ?r) = Some ?s" "site_key ?s = ''sites/acme/docs/releases/r1''" by code_simp+
  have c: "chosen ?s (projr (Load in_order demo_dec ''{}'')) = Some (demo_file ''b1'', 200)" by code_simp
  have doc: "document demo_env (fake_objs demo_store) ?r = Some (?s, projr (Load in_order demo_dec ''{}''), demo_file ''b1'', 200)"
    by (simp add: document_def s demo_released c)
  have u: "\<not> unmodified (e_ParseTime demo_env) ?r m e 200" for m e
    by (simp add: unmodified_def conditionalNotModified_def hdr_Get_def GET_def)
  have b: "fake_objs demo_store (BlobKey ''acme'' ''docs'' (Blob (demo_file ''b1''))) = Some ''<html>''"
    "FormatInt 6 = ''6''"
    by code_simp+
  from HEAD_beside_GET [OF rel demo_facts(1) demo_ok g demo_store_eq [THEN arg_cong, of fake_objs, symmetric] refl refl, of None]
  show ?thesis
    by (simp add: doc u b split del: if_split) (simp add: blob_header_def b)
qed

subsection \<open>From the publisher to the client\<close>

text \<open>The specification of a plain GET of a published file.\<close>

lemma ideal_found:
  assumes site: "p \<noteq> []" "n \<noteq> []" "x \<noteq> []" "slash \<notin> set p" "slash \<notin> set n" "slash \<notin> set x"
    and man: "held (ManifestKey p n x) = Some data" "Load (e_rng env) (e_decode env) data = Inr m"
    and fl: "canonical path" "Lookup m path = (f, True)"
    and blob: "held (BlobKey p n (Blob f)) = Some body"
    and req: "rq_Method r = MethodGet" "rq_Header r = Map.empty"
      "rq_Path r = ''/'' @ p @ ''/'' @ n @ ''/'' @ x @ ''/'' @ path"
  shows "ideal env held room r =
     \<lparr>an_Status = 200, an_Header = (blob_header m f)(''Content-Length'' \<mapsto> FormatInt (int (length body))),
      an_Body = received room body\<rparr>"
proof -
  let ?s = "\<lparr>s_project = p, s_name = n, s_releaseSHA = x, s_rest = slash # path\<rparr>"
  have s: "parseSite (rq_Path r) = Some ?s"
    using site by (simp add: parseSite_trimmed req(3))
  have rel: "released env held (site_key ?s) = Some m"
    using man by (simp add: released_def site_key_def)
  obtain cs where "candidates (slash # path) = path # cs"
    using candidates_exact(1) [OF fl(1)] by blast
  then have fd: "find (\<lambda>q. snd (Lookup m q)) (candidates (slash # path)) = Some path"
    by (simp add: fl(2))
  have "ideal env held room r = ideal_blob (e_ParseTime env) held room r ?s m f 200"
    using req(1) s rel by (simp add: ideal_def ideal_site_def fd fl(2))
  also have "\<dots> = \<lparr>an_Status = 200, an_Header = (blob_header m f)(''Content-Length'' \<mapsto> FormatInt (int (length body))),
      an_Body = received room body\<rparr>"
    using req(1,2) blob
    by (simp add: ideal_blob_def conditionalNotModified_def hdr_Get_def MethodGet_def MethodHead_def)
  finally show ?thesis .
qed

lemma ideal_published:
  assumes rng: "go_range (e_rng env)" and dec: "json_decoder (e_decode env)"
    and site: "p \<noteq> []" "n \<noteq> []" "x \<noteq> []" "slash \<notin> set p" "slash \<notin> set n" "slash \<notin> set x"
    and man: "held (ManifestKey p n x) = Some data" "e_decode env data = Inr m0"
      "Files m0 = Some files" "\<forall>e \<in> set files. Blob (snd e) \<noteq> []"
    and fl: "(k, f) \<in> set files" "TrimLeft k slash = path" "canonical path"
      "\<forall>e \<in> set files. TrimLeft (fst e) slash = path \<longrightarrow> e = (k, f)"
    and blob: "held (BlobKey p n (Blob f)) = Some body"
    and req: "rq_Method r = MethodGet" "rq_Header r = Map.empty"
      "rq_Path r = ''/'' @ p @ ''/'' @ n @ ''/'' @ x @ ''/'' @ path"
  shows "\<exists>m. Load (e_rng env) (e_decode env) data = Inr m \<and> ideal env held room r =
     \<lparr>an_Status = 200, an_Header = (blob_header m f)(''Content-Length'' \<mapsto> FormatInt (int (length body))),
      an_Body = received room body\<rparr>"
proof -
  have "find (\<lambda>(q, g). Blob g = []) (e_rng env 0 files) = None"
    using find_empty_blob [OF rng] man(4) by blast
  then obtain m where load: "Load (e_rng env) (e_decode env) data = Inr m"
    using man(2,3) by (simp add: Load_def)
  have "\<not> HasPrefix path ''/''"
    using canonical_first_last(1) [OF fl(3)] fl(3) by (cases path) (auto simp: canonical_def)
  with Load_serves_entry [OF rng dec man(2,3) load fl(1,2)] fl(4)
  have "Lookup m path = (f, True)" by blast
  from ideal_found [where env = env, OF site man(1) load fl(3) this blob req] load show ?thesis by blast
qed

text \<open>What is published is what is served: over a reliable store holding a release's
  manifest and the blob of one of its files, whatever the state of the caches, a plain GET of that
  file's path is answered 200 with exactly the published bytes, type, length and validator. The
  manifest may spell the path with leading slashes, as long as no other entry spells the same path.\<close>

theorem published_file_is_served:
  assumes st: "reliable_store iv objs (e_Get env)" and d: "do_runs env" and ok: "world_ok iv objs env w"
    and rng: "go_range (e_rng env)" and dec: "json_decoder (e_decode env)"
    and site: "p \<noteq> []" "n \<noteq> []" "x \<noteq> []" "slash \<notin> set p" "slash \<notin> set n" "slash \<notin> set x"
    and man: "objs (w_store w) (ManifestKey p n x) = Some data" "e_decode env data = Inr m0"
      "Files m0 = Some files" "\<forall>e \<in> set files. Blob (snd e) \<noteq> []"
    and fl: "(k, f) \<in> set files" "TrimLeft k slash = path" "canonical path"
      "\<forall>e \<in> set files. TrimLeft (fst e) slash = path \<longrightarrow> e = (k, f)"
    and blob: "objs (w_store w) (BlobKey p n (Blob f)) = Some body"
    and req: "rq_Method r = MethodGet" "rq_Header r = Map.empty"
      "rq_Path r = ''/'' @ p @ ''/'' @ n @ ''/'' @ x @ ''/'' @ path"
    and ct: "ContentType f = type" "type \<noteq> []"
  shows "an_Status (answer_of (fst (handle env room r w))) = 200 \<and>
     an_Body (answer_of (fst (handle env room r w))) = received room body \<and>
     an_Header (answer_of (fst (handle env room r w))) ''Content-Type'' = Some type \<and>
     an_Header (answer_of (fst (handle env room r w))) ''Content-Length'' = Some (FormatInt (int (length body))) \<and>
     an_Header (answer_of (fst (handle env room r w))) ''ETag'' = Some (ETag (Blob f))"
proof -
  obtain m where "ideal env (objs (w_store w)) room r =
     \<lparr>an_Status = 200, an_Header = (blob_header m f)(''Content-Length'' \<mapsto> FormatInt (int (length body))),
      an_Body = received room body\<rparr>"
    using ideal_published [OF rng dec site man fl blob req] by blast
  then show ?thesis
    using reliable_store.handle_answer [OF st ok refl d, of room r] ct by (simp add: blob_header_def)
qed

lemma published_file_is_served_witness:
  "an_Body (answer_of (fst (handle demo_env None (GET ''/acme/docs/r1/index.html'') demo_world))) = ''<html>''"
proof -
  let ?fs = "[(''/index.html'', demo_file ''b1''), (''about.html'', demo_file ''b2'')]"
  have rel: "reliable_store (\<lambda>_. True) fake_objs (e_Get demo_env)"
    using fake.reliable_store_axioms demo_facts by simp
  have env: "go_range (e_rng demo_env)" "json_decoder (e_decode demo_env)" "e_decode demo_env ''{}'' = Inr demo_raw"
    using go_range_orders json_decoder_demo by (simp_all add: demo_env_def demo_dec_def)
  have k: "ManifestKey ''acme'' ''docs'' ''r1'' = ''sites/acme/docs/releases/r1''"
    "BlobKey ''acme'' ''docs'' ''b1'' = ''sites/acme/docs/blobs/b1''" "canonical ''index.html''" by code_simp+
  have obj: "fake_objs (w_store demo_world) (ManifestKey ''acme'' ''docs'' ''r1'') = Some ''{}''"
    "fake_objs (w_store demo_world) (BlobKey ''acme'' ''docs'' (Blob (demo_file ''b1''))) = Some ''<html>''"
    by (simp_all add: demo_store_eq k demo_file_def, simp_all add: demo_store_def fake_objs_def Put_def PutObject_def)
  have files: "Files demo_raw = Some ?fs" "\<forall>e \<in> set ?fs. Blob (snd e) \<noteq> []"
    "(''/index.html'', demo_file ''b1'') \<in> set ?fs" "TrimLeft ''/index.html'' slash = ''index.html''"
    "\<forall>e \<in> set ?fs. TrimLeft (fst e) slash = ''index.html'' \<longrightarrow> e = (''/index.html'', demo_file ''b1'')"
    by (simp_all add: demo_raw_def demo_file_def TrimLeft_def)
  have req: "rq_Method (GET ''/acme/docs/r1/index.html'') = MethodGet"
    "rq_Header (GET ''/acme/docs/r1/index.html'') = Map.empty"
    "rq_Path (GET ''/acme/docs/r1/index.html'') = ''/'' @ ''acme'' @ ''/'' @ ''docs'' @ ''/'' @ ''r1'' @ ''/'' @ ''index.html''"
    by (simp_all add: GET_def MethodGet_def)
  show ?thesis
    using published_file_is_served [OF rel demo_facts(1) demo_ok env(1,2) _ _ _ _ _ _ obj(1) env(3) files(1,2,3,4) k(3)
        files(5) obj(2) req refl, of None]
    by (simp add: demo_file_def)
qed

subsection \<open>Rival spellings of a path\<close>

lemma canonical_slashless: "canonical path \<Longrightarrow> \<not> HasPrefix path ''/''"
  using canonical_first_last(1) [of path] by (cases path) (auto simp: canonical_def)

text \<open>C30: safety. What a manifest that carries a path only in slash-prefixed spellings serves for it is the
  runtime's choice among them: over the iteration orders of Go's maps, a plain GET of the path to a fresh
  gateway over a reliable store gets exactly the blobs of those spellings, each one under some order, and
  always as a 200. So two spellings with different blobs make the response depend on the run.\<close>

theorem rival_spellings_served:
  assumes st: "reliable_store iv objs (e_Get env)" and d: "do_runs env" and dec: "json_decoder (e_decode env)"
    and new: "New cfg mt = Inr w" "cfg_Store cfg = Some s0" "iv s0"
    and site: "p \<noteq> []" "n \<noteq> []" "x \<noteq> []" "slash \<notin> set p" "slash \<notin> set n" "slash \<notin> set x"
    and man: "objs s0 (ManifestKey p n x) = Some data" "e_decode env data = Inr m0"
      "Files m0 = Some files" "\<forall>e \<in> set files. Blob (snd e) \<noteq> []"
    and path: "canonical path" "path \<notin> fst ` set files" "\<exists>e \<in> set files. slash_spelling path e"
    and blobs: "\<forall>e \<in> set files. slash_spelling path e \<longrightarrow> objs s0 (BlobKey p n (Blob (snd e))) = Some (content e)"
    and req: "rq_Method r = MethodGet" "rq_Header r = Map.empty"
      "rq_Path r = ''/'' @ p @ ''/'' @ n @ ''/'' @ x @ ''/'' @ path"
  shows "{(an_Status a, an_Body a) |a rng. go_range rng \<and> a = answer_of (fst (handle (env\<lparr>e_rng := rng\<rparr>) room r w))} =
    {(200, received room (content e)) |e. e \<in> set files \<and> slash_spelling path e}"
proof -
  have a: "\<exists>e. find (slash_spelling path) (rng 3 files) = Some e \<and> e \<in> set files \<and> slash_spelling path e \<and>
      (an_Status (answer_of (fst (handle (env\<lparr>e_rng := rng\<rparr>) room r w))),
       an_Body (answer_of (fst (handle (env\<lparr>e_rng := rng\<rparr>) room r w)))) = (200, received room (content e))"
    if rng: "go_range rng" for rng
  proof -
    let ?env = "env\<lparr>e_rng := rng\<rparr>"
    have "find (slash_spelling path) (rng 3 files) \<noteq> None"
      using path(3) rng_set [OF rng, of 3 files] by (metis find_None_iff)
    then obtain e where e: "find (slash_spelling path) (rng 3 files) = Some e" by blast
    note in_files = find_range_Some [OF rng e]
    have "find (\<lambda>(q, g). Blob g = []) (rng 0 files) = None"
      using find_empty_blob [OF rng] man(4) by blast
    then obtain m where load: "Load rng (e_decode env) data = Inr m"
      using man(2,3) by (simp add: Load_def)
    have "Lookup m path = (snd e, True)"
      by (rule Load_rival [OF rng dec man(2,3) load canonical_slashless [OF path(1)] path(2) e])
    moreover have "objs s0 (BlobKey p n (Blob (snd e))) = Some (content e)" using blobs in_files by blast
    ultimately have i: "an_Status (ideal ?env (objs s0) room r) = 200"
      "an_Body (ideal ?env (objs s0) room r) = received room (content e)"
      using ideal_found [where env = ?env and held = "objs s0" and m = m and f = "snd e" and body = "content e" and room = room,
          OF site man(1) _ path(1) _ _ req] load by simp_all
    have "world_ok iv objs ?env w" "w_store w = s0" by (rule New_ok [where iv = iv, OF new])+
    moreover have "do_runs ?env" using d by (simp add: do_runs_def)
    ultimately have "answer_of (fst (handle ?env room r w)) = ideal ?env (objs s0) room r"
      using reliable_store.handle_answer [of iv objs "e_Get env" ?env w room r] st by simp
    with e in_files i show ?thesis by simp
  qed
  show ?thesis
  proof (intro set_eqI iffI)
    fix y :: "nat \<times> bytes"
    assume "y \<in> {(an_Status a, an_Body a) |a rng. go_range rng \<and> a = answer_of (fst (handle (env\<lparr>e_rng := rng\<rparr>) room r w))}"
    with a show "y \<in> {(200, received room (content e)) |e. e \<in> set files \<and> slash_spelling path e}" by blast
  next
    fix y :: "nat \<times> bytes" assume "y \<in> {(200, received room (content e)) |e. e \<in> set files \<and> slash_spelling path e}"
    then obtain e where e: "y = (200, received room (content e))" "e \<in> set files" "slash_spelling path e" by blast
    note first = visiting_first_order [of e] visiting_first_finds [where P = "slash_spelling path", OF e(2,3)]
    with a [OF first(1)] e(1) show "y \<in> {(an_Status a, an_Body a) |a rng. go_range rng \<and>
        a = answer_of (fst (handle (env\<lparr>e_rng := rng\<rparr>) room r w))}"
      by fastforce
  qed
qed

lemma rival_spellings_served_witness:
  "{(an_Status a, an_Body a) |a rng. go_range rng \<and>
      a = answer_of (fst (handle (demo_env\<lparr>e_decode := (\<lambda>_. Inr rival_raw), e_rng := rng\<rparr>) None (GET ''/acme/docs/r1/a'') demo_world))} =
    {(200, ''<html>''), (200, ''about'')}"
proof -
  let ?env = "demo_env\<lparr>e_decode := (\<lambda>_. Inr rival_raw)\<rparr>"
  let ?fs = "[(''/a'', demo_file ''b1''), (''//a'', demo_file ''b2'')]"
  let ?content = "\<lambda>e. if snd e = demo_file ''b1'' then ''<html>'' else ''about''"
  have env: "reliable_store (\<lambda>_. True) fake_objs (e_Get ?env)" "do_runs ?env" "json_decoder (e_decode ?env)"
    "e_decode ?env ''{}'' = Inr rival_raw"
    using fake.reliable_store_axioms demo_facts json_decoder_rival by (simp_all add: do_runs_def)
  have files: "Files rival_raw = Some ?fs" "\<forall>e \<in> set ?fs. Blob (snd e) \<noteq> []"
    by (simp_all add: rival_raw_def demo_file_def)
  have sp: "slash_spelling ''a'' e" if "e \<in> set ?fs" for e
    using that by (auto simp: slash_spelling_def TrimLeft_def)
  have k: "fake_objs demo_store (ManifestKey ''acme'' ''docs'' ''r1'') = Some ''{}''"
    "fake_objs demo_store (BlobKey ''acme'' ''docs'' (Blob (demo_file ''b1''))) = Some ''<html>''"
    "fake_objs demo_store (BlobKey ''acme'' ''docs'' (Blob (demo_file ''b2''))) = Some ''about''"
    "canonical ''a''" by code_simp+
  have neq: "demo_file ''b2'' \<noteq> demo_file ''b1''" by (simp add: demo_file_def)
  have blobs: "\<forall>e \<in> set ?fs. slash_spelling ''a'' e \<longrightarrow>
      fake_objs demo_store (BlobKey ''acme'' ''docs'' (Blob (snd e))) = Some (?content e)"
    by (simp add: k neq)
  have req: "rq_Method (GET ''/acme/docs/r1/a'') = MethodGet" "rq_Header (GET ''/acme/docs/r1/a'') = Map.empty"
    "rq_Path (GET ''/acme/docs/r1/a'') = ''/'' @ ''acme'' @ ''/'' @ ''docs'' @ ''/'' @ ''r1'' @ ''/'' @ ''a''"
    by (simp_all add: GET_def MethodGet_def)
  have some: "\<exists>e \<in> set ?fs. slash_spelling ''a'' e" using sp by (meson list.set_intros(1))
  have other: "''a'' \<notin> fst ` set ?fs" by simp
  from rival_spellings_served [OF env(1-3) demo_facts(2,3) TrueI _ _ _ _ _ _ k(1) env(4) files k(4) other some blobs req, of None]
  have "{(an_Status a, an_Body a) |a rng. go_range rng \<and>
      a = answer_of (fst (handle (?env\<lparr>e_rng := rng\<rparr>) None (GET ''/acme/docs/r1/a'') demo_world))} =
    {(200, received None (?content e)) |e. e \<in> set ?fs \<and> slash_spelling ''a'' e}" by simp
  also have "\<dots> = {(200, ''<html>''), (200, ''about'')}"
    using sp neq by (auto simp: received_def)
  finally show ?thesis by simp
qed

subsection \<open>Site prefixes made of dot elements\<close>



end
