(* ===== verification/GoHTTPTime.thy ===== *)
theory GoHTTPTime
  imports GoTime
begin

section \<open>http.ParseTime: reading an HTTP date\<close>

text \<open>
  What the handler does with an If-Modified-Since text. \<^verbatim>\<open>http.ParseTime\<close> tries three layouts in
  turn with \<^verbatim>\<open>time.Parse\<close>, the general layout parser; here a layout is the list of the pieces the
  library cuts it into, and one function reads one piece off the front of the text. The leniencies
  are the library's: a space of the layout stands for any run of spaces (and for the end of the
  text), names are read without regard to case, an hour may have one digit, a fraction may follow
  the seconds, and the zone of the second layout is any abbreviation, which moves the instant only
  when the process's own zone knows it: \<open>zones\<close> is that zone's table, the one thing here that
  belongs to the machine and not to the code.
\<close>

datatype chunk = Lit string | WeekDay | LongWeekDay | ZeroDay | UnderDay | Month | Year | LongYear
  | Hour | ZeroMinute | ZeroSecond | TZ

definition longDayNames :: "string list" where
  "longDayNames = [''Sunday'', ''Monday'', ''Tuesday'', ''Wednesday'', ''Thursday'', ''Friday'', ''Saturday'']"

record date_fields =
  f_year :: int
  f_month :: nat
  f_day :: nat
  f_hour :: nat
  f_min :: nat
  f_sec :: nat
  f_nsec :: nat
  f_zone :: "string option"

definition no_fields :: date_fields where
  "no_fields = \<lparr>f_year = 0, f_month = 1, f_day = 1, f_hour = 0, f_min = 0, f_sec = 0, f_nsec = 0, f_zone = None\<rparr>"

subsection \<open>The pieces\<close>

definition cutspace :: "string \<Rightarrow> string" where
  "cutspace = dropWhile (\<lambda>c. c = CHR '' '')"

text \<open>Literal text; the recursion is on the literal, whose runs of spaces are cut as one.\<close>

function skip :: "string \<Rightarrow> string \<Rightarrow> string option" where
  "skip v [] = Some v"
| "skip v (c # p) =
     (if c = CHR '' '' then
        (if v \<noteq> [] \<and> hd v \<noteq> CHR '' '' then None
         else skip (cutspace v) (dropWhile (\<lambda>c. c = CHR '' '') p))
      else case v of [] \<Rightarrow> None | d # r \<Rightarrow> if c = d then skip r p else None)"
  by pat_completeness auto

termination
  by (relation "measure (\<lambda>(v, p). length p)") (auto simp: le_imp_less_Suc length_dropWhile_le)

definition to_lower :: "char \<Rightarrow> nat" where
  "to_lower c = or (of_char c) 32"

definition match_char :: "char \<Rightarrow> char \<Rightarrow> bool" where
  "match_char c d \<longleftrightarrow> c = d \<or> (to_lower c = to_lower d \<and> 97 \<le> to_lower c \<and> to_lower c \<le> 122)"

fun lookup_name :: "string list \<Rightarrow> string \<Rightarrow> (nat \<times> string) option" where
  "lookup_name [] v = None"
| "lookup_name (n # ns) v =
     (if length n \<le> length v \<and> list_all2 match_char (take (length n) v) n
      then Some (0, drop (length n) v)
      else map_option (\<lambda>(i, r). (Suc i, r)) (lookup_name ns v))"

text \<open>\<^verbatim>\<open>atoi\<close>: an optional sign, then only digits, of which there may be none.\<close>

definition atoi :: "string \<Rightarrow> int option" where
  "atoi s =
     (let neg = (take 1 s = ''-'');
          body = (if take 1 s = ''-'' \<or> take 1 s = ''+'' then drop 1 s else s)
      in map_option (\<lambda>n. if neg then - int n else int n) (read_digits 0 body))"

text \<open>How many bytes a signed hour offset takes; none if it is not one.\<close>

definition parseSignedOffset :: "string \<Rightarrow> nat" where
  "parseSignedOffset v =
     (if take 1 v = ''+'' \<or> take 1 v = ''-'' then
        (let ds = takeWhile isDigit (drop 1 v)
         in case read_nat ds of
              None \<Rightarrow> 0
            | Some x \<Rightarrow> if 23 < x then 0 else 1 + length ds)
      else 0)"

definition upper_run :: "string \<Rightarrow> nat" where
  "upper_run v = length (takeWhile (\<lambda>c. (65 :: nat) \<le> of_char c \<and> of_char c \<le> (90 :: nat)) (take 6 v))"

definition parseTimeZone :: "string \<Rightarrow> nat option" where
  "parseTimeZone v =
     (if length v < 3 then None
      else if take 4 v = ''ChST'' \<or> take 4 v = ''MeST'' then Some 4
      else if take 3 v = ''GMT'' then Some (3 + parseSignedOffset (drop 3 v))
      else if hd v = CHR ''+'' \<or> hd v = CHR ''-'' then
        (let n = parseSignedOffset v in if n = 0 then None else Some n)
      else if upper_run v = 5 then (if v ! 4 = CHR ''T'' then Some 5 else None)
      else if upper_run v = 4 then (if v ! 3 = CHR ''T'' \<or> take 4 v = ''WITA'' then Some 4 else None)
      else if upper_run v = 3 then Some 3
      else None)"

fun parse_chunk :: "chunk \<Rightarrow> string \<Rightarrow> date_fields \<Rightarrow> (string \<times> date_fields) option" where
  "parse_chunk (Lit p) v f = map_option (\<lambda>r. (r, f)) (skip v p)"
| "parse_chunk WeekDay v f = map_option (\<lambda>(_, r). (r, f)) (lookup_name shortDayNames v)"
| "parse_chunk LongWeekDay v f = map_option (\<lambda>(_, r). (r, f)) (lookup_name longDayNames v)"
| "parse_chunk ZeroDay v f = map_option (\<lambda>(n, r). (r, f\<lparr>f_day := n\<rparr>)) (getnum True v)"
| "parse_chunk UnderDay v f =
     map_option (\<lambda>(n, r). (r, f\<lparr>f_day := n\<rparr>))
       (getnum False (if take 1 v = '' '' then drop 1 v else v))"
| "parse_chunk Month v f = map_option (\<lambda>(i, r). (r, f\<lparr>f_month := i + 1\<rparr>)) (lookup_name shortMonthNames v)"
| "parse_chunk Year v f =
     (if length v < 2 then None
      else map_option (\<lambda>y. (drop 2 v, f\<lparr>f_year := (if 69 \<le> y then y + 1900 else y + 2000)\<rparr>)) (atoi (take 2 v)))"
| "parse_chunk LongYear v f =
     (if length v < 4 \<or> \<not> isDigit (hd v) then None
      else map_option (\<lambda>y. (drop 4 v, f\<lparr>f_year := y\<rparr>)) (atoi (take 4 v)))"
| "parse_chunk Hour v f =
     (case getnum False v of
        Some (n, r) \<Rightarrow> if n < 24 then Some (r, f\<lparr>f_hour := n\<rparr>) else None
      | None \<Rightarrow> None)"
| "parse_chunk ZeroMinute v f =
     (case getnum True v of
        Some (n, r) \<Rightarrow> if n < 60 then Some (r, f\<lparr>f_min := n\<rparr>) else None
      | None \<Rightarrow> None)"
| "parse_chunk ZeroSecond v f =
     (case getnum True v of
        Some (n, r) \<Rightarrow>
          if n < 60 then
            (let (ns, r') = parse_fraction r in Some (r', f\<lparr>f_sec := n, f_nsec := ns\<rparr>))
          else None
      | None \<Rightarrow> None)"
| "parse_chunk TZ v f =
     (if take 3 v = ''UTC'' then Some (drop 3 v, f\<lparr>f_zone := None\<rparr>)
      else map_option (\<lambda>n. (drop n v, f\<lparr>f_zone := Some (take n v)\<rparr>)) (parseTimeZone v))"

fun parse_chunks :: "chunk list \<Rightarrow> string \<Rightarrow> date_fields \<Rightarrow> date_fields option" where
  "parse_chunks [] v f = (if v = [] then Some f else None)"
| "parse_chunks (c # cs) v f =
     (case parse_chunk c v f of Some (r, f') \<Rightarrow> parse_chunks cs r f' | None \<Rightarrow> None)"

subsection \<open>The layouts and the parser\<close>

text \<open>The date is the UTC one; only a zone the process knows moves it.\<close>

definition time_of_fields :: "(string \<Rightarrow> int \<Rightarrow> int option) \<Rightarrow> date_fields \<Rightarrow> gotime option" where
  "time_of_fields zones f =
     (if 1 \<le> f_day f \<and> int (f_day f) \<le> days_in (f_month f) (f_year f) then
        (let sec = 86400 * date_days (f_year f) (f_month f) (int (f_day f)) +
                   int (3600 * f_hour f + 60 * f_min f + f_sec f);
             off = (case f_zone f of
                      None \<Rightarrow> 0
                    | Some z \<Rightarrow> (case zones z (sec - 62135596800) of None \<Rightarrow> 0 | Some n \<Rightarrow> n))
         in Some (GoTime (sec - off) (int (f_nsec f))))
      else None)"

definition time_Parse :: "(string \<Rightarrow> int \<Rightarrow> int option) \<Rightarrow> chunk list \<Rightarrow> string \<Rightarrow> gotime option" where
  "time_Parse zones layout v =
     (case parse_chunks layout v no_fields of Some f \<Rightarrow> time_of_fields zones f | None \<Rightarrow> None)"

definition TimeFormat :: "chunk list" where
  "TimeFormat = [WeekDay, Lit '', '', ZeroDay, Lit '' '', Month, Lit '' '', LongYear, Lit '' '', Hour, Lit '':'',
     ZeroMinute, Lit '':'', ZeroSecond, Lit '' GMT'']"

definition RFC850 :: "chunk list" where
  "RFC850 = [LongWeekDay, Lit '', '', ZeroDay, Lit ''-'', Month, Lit ''-'', Year, Lit '' '', Hour, Lit '':'',
     ZeroMinute, Lit '':'', ZeroSecond, Lit '' '', TZ]"

definition ANSIC :: "chunk list" where
  "ANSIC = [WeekDay, Lit '' '', Month, Lit '' '', UnderDay, Lit '' '', Hour, Lit '':'', ZeroMinute, Lit '':'',
     ZeroSecond, Lit '' '', LongYear]"

definition http_ParseTime :: "(string \<Rightarrow> int \<Rightarrow> int option) \<Rightarrow> string \<Rightarrow> gotime option" where
  "http_ParseTime zones v =
     (case time_Parse zones TimeFormat v of
        Some t \<Rightarrow> Some t
      | None \<Rightarrow>
          (case time_Parse zones RFC850 v of Some t \<Rightarrow> Some t | None \<Rightarrow> time_Parse zones ANSIC v))"

subsection \<open>Each piece reads back what the formatter writes\<close>

lemma show_nat_small: "n < 10 \<Longrightarrow> show_nat n = [digit n]"
  by (simp add: show_nat.simps)

lemma show_nat_step: "10 \<le> n \<Longrightarrow> show_nat n = show_nat (n div 10) @ [digit (n mod 10)]"
  by (simp add: show_nat.simps [of n])

lemma pad_2: "n < 100 \<Longrightarrow> pad 2 n = [digit (n div 10), digit (n mod 10)]"
  by (cases "n < 10") (simp_all add: pad_def Let_def show_nat_small show_nat_step [of n])

lemma pad_4:
  assumes "n < 10000"
  shows "pad 4 n = [digit (n div 1000), digit (n div 100 mod 10), digit (n div 10 mod 10), digit (n mod 10)]"
proof -
  have q: "n div 10 div 10 = n div 100" "n div 100 div 10 = n div 1000"
    by (simp_all add: div_mult2_eq [symmetric])
  consider "n < 10" | "10 \<le> n" "n < 100" | "100 \<le> n" "n < 1000" | "1000 \<le> n" by linarith
  then show ?thesis
  proof cases
    case 1
    then show ?thesis by (simp add: pad_def show_nat_small numeral_3_eq_3)
  next
    case 2
    then have "show_nat n = [digit (n div 10), digit (n mod 10)]"
      by (simp add: show_nat_small show_nat_step [of n])
    with 2 show ?thesis by (simp add: pad_def numeral_2_eq_2)
  next
    case 3
    then have "show_nat n = [digit (n div 100), digit (n div 10 mod 10), digit (n mod 10)]"
      by (simp add: show_nat_small show_nat_step [of n] show_nat_step [of "n div 10"] q)
    with 3 show ?thesis by (simp add: pad_def)
  next
    case 4
    with assms have "show_nat n = [digit (n div 1000), digit (n div 100 mod 10), digit (n div 10 mod 10), digit (n mod 10)]"
      by (simp add: show_nat_small show_nat_step [of n] show_nat_step [of "n div 10"]
          show_nat_step [of "n div 100"] q)
    then show ?thesis by (simp add: pad_def)
  qed
qed

lemma getnum_pad: "n < 100 \<Longrightarrow> getnum fixed (pad 2 n @ v) = Some (n, v)"
  by (simp add: pad_2)

lemma digits_4: "1000 * (n div 1000) + 100 * (n div 100 mod 10) + 10 * (n div 10 mod 10) + n mod 10 = (n :: nat)"
proof -
  have "n div 10 = n div 100 * 10 + n div 10 mod 10" "n div 100 = n div 1000 * 10 + n div 100 mod 10"
    using div_mult_mod_eq [of "n div 10" 10] div_mult_mod_eq [of "n div 100" 10]
    by (simp_all add: div_mult2_eq [symmetric])
  with div_mult_mod_eq [of n 10] show ?thesis by linarith
qed

lemma atoi_pad_4: "n < 10000 \<Longrightarrow> atoi (pad 4 n) = Some (int n)"
  using digits_4 [of n] by (simp add: pad_4 atoi_def algebra_simps flip: of_nat_add of_nat_mult)

lemma skip_space: "skip v '' '' = (if v \<noteq> [] \<and> hd v \<noteq> CHR '' '' then None else Some (cutspace v))"
  by simp

lemma cutspace_digit: "d < 10 \<Longrightarrow> cutspace (digit d # v) = digit d # v"
  using digit_value_digit [of d] by (cases "digit d = CHR '' ''") (simp_all add: cutspace_def digit_value_def)

lemma match_char_refl [simp]: "match_char c c"
  by (simp add: match_char_def)

lemma lookup_day: "i < 7 \<Longrightarrow> lookup_name shortDayNames (shortDayNames ! i @ v) = Some (i, v)"
proof -
  assume "i < 7"
  then consider "i = 0" | "i = 1" | "i = 2" | "i = 3" | "i = 4" | "i = 5" | "i = 6" by linarith
  then show ?thesis
    by cases (simp_all add: shortDayNames_def match_char_def to_lower_def)
qed

lemma lookup_month: "i < 12 \<Longrightarrow> lookup_name shortMonthNames (shortMonthNames ! i @ v) = Some (i, v)"
proof (cases "i < 6")
  case True
  then consider "i = 0" | "i = 1" | "i = 2" | "i = 3" | "i = 4" | "i = 5" by linarith
  then show ?thesis
    by cases (simp_all add: shortMonthNames_def match_char_def to_lower_def)
next
  case False
  moreover assume "i < 12"
  ultimately consider "i = 6" | "i = 7" | "i = 8" | "i = 9" | "i = 10" | "i = 11" by linarith
  then show ?thesis
    by cases (simp_all add: shortMonthNames_def match_char_def to_lower_def)
qed

lemma names_no_space:
  "i < 12 \<Longrightarrow> cutspace (shortMonthNames ! i @ v) = shortMonthNames ! i @ v"
proof -
  assume "i < 12"
  then have "shortMonthNames ! i \<in> set shortMonthNames"
    by (intro nth_mem) (simp add: shortMonthNames_def)
  then show ?thesis by (auto simp: cutspace_def shortMonthNames_def)
qed

lemma skip_into_name:
  "i < 12 \<Longrightarrow> skip (CHR '' '' # shortMonthNames ! i @ v) '' '' = Some (shortMonthNames ! i @ v)"
  using names_no_space [of i v] by (simp add: cutspace_def)

lemma cutspace_pad:
  "n < 100 \<Longrightarrow> cutspace (pad 2 n @ v) = pad 2 n @ v" "n < 10000 \<Longrightarrow> cutspace (pad 4 n @ v) = pad 4 n @ v"
  by (simp_all add: pad_2 pad_4 cutspace_digit)

lemma skip_into_number:
  "n < 100 \<Longrightarrow> skip (CHR '' '' # pad 2 n @ v) '' '' = Some (pad 2 n @ v)"
  "n < 100 \<Longrightarrow> skip (CHR '','' # CHR '' '' # pad 2 n @ v) '', '' = Some (pad 2 n @ v)"
  "n < 10000 \<Longrightarrow> skip (CHR '' '' # pad 4 n @ v) '' '' = Some (pad 4 n @ v)"
  using cutspace_pad [of n v] by (simp_all add: cutspace_def)

lemma skip_exact: "skip (CHR '':'' # v) '':'' = Some v" "skip '' GMT'' '' GMT'' = Some []"
  by (simp_all add: cutspace_def)

lemma parse_LongYear:
  assumes "n < 10000"
  shows "parse_chunk LongYear (pad 4 n @ v) f = Some (v, f\<lparr>f_year := int n\<rparr>)"
proof -
  have "length (pad 4 n) = 4" "isDigit (hd (pad 4 n))" "pad 4 n \<noteq> []"
    using assms by (simp_all add: pad_4 isDigit_def)
  with atoi_pad_4 [OF assms] show ?thesis by simp
qed

text \<open>Every instant of a four-digit year is formatted with fields of fixed width.\<close>

lemma format_HTTP_fields:
  assumes "civil_of_days (t_sec t div 86400) = (y, m, d)" "0 \<le> y"
  defines "tod \<equiv> nat (t_sec t mod 86400)"
  shows "format_HTTP t =
    shortDayNames ! weekday (t_sec t div 86400) @ '', '' @ pad 2 (nat d) @ '' '' @ shortMonthNames ! (m - 1) @ '' '' @
    pad 4 (nat y) @ '' '' @ pad 2 (tod div 3600) @ '':'' @ pad 2 (tod mod 3600 div 60) @ '':'' @
    pad 2 (tod mod 60) @ '' GMT''"
  using assms by (simp add: format_HTTP_def Let_def)

lemma parse_chunks_format:
  assumes "i < 7" "j < 12" "d < 100" "y < 10000" "h < 24" "mi < 60" "s < 60"
  shows "parse_chunks TimeFormat
     (shortDayNames ! i @ '', '' @ pad 2 d @ '' '' @ shortMonthNames ! j @ '' '' @ pad 4 y @ '' '' @
      pad 2 h @ '':'' @ pad 2 mi @ '':'' @ pad 2 s @ '' GMT'') no_fields =
     Some \<lparr>f_year = int y, f_month = j + 1, f_day = d, f_hour = h, f_min = mi, f_sec = s, f_nsec = 0, f_zone = None\<rparr>"
  using assms
  by (simp add: TimeFormat_def lookup_day lookup_month getnum_pad skip_into_number skip_into_name skip_exact
      parse_LongYear no_fields_def parse_fraction_def
      del: skip.simps parse_chunk.simps(8))

subsection \<open>The round trip\<close>

definition four_digit_year :: "gotime \<Rightarrow> bool" where
  "four_digit_year t \<longleftrightarrow> (let y = fst (civil_of_days (t_sec t div 86400)) in 0 \<le> y \<and> y < 10000)"

lemma day_split: "nat (t mod 86400) = 3600 * (nat (t mod 86400) div 3600) +
    60 * (nat (t mod 86400) mod 3600 div 60) + nat (t mod 86400) mod 60"
proof -
  define n where "n = nat (t mod 86400)"
  have "n mod 3600 mod 60 = n mod 60" by (simp add: mod_mod_cancel)
  with div_mult_mod_eq [of n 3600] div_mult_mod_eq [of "n mod 3600" 60]
  show ?thesis unfolding n_def [symmetric] by linarith
qed

lemma days_in_le: "days_in m y \<le> 31"
  by (simp add: days_in_def)

theorem ParseTime_format_HTTP:
  assumes "four_digit_year t"
  shows "http_ParseTime zones (format_HTTP t) = Some (TruncateSecond t)"
proof -
  obtain y m d where civil: "civil_of_days (t_sec t div 86400) = (y, m, d)" by (rule prod_cases3)
  define tod where "tod = nat (t_sec t mod 86400)"
  have y: "0 \<le> y" "y < 10000" using assms by (simp_all add: four_digit_year_def civil)
  note md = civil_of_days_valid [OF civil]
  have tod: "tod < 86400" by (simp add: tod_def nat_less_iff)
  have sec: "t_sec t = 86400 * (t_sec t div 86400) + int tod"
    by (simp add: tod_def)
  have split: "int (3600 * (tod div 3600) + 60 * (tod mod 3600 div 60) + tod mod 60) = int tod"
    using day_split [of "t_sec t"] unfolding tod_def [symmetric] by simp
  have "nat d < 100" using md days_in_le [of m y] by linarith
  moreover have "weekday (t_sec t div 86400) < 7" by (simp add: weekday_def nat_less_iff)
  moreover have "m - 1 < 12" using md by linarith
  moreover have "nat y < 10000" "tod div 3600 < 24" "tod mod 3600 div 60 < 60" "tod mod 60 < 60"
    using y tod by (simp_all add: less_mult_imp_div_less)
  ultimately have "parse_chunks TimeFormat (format_HTTP t) no_fields =
      Some \<lparr>f_year = y, f_month = m, f_day = nat d, f_hour = tod div 3600, f_min = tod mod 3600 div 60,
            f_sec = tod mod 60, f_nsec = 0, f_zone = None\<rparr>"
    using md y unfolding format_HTTP_fields [OF civil y(1)] tod_def [symmetric]
    by (subst parse_chunks_format) simp_all
  moreover have "1 \<le> nat d" using md by linarith
  ultimately show ?thesis
    using md split sec civil_of_days_inverse [OF civil]
    by (simp add: http_ParseTime_def time_Parse_def time_of_fields_def TruncateSecond_def)
qed

lemmas time_eval = shortDayNames_def longDayNames_def shortMonthNames_def match_char_def to_lower_def
  atoi_def cutspace_def parseTimeZone_def parseSignedOffset_def upper_run_def no_fields_def
  time_of_fields_def digit_value_def isDigit_def parse_fraction_def read_nat_def date_days_def days_in_def
  is_leap_def days_before_year_def days_before_month_def month_starts_def

text \<open>The three forms of RFC 9110, and what the leniencies let through.\<close>

lemma http_ParseTime_forms:
  "http_ParseTime zones ''Sun, 06 Nov 1994 08:49:37 GMT'' = Some (GoTime 62919708577 0)"
  "zones ''GMT'' 784111777 = None \<Longrightarrow>
   http_ParseTime zones ''Sunday, 06-Nov-94 08:49:37 GMT'' = Some (GoTime 62919708577 0)"
  "http_ParseTime zones ''Sun Nov  6 08:49:37 1994'' = Some (GoTime 62919708577 0)"
  "http_ParseTime zones ''mon,   06 nov 1994 8:49:37.5 GMT'' = Some (GoTime 62919708577 500000000)"
  "http_ParseTime zones ''Sun, 31 Nov 1994 08:49:37 GMT'' = None"
  by (simp_all add: http_ParseTime_def time_Parse_def TimeFormat_def RFC850_def ANSIC_def time_eval)

subsection \<open>The width of a date\<close>

lemma show_nat_length: "10 ^ k \<le> n \<Longrightarrow> k < length (show_nat n)"
proof (induction k arbitrary: n)
  case (Suc k)
  then have "10 \<le> n" "10 ^ k \<le> n div 10"
    by (simp_all add: less_eq_div_iff_mult_less_eq mult.commute order_trans [of 10 "10 * 10 ^ k"])
  with Suc.IH [of "n div 10"] show ?case by (simp add: show_nat_step [of n])
qed simp

lemma length_pad: "length (pad w n) = max w (length (show_nat n))"
  by (simp add: pad_def Let_def)

lemma length_pad_2: "n < 100 \<Longrightarrow> length (pad 2 n) = 2"
  by (simp add: pad_2)

lemma length_names:
  "i < 7 \<Longrightarrow> length (shortDayNames ! i) = 3" "j < 12 \<Longrightarrow> length (shortMonthNames ! j) = 3"
proof -
  have "list_all (\<lambda>n. length n = 3) shortDayNames" "list_all (\<lambda>n. length n = 3) shortMonthNames"
    by (simp_all add: shortDayNames_def shortMonthNames_def)
  then show "i < 7 \<Longrightarrow> length (shortDayNames ! i) = 3" "j < 12 \<Longrightarrow> length (shortMonthNames ! j) = 3"
    by (simp_all add: list_all_length) (simp_all add: shortDayNames_def shortMonthNames_def)
qed

lemma four_digit_year_width:
  assumes "length (format_HTTP t) = 29"
  shows "four_digit_year t"
proof -
  obtain y m d where civil: "civil_of_days (t_sec t div 86400) = (y, m, d)" by (rule prod_cases3)
  define tod where "tod = nat (t_sec t mod 86400)"
  note md = civil_of_days_valid [OF civil]
  have "nat d < 100" using md days_in_le [of m y] by linarith
  moreover have "weekday (t_sec t div 86400) < 7" by (simp add: weekday_def nat_less_iff)
  moreover have "m - 1 < 12" using md by linarith
  moreover have "tod < 86400" by (simp add: tod_def nat_less_iff)
  then have "tod div 3600 < 100" "tod mod 3600 div 60 < 100" "tod mod 60 < 100"
    by (simp_all add: less_mult_imp_div_less)
  ultimately have len: "length (if y < 0 then ''-'' @ pad 4 (nat (- y)) else pad 4 (nat y)) = 4"
    using assms unfolding format_HTTP_def
    by (simp add: civil tod_def [symmetric] length_names length_pad_2)
  then have "0 \<le> y" by (auto simp: length_pad split: if_splits)
  with len have "length (show_nat (nat y)) \<le> 4" by (simp add: length_pad)
  then have "\<not> 10 ^ 4 \<le> nat y" using show_nat_length [of 4 "nat y"] by linarith
  with \<open>0 \<le> y\<close> show ?thesis by (simp add: four_digit_year_def civil)
qed

end
