(* ===== verification/ServerDates.thy ===== *)
theory ServerDates
  imports ServerClient GoHTTPTime
begin

section \<open>Conditional requests by date\<close>

text \<open>
  What a client that kept only the Last-Modified date of a response gets when it asks again. It joins
  three parts: the loader formats the release time once, the handler sends that text, and
  \<^verbatim>\<open>conditionalNotModified\<close> reads it back with \<^verbatim>\<open>http.ParseTime\<close>, here \<open>http_ParseTime\<close>, and
  compares whole seconds.
\<close>

text \<open>The request again, with the date and without an entity tag.\<close>

definition since :: "string \<Rightarrow> request \<Rightarrow> request" where
  "since t r = r\<lparr>rq_Header := (rq_Header r)(''If-None-Match'' := None, ''If-Modified-Since'' \<mapsto> t)\<rparr>"

lemma since_simps [simp]:
  "rq_Method (since t r) = rq_Method r" "rq_Path (since t r) = rq_Path r"
  "hdr_Get (rq_Header (since t r)) ''If-None-Match'' = []"
  "hdr_Get (rq_Header (since t r)) ''If-Modified-Since'' = t"
  by (simp_all add: since_def hdr_Get_def)

text \<open>A date of four-digit year, sent back, is not older than the time it was made from.\<close>

lemma conditional_since:
  assumes "four_digit_year mt" "\<not> IsZero mt"
  shows "conditionalNotModified (http_ParseTime zones) (since (format_HTTP mt) r) etag mt"
  using assms format_HTTP_not_Nil [of mt]
  by (simp add: conditionalNotModified_def ParseTime_format_HTTP After_def)

lemma ideal_blob_200_Last_Modified:
  "an_Status (ideal_blob pt stored room r s m e 200) = 200 \<Longrightarrow>
   an_Header (ideal_blob pt stored room r s m e 200) ''Last-Modified'' =
     (if LastModified m = [] then None else Some (LastModified m))"
  by (auto simp: ideal_blob_def error_answer_def blob_header_def split: if_splits option.splits)

lemma released_dates:
  assumes "go_range (e_rng env)" "json_decoder (e_decode env)" "released env stored k = Some m"
  shows "LastModified m = [] \<and> ModTime m = zeroTime \<or> LastModified m = format_HTTP (ModTime m)"
  using assms Load_dates by (auto simp: released_def split: option.splits sum.splits)

text \<open>C18: functional. The date of a response revalidates it: whenever a request is answered 200 with a
  Last-Modified date of the usual 29 characters, other than the first instant of year 1, the same
  request sent again with that date as If-Modified-Since and no If-None-Match, in any later state of
  the cache, is answered 304 with no body and the same date, whatever time zone the gateway's host has.\<close>

theorem dated_revalidation_304:
  assumes st: "reliable_store iv objs (e_Get env)" and d: "do_runs env"
    and rng: "go_range (e_rng env)" and dec: "json_decoder (e_decode env)"
    and pt: "e_ParseTime env = http_ParseTime zones"
    and ok: "world_ok iv objs env w" "world_ok iv objs env w2" and same: "objs (w_store w2) = objs (w_store w)"
    and a: "answer_of (fst (handle env room r w)) = a" "an_Status a = 200" "an_Header a ''Last-Modified'' = Some t"
    and date: "length t = 29" "t \<noteq> format_HTTP zeroTime"
  shows "an_Status (answer_of (fst (handle env room (since t r) w2))) = 304 \<and>
     an_Body (answer_of (fst (handle env room (since t r) w2))) = [] \<and>
     an_Header (answer_of (fst (handle env room (since t r) w2))) ''Last-Modified'' = Some t"
proof -
  from st d ok(1) a(1,2) obtain s m e where m: "released env (objs (w_store w)) (site_key s) = Some m"
    and site: "a = ideal_blob (e_ParseTime env) (objs (w_store w)) room r s m e 200"
    and again: "\<And>r' w2. \<lbrakk>rq_Method r' = rq_Method r; rq_Path r' = rq_Path r; world_ok iv objs env w2;
       objs (w_store w2) = objs (w_store w)\<rbrakk> \<Longrightarrow>
       answer_of (fst (handle env room r' w2)) = ideal_blob (e_ParseTime env) (objs (w_store w)) room r' s m e 200"
    by (rule served_200) blast
  have t: "LastModified m = t" "t \<noteq> []"
    using ideal_blob_200_Last_Modified a(2,3) site by (auto split: if_splits)
  with released_dates [OF rng dec m] have fmt: "t = format_HTTP (ModTime m)" by auto
  moreover have "\<not> IsZero (ModTime m)" using date(2) fmt by (auto simp: IsZero_def)
  ultimately have "conditionalNotModified (e_ParseTime env) (since t r) (ETag (Blob e)) (ModTime m)"
    using conditional_since four_digit_year_width date(1) by (simp add: pt)
  then have "ideal_blob (e_ParseTime env) (objs (w_store w)) room (since t r) s m e 200 =
      \<lparr>an_Status = 304, an_Header = blob_header m e, an_Body = []\<rparr>"
    by (simp add: ideal_blob_def)
  with again [of "since t r" w2] ok(2) same show ?thesis
    using t by (simp add: blob_header_def)
qed

subsection \<open>A dated release\<close>

definition dated_raw :: Manifest where
  "dated_raw = demo_raw\<lparr>CreatedAt := ''1994-11-06T08:49:37Z''\<rparr>"

definition dated_dec :: "bytes \<Rightarrow> string + Manifest" where
  "dated_dec data = (if data = ''{}'' then Inr dated_raw else Inl ''unexpected input'')"

definition dated_env :: "(Fake, siteKey \<rightharpoonup> int) env" where
  "dated_env = demo_env\<lparr>e_decode := dated_dec, e_ParseTime := http_ParseTime (\<lambda>_ _. None)\<rparr>"

lemma dated_facts:
  "do_runs dated_env" "go_range (e_rng dated_env)" "json_decoder (e_decode dated_env)"
  "e_ParseTime dated_env = http_ParseTime (\<lambda>_ _. None)" "e_Get dated_env = fake_Get"
  using demo_facts(1) go_range_orders(1)
  by (auto simp: do_runs_def dated_env_def demo_env_def json_decoder_def dated_dec_def dated_raw_def demo_raw_def
      gomap_entries_def)

lemma Load_dated:
  assumes "Load in_order dated_dec ''{}'' = Inr m"
  shows "LastModified m = ''Sun, 06 Nov 1994 08:49:37 GMT''"
proof -
  obtain files where "m = precompute in_order (dated_raw\<lparr>Files := Some (canonicalizeFileKeys in_order files)\<rparr>)"
    using assms by (rule Load_Inr [OF go_range_orders(1)]) (simp add: dated_dec_def)
  moreover have "parse_RFC3339 ''1994-11-06T08:49:37Z'' = Some (GoTime 62919708577 0)"
    by (simp add: parse_eval)
  moreover have "year_yday 728237 = (1994, 309)" by (simp add: year_yday_def)
  then have "civil_of_days 728237 = (1994, 11, 6)" by (simp add: civil_eval)
  then have "format_HTTP (GoTime 62919708577 0) = ''Sun, 06 Nov 1994 08:49:37 GMT''"
    by (simp add: format_eval)
  ultimately show ?thesis
    by (simp add: LastModified_def precompute_times dated_raw_def)
qed

lemma dated_world_ok: "world_ok (\<lambda>_. True) fake_objs dated_env demo_world"
  by (rule New_ok(1) [OF demo_facts(2,3)]) simp

lemma dated_answer:
  "\<exists>m. LastModified m = ''Sun, 06 Nov 1994 08:49:37 GMT'' \<and>
     answer_of (fst (handle dated_env None (GET ''/acme/docs/r1/index.html'') demo_world)) =
       \<lparr>an_Status = 200, an_Header = (blob_header m (demo_file ''b1''))(''Content-Length'' \<mapsto> ''6''), an_Body = ''<html>''\<rparr>"
proof -
  let ?fs = "[(''/index.html'', demo_file ''b1''), (''about.html'', demo_file ''b2'')]"
  have rel: "reliable_store (\<lambda>_. True) fake_objs (e_Get dated_env)"
    using fake.reliable_store_axioms dated_facts by simp
  have dec: "e_decode dated_env ''{}'' = Inr dated_raw" by (simp add: dated_env_def dated_dec_def)
  have k: "ManifestKey ''acme'' ''docs'' ''r1'' = ''sites/acme/docs/releases/r1''"
    "BlobKey ''acme'' ''docs'' ''b1'' = ''sites/acme/docs/blobs/b1''" "canonical ''index.html''" by code_simp+
  have obj: "fake_objs demo_store (ManifestKey ''acme'' ''docs'' ''r1'') = Some ''{}''"
    "fake_objs demo_store (BlobKey ''acme'' ''docs'' (Blob (demo_file ''b1''))) = Some ''<html>''"
    by (simp_all add: k demo_file_def, simp_all add: demo_store_def fake_objs_def Put_def PutObject_def)
  have files: "Files dated_raw = Some ?fs" "\<forall>e \<in> set ?fs. Blob (snd e) \<noteq> []"
    "(''/index.html'', demo_file ''b1'') \<in> set ?fs" "TrimLeft ''/index.html'' slash = ''index.html''"
    "\<forall>e \<in> set ?fs. TrimLeft (fst e) slash = ''index.html'' \<longrightarrow> e = (''/index.html'', demo_file ''b1'')"
    by (simp_all add: dated_raw_def demo_raw_def demo_file_def TrimLeft_def)
  have req: "rq_Method (GET ''/acme/docs/r1/index.html'') = MethodGet"
    "rq_Header (GET ''/acme/docs/r1/index.html'') = Map.empty"
    "rq_Path (GET ''/acme/docs/r1/index.html'') = ''/'' @ ''acme'' @ ''/'' @ ''docs'' @ ''/'' @ ''r1'' @ ''/'' @ ''index.html''"
    by (simp_all add: GET_def MethodGet_def)
  have len: "FormatInt (int (length ''<html>'')) = ''6''" by code_simp
  have "\<exists>m. Load (e_rng dated_env) (e_decode dated_env) ''{}'' = Inr m \<and>
      ideal dated_env (fake_objs demo_store) None (GET ''/acme/docs/r1/index.html'') =
      \<lparr>an_Status = 200, an_Header = (blob_header m (demo_file ''b1''))(''Content-Length'' \<mapsto> ''6''),
       an_Body = received None ''<html>''\<rparr>"
    using ideal_published [OF dated_facts(2,3) _ _ _ _ _ _ obj(1) dec files(1,2,3,4) k(3) files(5) obj(2) req, of None] len
    by simp
  then show ?thesis
    using reliable_store.handle_answer [OF rel dated_world_ok refl dated_facts(1), of None] Load_dated
    by (auto simp: dated_env_def demo_env_def demo_store_eq received_def)
qed

lemma dated_revalidation_304_witness:
  "an_Status (answer_of (fst (handle dated_env None
     (since ''Sun, 06 Nov 1994 08:49:37 GMT'' (GET ''/acme/docs/r1/index.html'')) demo_world))) = 304"
proof -
  have rel: "reliable_store (\<lambda>_. True) fake_objs (e_Get dated_env)"
    using fake.reliable_store_axioms dated_facts by simp
  obtain m where m: "LastModified m = ''Sun, 06 Nov 1994 08:49:37 GMT''"
    and a: "answer_of (fst (handle dated_env None (GET ''/acme/docs/r1/index.html'') demo_world)) =
       \<lparr>an_Status = 200, an_Header = (blob_header m (demo_file ''b1''))(''Content-Length'' \<mapsto> ''6''), an_Body = ''<html>''\<rparr>"
    using dated_answer by blast
  have z: "''Sun, 06 Nov 1994 08:49:37 GMT'' \<noteq> format_HTTP zeroTime" by code_simp
  show ?thesis
    using dated_revalidation_304 [OF rel dated_facts(1-4) dated_world_ok dated_world_ok refl a _ _ _ z] m
    by (simp add: blob_header_def)
qed

end
