(* ===== verification/GoDuration.thy ===== *)
theory GoDuration
  imports GoStrconv "HOL-Library.Monad_Syntax"
begin

section \<open>time.ParseDuration\<close>

text \<open>
  Durations are nanoseconds. The parser follows Go's: an optional sign, then numbers with an optional
  fraction and a unit; \<open>None\<close> stands for every error. The running total is a \<^verbatim>\<open>uint64\<close> and wraps, as
  the sum of two totals of 2 to the 63 does. A fraction is scaled in floating point by Go and exactly
  here: the two can differ in the last nanosecond of a fraction.
\<close>

definition unitMap :: "(string \<times> nat) list" where
  "unitMap = [(''ns'', 1), (''us'', 1000), ([CHR 0xC2, CHR 0xB5, CHR ''s''], 1000),
     ([CHR 0xCE, CHR 0xBC, CHR ''s''], 1000), (''ms'', 1000000), (''s'', 1000000000),
     (''m'', 60000000000), (''h'', 3600000000000)]"

fun leadingInt :: "nat \<Rightarrow> string \<Rightarrow> (nat \<times> string) option" where
  "leadingInt x [] = Some (x, [])"
| "leadingInt x (c # s) =
     (case digit_value c of
        None \<Rightarrow> Some (x, c # s)
      | Some d \<Rightarrow>
          if 2 ^ 63 div 10 < x then None
          else if 2 ^ 63 < 10 * x + d then None
          else leadingInt (10 * x + d) s)"

fun leadingFraction :: "nat \<Rightarrow> nat \<Rightarrow> bool \<Rightarrow> string \<Rightarrow> nat \<times> nat \<times> string" where
  "leadingFraction x scale overflow [] = (x, scale, [])"
| "leadingFraction x scale overflow (c # s) =
     (case digit_value c of
        None \<Rightarrow> (x, scale, c # s)
      | Some d \<Rightarrow>
          if overflow then leadingFraction x scale True s
          else if (2 ^ 63 - 1) div 10 < x then leadingFraction x scale True s
          else if 2 ^ 63 < 10 * x + d then leadingFraction x scale True s
          else leadingFraction (10 * x + d) (10 * scale) False s)"

definition number_char :: "char \<Rightarrow> bool" where
  "number_char c \<longleftrightarrow> c = dot \<or> digit_value c \<noteq> None"

text \<open>The optional fraction after the whole part, the unit, and one number with both.\<close>

definition fraction_part :: "string \<Rightarrow> nat \<times> nat \<times> string \<times> bool" where
  "fraction_part s =
     (case s of
        [] \<Rightarrow> (0, 1, s, False)
      | c # t \<Rightarrow>
          if c = dot then
            (let (f, scale, s') = leadingFraction 0 1 False t in (f, scale, s', length s' \<noteq> length t))
          else (0, 1, s, False))"

definition unit_part :: "nat \<Rightarrow> nat \<Rightarrow> nat \<Rightarrow> string \<Rightarrow> (nat \<times> string) option" where
  "unit_part v f scale s =
     (let u = takeWhile (\<lambda>c. \<not> number_char c) s;
          s' = dropWhile (\<lambda>c. \<not> number_char c) s
      in if u = [] then None
         else case map_of unitMap u of
           None \<Rightarrow> None
         | Some unit \<Rightarrow>
             if 2 ^ 63 div unit < v then None
             else
               (let w = v * unit + (if 0 < f then f * unit div scale else 0)
                in if 2 ^ 63 < w then None else Some (w, s')))"

definition parse_elem :: "string \<Rightarrow> (nat \<times> string) option" where
  "parse_elem s =
     (if s = [] \<or> \<not> number_char (hd s) then None
      else case leadingInt 0 s of
        None \<Rightarrow> None
      | Some (v, s1) \<Rightarrow>
          (case fraction_part s1 of
             (f, scale, s2, post) \<Rightarrow>
               if length s1 = length s \<and> \<not> post then None else unit_part v f scale s2))"

lemma leadingInt_length: "leadingInt x s = Some (v, s') \<Longrightarrow> length s' \<le> length s"
  by (induction x s rule: leadingInt.induct) (auto split: option.splits if_splits)

lemma leadingFraction_length: "leadingFraction x sc b s = (f, sc', s') \<Longrightarrow> length s' \<le> length s"
  by (induction x sc b s rule: leadingFraction.induct) (auto split: option.splits if_splits)

lemma length_dropWhile_less: "takeWhile P s \<noteq> [] \<Longrightarrow> length (dropWhile P s) < length s"
  by (metis length_append length_greater_0_conv less_add_same_cancel2 takeWhile_dropWhile_id)

lemma fraction_part_length: "fraction_part s = (f, sc, s', post) \<Longrightarrow> length s' \<le> length s"
  using leadingFraction_length
  by (fastforce simp: fraction_part_def split: list.splits if_splits prod.splits)

lemma unit_part_shorter: "unit_part v f sc s = Some (w, s') \<Longrightarrow> length s' < length s"
  by (auto simp: unit_part_def Let_def length_dropWhile_less split: if_splits option.splits)

lemma parse_elem_shorter: "parse_elem s = Some (w, s') \<Longrightarrow> length s' < length s"
  using leadingInt_length fraction_part_length unit_part_shorter
  by (fastforce simp: parse_elem_def split: if_splits option.splits prod.splits)

function parse_units :: "nat \<Rightarrow> string \<Rightarrow> nat option" where
  "parse_units d s =
     (if s = [] then Some d
      else case parse_elem s of
        None \<Rightarrow> None
      | Some (v, s') \<Rightarrow>
          (let d' = (d + v) mod 2 ^ 64 in if 2 ^ 63 < d' then None else parse_units d' s'))"
  by pat_completeness auto
termination
  by (relation "measure (\<lambda>(d, s). length s)") (auto dest: parse_elem_shorter)

declare parse_units.simps [simp del]

definition ParseDuration :: "string \<Rightarrow> int option" where
  "ParseDuration s0 =
     (let neg = (take 1 s0 = ''-'');
          s = (if take 1 s0 = ''-'' \<or> take 1 s0 = ''+'' then drop 1 s0 else s0)
      in if s = ''0'' then Some 0
         else if s = [] then None
         else case parse_units 0 s of
           None \<Rightarrow> None
         | Some d \<Rightarrow> if neg then Some (- int d) else if 2 ^ 63 - 1 < d then None else Some (int d))"

subsection \<open>Whole numbers of a unit\<close>

lemma read_digits_mono: "read_digits x s = Some n \<Longrightarrow> x \<le> n"
proof (induction x s rule: read_digits.induct)
  case (2 acc c cs)
  then show ?case by (fastforce split: option.splits)
qed simp

lemma leadingInt_digits:
  "read_digits x s = Some n \<Longrightarrow> n \<le> 2 ^ 63 \<Longrightarrow> t = [] \<or> digit_value (hd t) = None \<Longrightarrow>
   leadingInt x (s @ t) = Some (n, t)"
proof (induction x s rule: read_digits.induct)
  case (1 acc)
  then show ?case by (cases t) auto
next
  case (2 acc c cs)
  then obtain d where d: "digit_value c = Some d" "read_digits (10 * acc + d) cs = Some n"
    by (auto split: option.splits)
  with read_digits_mono have "10 * acc + d \<le> 2 ^ 63" using 2(3) le_trans by blast
  moreover from this have "acc \<le> 2 ^ 63 div 10" by simp
  ultimately show ?case
    using 2 d by simp
qed

lemma show_nat_head: "number_char (hd (show_nat n))"
proof -
  have "hd (show_nat n) \<in> set (show_nat n)" by simp
  then obtain d where "d < 10" "hd (show_nat n) = digit d" using show_nat_digits by blast
  then show ?thesis by (simp add: number_char_def)
qed

text \<open>A whole number of a known unit, the form the gateway's configuration uses, is read exactly.\<close>

lemma unitMap_units:
  assumes "map_of unitMap u = Some unit"
  shows "u \<noteq> [] \<and> 0 < unit \<and> list_all (\<lambda>c. \<not> number_char c) u"
proof -
  have all: "list_all (\<lambda>p. fst p \<noteq> [] \<and> 0 < snd p \<and> list_all (\<lambda>c. \<not> number_char c) (fst p)) unitMap"
    by (simp add: unitMap_def number_char_def digit_value_def)
  have "(u, unit) \<in> set unitMap" using assms by (rule map_of_SomeD)
  with all have "fst (u, unit) \<noteq> [] \<and> 0 < snd (u, unit) \<and> list_all (\<lambda>c. \<not> number_char c) (fst (u, unit))"
    unfolding list_all_iff [of _ unitMap] by blast
  then show ?thesis by simp
qed

lemma parse_elem_whole:
  assumes u: "map_of unitMap u = Some unit" and n: "n * unit \<le> 2 ^ 63"
  shows "parse_elem (show_nat n @ u) = Some (n * unit, [])"
proof -
  note un = unitMap_units [OF u]
  have ns: "\<forall>c \<in> set u. \<not> number_char c" using un by (simp add: list_all_iff)
  have "hd u \<in> set u" using un by simp
  then have h: "digit_value (hd u) = None" "hd u \<noteq> dot" using ns by (auto simp: number_char_def)
  have "n \<le> n * unit" using un by simp
  then have "n \<le> 2 ^ 63" using n by (rule le_trans)
  then have "leadingInt 0 (show_nat n @ u) = Some (n, u)"
    using h(1) by (intro leadingInt_digits [OF read_show_nat]) auto
  moreover have "fraction_part u = (0, 1, u, False)"
    using h(2) un by (cases u) (simp_all add: fraction_part_def)
  moreover have "unit_part n 0 1 u = Some (n * unit, [])"
  proof -
    have tw: "takeWhile (\<lambda>c. \<not> number_char c) u = u" "dropWhile (\<lambda>c. \<not> number_char c) u = []"
      using ns by (simp_all add: takeWhile_eq_all_conv dropWhile_eq_Nil_conv)
    have "n \<le> 2 ^ 63 div unit"
      using n un by (simp add: less_eq_div_iff_mult_less_eq)
    then show ?thesis using un u n unfolding unit_part_def Let_def tw by simp
  qed
  ultimately show ?thesis
    using un show_nat_head [of n] by (simp add: parse_elem_def hd_append)
qed

lemma ParseDuration_whole:
  assumes u: "map_of unitMap u = Some unit" and n: "n * unit < 2 ^ 63"
  shows "ParseDuration (show_nat n @ u) = Some (int (n * unit))"
proof -
  let ?s = "show_nat n @ u"
  obtain c cs where s: "show_nat n = c # cs" by (cases "show_nat n") auto
  then have "c \<noteq> CHR ''-''" "c \<noteq> CHR ''+''"
    using show_nat_digits [of c n] by auto
  then have sign: "take 1 ?s \<noteq> ''-''" "take 1 ?s \<noteq> ''+''" by (simp_all add: s)
  have "?s \<noteq> ''0''"
  proof
    assume z: "?s = ''0''"
    then have "u = []" by (simp add: s)
    with unitMap_units [OF u] show False by simp
  qed
  moreover have "?s \<noteq> []" by (simp add: s)
  moreover have "parse_units 0 ?s = Some (n * unit)"
  proof -
    have "parse_elem ?s = Some (n * unit, [])" using parse_elem_whole [OF u] n by simp
    then have "parse_units 0 ?s = parse_units (n * unit) []"
      using n by (subst parse_units.simps) (simp add: Let_def)
    then show ?thesis by (simp add: parse_units.simps)
  qed
  ultimately show ?thesis
    using sign n unfolding ParseDuration_def Let_def by simp
qed

lemma ParseDuration_zero: "ParseDuration ''0'' = Some 0"
  by (simp add: ParseDuration_def)

end
