(* ===== verification/Gateway.thy ===== *)
theory Gateway
  imports GoDuration ServerProps
begin

section \<open>main.go: configuration and assembly\<close>

text \<open>
  The process environment is a function from names to values, empty for a variable that is not set, as
  \<^verbatim>\<open>os.Getenv\<close> reads it. \<^verbatim>\<open>main\<close> up to its call of \<^verbatim>\<open>ListenAndServe\<close> is \<open>main_setup\<close>: it returns what
  \<^verbatim>\<open>main\<close>'s own goroutine logs before and after it starts the one that serves the metrics, and either the exit
  code or the gateway assembled; \<open>main_run\<close> is all of it, with the records of that goroutine interleaved. The
  listeners themselves (net/http on the metrics port and parapet's server with its middleware) are third-party
  code: what they return with is an argument, their addresses and timeouts are modelled. The records are those
  of \<^verbatim>\<open>main.go\<close>; what the handler logs while it serves is in the world of \<open>Server\<close>. The package-level
  counters exist before \<^verbatim>\<open>main\<close> and are the argument \<open>mt\<close>.
\<close>

type_synonym osenv = "string \<Rightarrow> string"

datatype main_log =
  WarnInt64 string string int
| WarnDuration string string int
| ErrSiteBucket
| ErrOpenBucket string open_error
| ErrBuildServer string
| InfoMetricsListening string
| ErrMetricsListen string
| InfoListening string string
| ErrListenAndServe string

definition defaultManifestCacheBytes :: int where
  "defaultManifestCacheBytes = push_bit 20 256"

definition defaultBlobCacheBytes :: int where
  "defaultBlobCacheBytes = push_bit 20 128"

definition getenv :: "osenv \<Rightarrow> string \<Rightarrow> string \<Rightarrow> string" where
  "getenv os key def = (let v = os key in if v \<noteq> [] then v else def)"

definition getenvInt64 :: "osenv \<Rightarrow> string \<Rightarrow> int \<Rightarrow> int \<times> main_log list" where
  "getenvInt64 os key def =
     (let v = os key in
      if v = [] then (def, [])
      else case ParseInt v of
        None \<Rightarrow> (def, [WarnInt64 key v def])
      | Some n \<Rightarrow> if n < 0 then (def, [WarnInt64 key v def]) else (n, []))"

definition getenvDuration :: "osenv \<Rightarrow> string \<Rightarrow> int \<Rightarrow> int \<times> main_log list" where
  "getenvDuration os key def =
     (let v = os key in
      if v = [] then (def, [])
      else case ParseDuration v of
        None \<Rightarrow> (def, [WarnDuration key v def])
      | Some d \<Rightarrow> (d, []))"

record ('b, 'v) gateway =
  gw_Addr :: string
  gw_metricsAddr :: string
  gw_world :: "('b Store, 'v) world"
  gw_evictor :: evictor
  gw_interval :: int
  gw_ReadHeaderTimeout :: int
  gw_ReadTimeout :: int

definition main_setup :: "osenv \<Rightarrow> ('cr, 'cl, 'b) gcs_env \<Rightarrow> 'v metrics \<Rightarrow>
   (main_log list \<times> main_log list) \<times> (int + ('b, 'v) gateway)" where
  "main_setup os genv mt =
     (let port = getenv os ''PORT'' ''8080'';
          bucket = os ''SITE_BUCKET''
      in if bucket = [] then (([ErrSiteBucket], []), Inl 1)
         else case OpenGCS genv bucket of
           Inl err \<Rightarrow> (([ErrOpenBucket bucket err], []), Inl 1)
         | Inr st0 \<Rightarrow>
             (let (blobBytes, l1) = getenvInt64 os ''BLOB_CACHE_BYTES'' defaultBlobCacheBytes;
                  store = NewCachingStore st0 blobBytes DefaultMaxCacheableBlobBytes;
                  (manifestBytes, l2) = getenvInt64 os ''MANIFEST_CACHE_BYTES'' defaultManifestCacheBytes
              in case New \<lparr>cfg_Store = Some store, cfg_ManifestCacheCap = 0, cfg_ManifestCacheBytes = manifestBytes\<rparr> mt of
                   Inl err \<Rightarrow> ((l1 @ l2 @ [ErrBuildServer err], []), Inl 1)
                 | Inr w \<Rightarrow>
                     (let metricsAddr = '':'' @ getenv os ''METRICS_PORT'' ''9090'';
                          (ttl, l3) = getenvDuration os ''METRICS_TTL'' (48 * hour);
                          (sweep, l4) = getenvDuration os ''METRICS_SWEEP_INTERVAL'' hour;
                          (ev, interval) = StartEvictor ttl sweep;
                          addr = '':'' @ port
                      in ((l1 @ l2, l3 @ l4 @ [InfoListening addr bucket]),
                          Inr \<lparr>gw_Addr = addr, gw_metricsAddr = metricsAddr, gw_world = w, gw_evictor = ev,
                               gw_interval = interval, gw_ReadHeaderTimeout = seconds 10,
                               gw_ReadTimeout = seconds 30\<rparr>))))"

text \<open>The goroutine that serves the metrics: what it logs when its listener returns with the error given, or
  when it has not returned.\<close>

definition metrics_records :: "string \<Rightarrow> string option \<Rightarrow> main_log list" where
  "metrics_records metricsAddr err =
     InfoMetricsListening metricsAddr # (case err of Some e \<Rightarrow> [ErrMetricsListen e] | None \<Rightarrow> [])"

text \<open>\<^verbatim>\<open>main\<close> to its end. The server's \<^verbatim>\<open>ListenAndServe\<close> is parapet's: the argument \<open>listen\<close> is the error it
  returns with, if any, for the gateway it is given; \<open>metricsListen\<close> is what the metrics listener returns with,
  for its address. The metrics goroutine runs beside \<^verbatim>\<open>main\<close>: its records fall anywhere among those \<^verbatim>\<open>main\<close>
  logs after starting it, and the end of the process cuts them off anywhere.\<close>

definition listen_records :: "string option \<Rightarrow> main_log list" where
  "listen_records res = (case res of Some err \<Rightarrow> [ErrListenAndServe err] | None \<Rightarrow> [])"

inductive main_run :: "osenv \<Rightarrow> ('cr, 'cl, 'b) gcs_env \<Rightarrow> 'v metrics \<Rightarrow> (('b, 'v) gateway \<Rightarrow> string option) \<Rightarrow>
   (string \<Rightarrow> string option) \<Rightarrow> main_log list \<Rightarrow> int \<Rightarrow> bool" for os genv mt listen metricsListen where
  main_exits: "main_setup os genv mt = ((before, after), Inl code) \<Longrightarrow>
    main_run os genv mt listen metricsListen (before @ after) code"
| main_serves: "main_setup os genv mt = ((before, after), Inr gw) \<Longrightarrow>
    prefix rs (metrics_records (gw_metricsAddr gw) (metricsListen (gw_metricsAddr gw))) \<Longrightarrow>
    rest \<in> shuffles (after @ listen_records (listen gw)) rs \<Longrightarrow>
    main_run os genv mt listen metricsListen (before @ rest) (case listen gw of Some err \<Rightarrow> 1 | None \<Rightarrow> 0)"

subsection \<open>Reading the environment\<close>

lemma getenvInt64_nonneg: "0 \<le> def \<Longrightarrow> 0 \<le> fst (getenvInt64 os key def)"
  by (auto simp: getenvInt64_def Let_def split: option.split)

lemma getenvInt64_unset: "os key = [] \<Longrightarrow> getenvInt64 os key def = (def, [])"
  by (simp add: getenvInt64_def)

lemma FormatInt_ne: "FormatInt n \<noteq> []"
  by (simp add: FormatInt_def)

lemma getenvInt64_set:
  "os key = FormatInt n \<Longrightarrow> int64 n \<Longrightarrow>
   getenvInt64 os key def = (if n < 0 then (def, [WarnInt64 key (FormatInt n) def]) else (n, []))"
  by (simp add: getenvInt64_def FormatInt_ne ParseInt_FormatInt)

lemma getenvDuration_unset: "os key = [] \<Longrightarrow> getenvDuration os key def = (def, [])"
  by (simp add: getenvDuration_def)

lemma getenvDuration_zero: "os key = ''0'' \<Longrightarrow> getenvDuration os key def = (0, [])"
  by (simp add: getenvDuration_def ParseDuration_zero)

lemma getenvDuration_set:
  "os key = show_nat n @ u \<Longrightarrow> map_of unitMap u = Some unit \<Longrightarrow> n * unit < 2 ^ 63 \<Longrightarrow>
   getenvDuration os key def = (int (n * unit), [])"
  by (simp add: getenvDuration_def ParseDuration_whole)

text \<open>When \<^verbatim>\<open>main\<close> gets as far as serving, and what it then serves.\<close>

definition configured_world :: "osenv \<Rightarrow> 'b \<Rightarrow> 'v metrics \<Rightarrow> ('b Store, 'v) world" where
  "configured_world os st0 mt =
     \<lparr>w_store = NewCachingStore st0 (fst (getenvInt64 os ''BLOB_CACHE_BYTES'' defaultBlobCacheBytes))
        DefaultMaxCacheableBlobBytes,
      w_cache = newManifestCache DefaultManifestCacheCap
        (fst (getenvInt64 os ''MANIFEST_CACHE_BYTES'' defaultManifestCacheBytes)),
      w_metrics = mt, w_log = []\<rparr>"

definition configured_evictor :: "osenv \<Rightarrow> evictor \<times> int" where
  "configured_evictor os =
     StartEvictor (fst (getenvDuration os ''METRICS_TTL'' (48 * hour)))
       (fst (getenvDuration os ''METRICS_SWEEP_INTERVAL'' hour))"

definition assembled :: "osenv \<Rightarrow> 'b \<Rightarrow> 'v metrics \<Rightarrow> ('b, 'v) gateway" where
  "assembled os st0 mt =
     \<lparr>gw_Addr = '':'' @ getenv os ''PORT'' ''8080'', gw_metricsAddr = '':'' @ getenv os ''METRICS_PORT'' ''9090'',
      gw_world = configured_world os st0 mt,
      gw_evictor = fst (configured_evictor os), gw_interval = snd (configured_evictor os),
      gw_ReadHeaderTimeout = seconds 10, gw_ReadTimeout = seconds 30\<rparr>"

lemma New_configured:
  "New \<lparr>cfg_Store = Some (NewCachingStore st0 (fst (getenvInt64 os ''BLOB_CACHE_BYTES'' defaultBlobCacheBytes))
        DefaultMaxCacheableBlobBytes),
     cfg_ManifestCacheCap = 0,
     cfg_ManifestCacheBytes = fst (getenvInt64 os ''MANIFEST_CACHE_BYTES'' defaultManifestCacheBytes)\<rparr> mt =
   Inr (configured_world os st0 mt)"
  by (simp add: New_def configured_world_def)

lemma main_setup_result:
  "snd (main_setup os genv mt) =
     (if os ''SITE_BUCKET'' = [] then Inl 1
      else case OpenGCS genv (os ''SITE_BUCKET'') of Inl _ \<Rightarrow> Inl 1 | Inr st0 \<Rightarrow> Inr (assembled os st0 mt))"
  by (simp add: main_setup_def Let_def case_prod_beta New_configured assembled_def configured_evictor_def
      split: sum.split)

text \<open>The settings read before the metrics goroutine starts, and those read after.\<close>

lemma main_setup_warnings:
  assumes "os ''SITE_BUCKET'' \<noteq> []" "OpenGCS genv (os ''SITE_BUCKET'') = Inr st0"
  shows "fst (main_setup os genv mt) =
    (snd (getenvInt64 os ''BLOB_CACHE_BYTES'' defaultBlobCacheBytes) @
       snd (getenvInt64 os ''MANIFEST_CACHE_BYTES'' defaultManifestCacheBytes),
     snd (getenvDuration os ''METRICS_TTL'' (48 * hour)) @ snd (getenvDuration os ''METRICS_SWEEP_INTERVAL'' hour) @
       [InfoListening ('':'' @ getenv os ''PORT'' ''8080'') (os ''SITE_BUCKET'')])"
  using assms by (simp add: main_setup_def Let_def case_prod_beta New_configured)

lemma main_setup_gateway:
  assumes "main_setup os genv mt = (logs, Inr gw)"
  obtains st0 where "os ''SITE_BUCKET'' \<noteq> []" "OpenGCS genv (os ''SITE_BUCKET'') = Inr st0" "gw = assembled os st0 mt"
  using assms that main_setup_result [of os genv mt] by (auto split: if_splits sum.splits)

lemma OpenGCS_opens: "OpenGCS genv n = Inr b \<Longrightarrow> \<exists>client. env_OpenBucket genv client n = Inr b"
  by (auto simp: OpenGCS_def Let_def split: if_splits sum.splits)

subsection \<open>Properties\<close>

text \<open>When the program serves: exactly when the bucket is named and the credentials, the HTTP
  client and the bucket open; any other start is exit code 1. No setting of the numeric or duration
  variables stops it, and what it then runs with is the configured state.\<close>

theorem main_serves_iff:
  "case snd (main_setup os genv mt) of
     Inl code \<Rightarrow> code = 1 \<and> (os ''SITE_BUCKET'' = [] \<or> (\<exists>err. OpenGCS genv (os ''SITE_BUCKET'') = Inl err))
   | Inr gw \<Rightarrow> \<exists>creds t client b. env_DefaultCredentials genv = Inr creds \<and>
       env_NewHTTPClient genv t creds = Inr client \<and> env_OpenBucket genv client (os ''SITE_BUCKET'') = Inr b \<and>
       os ''SITE_BUCKET'' \<noteq> [] \<and> gw_world gw = configured_world os b mt"
proof (cases "os ''SITE_BUCKET'' = []")
  case True
  then show ?thesis by (simp add: main_setup_result)
next
  case False
  show ?thesis
  proof (cases "OpenGCS genv (os ''SITE_BUCKET'')")
    case (Inl err)
    with False show ?thesis by (simp add: main_setup_result)
  next
    case (Inr b)
    from OpenGCS_success [OF Inr] False show ?thesis
      by (auto simp: main_setup_result Inr assembled_def)
  qed
qed

text \<open>Records that end the process, and records of the metrics goroutine.\<close>

fun is_fatal :: "main_log \<Rightarrow> bool" where
  "is_fatal ErrSiteBucket = True"
| "is_fatal (ErrOpenBucket _ _) = True"
| "is_fatal (ErrBuildServer _) = True"
| "is_fatal (ErrListenAndServe _) = True"
| "is_fatal _ = False"

fun of_metrics :: "main_log \<Rightarrow> bool" where
  "of_metrics (InfoMetricsListening _) = True"
| "of_metrics (ErrMetricsListen _) = True"
| "of_metrics _ = False"

definition own_warning :: "main_log \<Rightarrow> bool" where
  "own_warning l \<longleftrightarrow> \<not> is_fatal l \<and> \<not> of_metrics l"

lemma getenv_warns:
  "\<forall>l \<in> set (snd (getenvInt64 os key def)). own_warning l" "\<forall>l \<in> set (snd (getenvDuration os key def)). own_warning l"
  by (auto simp: getenvInt64_def getenvDuration_def Let_def own_warning_def split: option.split)

lemma main_setup_logs:
  "case main_setup os genv mt of
     ((before, after), Inl code) \<Rightarrow> code = 1 \<and> after = [] \<and> (\<exists>ws l. before = ws @ [l] \<and> is_fatal l \<and> (\<forall>w \<in> set ws. own_warning w))
   | ((before, after), Inr gw) \<Rightarrow> \<forall>l \<in> set (before @ after). own_warning l"
proof -
  have "own_warning (InfoListening a b)" for a b by (simp add: own_warning_def)
  then show ?thesis
    using getenv_warns [of os]
    by (auto simp: main_setup_def Let_def case_prod_beta New_configured split: sum.split)
qed

text \<open>What \<^verbatim>\<open>main\<close>'s goroutine logs is left when the records of the other are taken out.\<close>

lemma own_records:
  assumes "rest \<in> shuffles xs rs" "\<forall>l \<in> set xs. \<not> of_metrics l" "\<forall>l \<in> set rs. of_metrics l"
  shows "filter (\<lambda>l. \<not> of_metrics l) rest = xs"
proof -
  have "filter (\<lambda>l. \<not> of_metrics l) rest \<in> shuffles (filter (\<lambda>l. \<not> of_metrics l) xs) (filter (\<lambda>l. \<not> of_metrics l) rs)"
    using assms(1) filter_shuffles by blast
  with assms(2,3) show ?thesis by simp
qed

lemma metrics_records_own: "prefix rs (metrics_records a err) \<Longrightarrow> \<forall>l \<in> set rs. of_metrics l"
  by (fastforce simp: metrics_records_def dest!: set_mono_prefix split: option.splits)

lemma metrics_part:
  assumes "rest \<in> shuffles xs rs" "\<forall>l \<in> set xs. \<not> of_metrics l" "\<forall>l \<in> set rs. of_metrics l"
  shows "filter of_metrics rest = rs"
proof -
  have "filter of_metrics rest \<in> shuffles (filter of_metrics xs) (filter of_metrics rs)"
    using assms(1) filter_shuffles by blast
  with assms(2,3) show ?thesis by simp
qed

lemma main_setup_metricsAddr:
  "main_setup os genv mt = (logs, Inr gw) \<Longrightarrow> gw_metricsAddr gw = '':'' @ getenv os ''METRICS_PORT'' ''9090''"
  by (erule main_setup_gateway) (simp add: assembled_def)

text \<open>What a run logs: on the one hand \<^verbatim>\<open>main\<close>, on the other the metrics goroutine.\<close>

lemma main_run_log:
  assumes "main_run os genv mt listen metricsListen log code"
  shows "\<exists>ws fs. filter (\<lambda>l. \<not> of_metrics l) log = ws @ fs \<and> (\<forall>w \<in> set ws. own_warning w) \<and>
    (code = 0 \<and> fs = [] \<or> code = 1 \<and> (\<exists>l. fs = [l] \<and> is_fatal l))"
    "prefix (filter of_metrics log) (metrics_records ('':'' @ getenv os ''METRICS_PORT'' ''9090'')
      (metricsListen ('':'' @ getenv os ''METRICS_PORT'' ''9090'')))"
proof -
  let ?addr = "'':'' @ getenv os ''METRICS_PORT'' ''9090''"
  have "(\<exists>ws fs. filter (\<lambda>l. \<not> of_metrics l) log = ws @ fs \<and> (\<forall>w \<in> set ws. own_warning w) \<and>
      (code = 0 \<and> fs = [] \<or> code = 1 \<and> (\<exists>l. fs = [l] \<and> is_fatal l))) \<and>
    prefix (filter of_metrics log) (metrics_records ?addr (metricsListen ?addr))"
    using assms
  proof cases
    case (main_exits before after)
    with main_setup_logs [of os genv mt] obtain ws l where
      l: "code = 1" "log = ws @ [l]" "is_fatal l" "\<forall>w \<in> set ws. own_warning w" by auto
    have "\<not> of_metrics l" using l(3) by (cases l) simp_all
    with l(4) have own: "\<forall>x \<in> set log. \<not> of_metrics x" by (auto simp: l(2) own_warning_def)
    then have "filter (\<lambda>l. \<not> of_metrics l) log = log" "filter of_metrics log = []" by auto
    with l show ?thesis by auto
  next
    case (main_serves before after gw rs rest)
    with main_setup_logs [of os genv mt] have w: "\<forall>l \<in> set (before @ after). own_warning l" by simp
    let ?last = "listen_records (listen gw)"
    have own: "\<forall>l \<in> set (after @ ?last). \<not> of_metrics l" "\<forall>l \<in> set before. \<not> of_metrics l"
      using w by (auto simp: own_warning_def listen_records_def split: option.splits)
    note m = metrics_records_own [OF main_serves(4)]
    have "filter (\<lambda>l. \<not> of_metrics l) log = (before @ after) @ ?last"
      using own_records [OF main_serves(5) own(1) m] own(2) main_serves(1) by simp
    moreover have "filter of_metrics log = rs"
      using metrics_part [OF main_serves(5) own(1) m] own(2) main_serves(1) by simp
    moreover have "code = 0 \<and> ?last = [] \<or> code = 1 \<and> (\<exists>l. ?last = [l] \<and> is_fatal l)"
      using main_serves(2) by (auto simp: listen_records_def split: option.splits)
    ultimately show ?thesis
      using w main_serves(4) main_setup_metricsAddr [OF main_serves(3)]
      by (intro conjI exI [of _ "before @ after"] exI [of _ ?last]) simp_all
  qed
  then show "\<exists>ws fs. filter (\<lambda>l. \<not> of_metrics l) log = ws @ fs \<and> (\<forall>w \<in> set ws. own_warning w) \<and>
      (code = 0 \<and> fs = [] \<or> code = 1 \<and> (\<exists>l. fs = [l] \<and> is_fatal l))"
    "prefix (filter of_metrics log) (metrics_records ?addr (metricsListen ?addr))" by blast+
qed

lemma fatal_own: "is_fatal l \<Longrightarrow> \<not> of_metrics l"
  by (cases l) simp_all

lemma main_run_fatal:
  assumes "main_run os genv mt listen metricsListen log code"
  shows "code = 1 \<longleftrightarrow> (\<exists>l \<in> set log. is_fatal l)"
    "l \<in> set log \<Longrightarrow> is_fatal l \<Longrightarrow> last (filter (\<lambda>l. \<not> of_metrics l) log) = l"
proof -
  from main_run_log(1) [OF assms] obtain ws fs where
    f: "filter (\<lambda>l. \<not> of_metrics l) log = ws @ fs" "\<forall>w \<in> set ws. own_warning w"
      "code = 0 \<and> fs = [] \<or> code = 1 \<and> (\<exists>l. fs = [l] \<and> is_fatal l)" by blast
  have "set (ws @ fs) = {l \<in> set log. \<not> of_metrics l}" unfolding f(1) [symmetric] by auto
  then have fs: "is_fatal l \<and> l \<in> set log \<longleftrightarrow> is_fatal l \<and> l \<in> set fs" for l
    using f(2) fatal_own [of l] by (auto simp: own_warning_def)
  show "code = 1 \<longleftrightarrow> (\<exists>l \<in> set log. is_fatal l)"
    using f(3) fs by fastforce
  show "last (filter (\<lambda>l. \<not> of_metrics l) log) = l" if "l \<in> set log" "is_fatal l"
    using f(1,3) fs [of l] that by auto
qed

text \<open>Every start has a run, and all its runs end with the same code.\<close>

definition starts_and_stops :: "osenv \<Rightarrow> ('cr, 'cl, 'b) gcs_env \<Rightarrow> 'v metrics \<Rightarrow> (('b, 'v) gateway \<Rightarrow> string option) \<Rightarrow> bool" where
  "starts_and_stops os genv mt listen \<longleftrightarrow>
     os ''SITE_BUCKET'' \<noteq> [] \<and> (\<exists>b. OpenGCS genv (os ''SITE_BUCKET'') = Inr b \<and> listen (assembled os b mt) = None)"

lemma main_run_code:
  "(\<exists>log. main_run os genv mt listen metricsListen log code) \<longleftrightarrow>
     code = (if starts_and_stops os genv mt listen then 0 else 1)"
proof -
  obtain before after res where r: "main_setup os genv mt = ((before, after), res)"
    by (cases "main_setup os genv mt") auto
  note sr = main_setup_result [of os genv mt, unfolded r snd_conv]
  show ?thesis
  proof (cases res)
    case (Inl c)
    with sr have "c = 1" "\<not> starts_and_stops os genv mt listen"
      by (auto simp: starts_and_stops_def split: if_splits sum.splits)
    with r Inl main_exits [of os genv mt before after c listen metricsListen] show ?thesis
      by (auto elim: main_run.cases)
  next
    case (Inr gw)
    with sr have st: "starts_and_stops os genv mt listen \<longleftrightarrow> listen gw = None"
      by (auto simp: starts_and_stops_def split: if_splits sum.splits)
    have "main_run os genv mt listen metricsListen (before @ after @ listen_records (listen gw))
        (case listen gw of Some err \<Rightarrow> 1 | None \<Rightarrow> 0)"
      by (rule main_serves [OF r [unfolded Inr], where rs = "[]"]) simp_all
    moreover have "c = (case listen gw of Some err \<Rightarrow> 1 | None \<Rightarrow> 0)" if "main_run os genv mt listen metricsListen log c" for log c
      using that r Inr by cases simp_all
    ultimately show ?thesis using st by (fastforce split: option.splits)
  qed
qed

text \<open>C37: error. How the program ends: with exit code 0 exactly when the bucket is named, it opens with
  its credentials and client, and the listener on the configured gateway returns without error; in
  every other case with exit code 1. However the metrics goroutine's records fall among those of \<^verbatim>\<open>main\<close>, the
  exit code is 1 exactly when one of the errors that end \<^verbatim>\<open>main\<close> is logged, and that is then the last
  record \<^verbatim>\<open>main\<close> itself logs. The metrics goroutine announces its listener before it logs that it failed, and
  neither that failure nor a setting of the numeric or duration variables changes how the program ends.\<close>

theorem main_exit_code:
  "((\<exists>log. main_run os genv mt listen metricsListen log code) \<longleftrightarrow>
     code = (if starts_and_stops os genv mt listen then 0 else 1)) \<and>
   (main_run os genv mt listen metricsListen log code \<longrightarrow>
     (code = 1 \<longleftrightarrow> (\<exists>l \<in> set log. is_fatal l)) \<and>
     (\<forall>l \<in> set log. is_fatal l \<longrightarrow> last (filter (\<lambda>l. \<not> of_metrics l) log) = l) \<and>
     prefix (filter of_metrics log) (metrics_records ('':'' @ getenv os ''METRICS_PORT'' ''9090'')
       (metricsListen ('':'' @ getenv os ''METRICS_PORT'' ''9090''))))"
  using main_run_code [of os genv mt listen metricsListen code] main_run_fatal [of os genv mt listen metricsListen log code]
    main_run_log(2) [of os genv mt listen metricsListen log code] by blast

text \<open>Byte budgets from the environment: a budget written in decimal is read back as
  written, for every non-negative 64-bit value; a variable that is unset or has any other value gives
  the default, with one warning when it is set; the result is never negative.\<close>

theorem getenvInt64_reads:
  assumes "0 \<le> def"
  shows "0 \<le> fst (getenvInt64 os key def) \<and>
    (\<forall>n \<ge> 0. int64 n \<longrightarrow> os key = FormatInt n \<longrightarrow> getenvInt64 os key def = (n, [])) \<and>
    (os key = [] \<longrightarrow> getenvInt64 os key def = (def, [])) \<and>
    (\<forall>n < 0. int64 n \<longrightarrow> os key = FormatInt n \<longrightarrow> getenvInt64 os key def = (def, [WarnInt64 key (os key) def])) \<and>
    (ParseInt (os key) = None \<longrightarrow> fst (getenvInt64 os key def) = def)"
  using getenvInt64_nonneg [OF assms, of os key] getenvInt64_set [of os key] getenvInt64_unset [of os key]
  by (auto simp: getenvInt64_def Let_def)

lemma getenvInt64_reads_witness:
  "getenvInt64 (\<lambda>_. ''1048576'') ''BLOB_CACHE_BYTES'' defaultBlobCacheBytes = (1048576, []) \<and>
   getenvInt64 (\<lambda>_. ''-1'') ''BLOB_CACHE_BYTES'' 7 = (7, [WarnInt64 ''BLOB_CACHE_BYTES'' ''-1'' 7])"
proof -
  have f: "FormatInt 1048576 = ''1048576''" "FormatInt (- 1) = ''-1''"
    by (simp_all add: FormatInt_def show_nat.simps)
  have "0 \<le> defaultBlobCacheBytes" by (simp add: defaultBlobCacheBytes_def)
  from getenvInt64_reads [OF this, of "\<lambda>_. ''1048576''" "''BLOB_CACHE_BYTES''"]
    getenvInt64_reads [of 7 "\<lambda>_. ''-1''" "''BLOB_CACHE_BYTES''"]
  show ?thesis by (auto simp: f [symmetric] int64_def)
qed

text \<open>The idle time to live the metrics sweep runs with: the default, off, or at least the billing day.\<close>

definition billing_day :: int where
  "billing_day = 24 * hour"

definition safe_ttl :: "osenv \<Rightarrow> bool" where
  "safe_ttl os \<longleftrightarrow> os ''METRICS_TTL'' = [] \<or> os ''METRICS_TTL'' = ''0'' \<or>
     (\<exists>n u unit. os ''METRICS_TTL'' = show_nat n @ u \<and> map_of unitMap u = Some unit \<and>
        billing_day \<le> int (n * unit) \<and> n * unit < 2 ^ 63)"

lemma configured_ttl:
  assumes "safe_ttl os"
  shows "fst (configured_evictor os) = NotStarted \<or>
    (\<exists>ttl. billing_day \<le> ttl \<and> fst (configured_evictor os) = Running ttl)"
proof -
  let ?ttl = "fst (getenvDuration os ''METRICS_TTL'' (48 * hour))"
  have "?ttl = 0 \<or> billing_day \<le> ?ttl"
    using assms getenvDuration_unset [of os] getenvDuration_zero [of os] getenvDuration_set [of os]
    by (fastforce simp: safe_ttl_def billing_day_def hour_def)
  then show ?thesis by (auto simp: configured_evictor_def StartEvictor_def)
qed

text \<open>C21: safety. No sweep before the billing read: with \<^verbatim>\<open>METRICS_TTL\<close> unset, zero, or a whole number of a
  unit worth a day or more, a sweep of the gateway \<^verbatim>\<open>main\<close> assembles drops no series of a site active
  within the last 24 hours.\<close>

theorem sweep_spares_billing_day:
  assumes laws: "counter_laws ops val" and ttl: "safe_ttl os"
    and gw: "main_setup os genv mt = (logs, Inr gw)"
    and recent: "m_lastSeen w k = Some seen" "UnixNano now - billing_day \<le> seen"
  shows "site_view val k (snd (gw_event ops (Tick now visit) (gw_evictor gw, w))) = site_view val k w"
proof -
  obtain st0 where "gw = assembled os st0 mt" using main_setup_gateway [OF gw] by blast
  then have ev: "gw_evictor gw = fst (configured_evictor os)" by (simp add: assembled_def)
  from configured_ttl [OF ttl] show ?thesis
  proof (elim disjE exE conjE)
    assume "fst (configured_evictor os) = NotStarted"
    then show ?thesis by (simp add: ev)
  next
    fix t
    assume t: "billing_day \<le> t" "fst (configured_evictor os) = Running t"
    then have "\<not> idle (UnixNano now - t) k w" using recent by (simp add: idle_def)
    with t(2) show ?thesis by (simp add: ev evictIdle_view [OF laws])
  qed
qed

text \<open>An environment and cloud libraries that open the demonstration bucket.\<close>

definition demo_osenv :: osenv where
  "demo_osenv = (\<lambda>k. if k = ''SITE_BUCKET'' then ''releases'' else if k = ''METRICS_TTL'' then ''36h'' else [])"

definition demo_genv :: "(unit, unit, string \<rightharpoonup> bytes) gcs_env" where
  "demo_genv = \<lparr>env_DefaultCredentials = Inr (), env_DefaultTransport = \<lparr>MaxIdleConns = 100, MaxIdleConnsPerHost = 2,
       IdleConnTimeout = seconds 90\<rparr>,
     env_NewHTTPClient = (\<lambda>_ _. Inr ()), env_OpenBucket = (\<lambda>_ _. Inr (fake_objs demo_store))\<rparr>"

lemma demo_setup_bucket:
  "\<exists>logs gw. main_setup demo_osenv (demo_genv\<lparr>env_OpenBucket := (\<lambda>_ _. Inr b)\<rparr>) mt = (logs, Inr gw) \<and>
     gw = assembled demo_osenv b mt"
proof -
  let ?g = "demo_genv\<lparr>env_OpenBucket := (\<lambda>_ _. Inr b)\<rparr>"
  have "snd (main_setup demo_osenv ?g mt) = Inr (assembled demo_osenv b mt)"
    by (simp add: main_setup_result OpenGCS_def demo_genv_def Let_def) (simp add: demo_osenv_def)
  then show ?thesis by (cases "main_setup demo_osenv ?g mt") simp
qed

lemma demo_setup:
  "\<exists>logs gw. main_setup demo_osenv demo_genv mt = (logs, Inr gw) \<and> gw = assembled demo_osenv (fake_objs demo_store) mt"
  using demo_setup_bucket [of "fake_objs demo_store" mt] by (simp add: demo_genv_def)

text \<open>The metrics port is taken, and the server is shut down: its error is the last record, the exit code 0.\<close>

lemma demo_setup_logs: "fst (main_setup demo_osenv demo_genv mt) = ([], [InfoListening '':8080'' ''releases''])"
proof -
  have "demo_osenv ''METRICS_TTL'' = show_nat 36 @ ''h''" by (simp add: demo_osenv_def show_nat.simps)
  moreover have "map_of unitMap ''h'' = Some 3600000000000" by (simp add: unitMap_def)
  ultimately have ttl: "getenvDuration demo_osenv ''METRICS_TTL'' (48 * hour) = (int (36 * 3600000000000), [])"
    by (rule getenvDuration_set) simp
  have "demo_osenv k = []" if "k \<notin> {''SITE_BUCKET'', ''METRICS_TTL''}" for k
    using that by (simp add: demo_osenv_def)
  then have u: "getenvInt64 demo_osenv ''BLOB_CACHE_BYTES'' d = (d, [])" "getenvInt64 demo_osenv ''MANIFEST_CACHE_BYTES'' d = (d, [])"
    "getenvDuration demo_osenv ''METRICS_SWEEP_INTERVAL'' d = (d, [])" "getenv demo_osenv ''PORT'' x = x" for d x
    by (simp_all add: getenvInt64_unset getenvDuration_unset getenv_def)
  have "OpenGCS demo_genv (demo_osenv ''SITE_BUCKET'') = Inr (fake_objs demo_store)" "demo_osenv ''SITE_BUCKET'' = ''releases''"
    by (simp_all add: OpenGCS_def demo_genv_def Let_def demo_osenv_def)
  with main_setup_warnings [of demo_osenv demo_genv "fake_objs demo_store" mt] show ?thesis by (simp add: u ttl)
qed

lemma main_exit_code_witness:
  "\<exists>log. main_run demo_osenv demo_genv new_metrics (\<lambda>_. None) (\<lambda>_. Some ''address already in use'') log 0 \<and>
     last log = ErrMetricsListen ''address already in use'' \<and> \<not> (\<exists>l \<in> set log. is_fatal l)"
proof -
  obtain gw where gw: "main_setup demo_osenv demo_genv new_metrics = (([], [InfoListening '':8080'' ''releases'']), Inr gw)"
    using demo_setup [of new_metrics] demo_setup_logs [of new_metrics] by auto
  let ?rest = "[InfoMetricsListening (gw_metricsAddr gw), InfoListening '':8080'' ''releases'', ErrMetricsListen ''address already in use'']"
  have "?rest \<in> shuffles [InfoListening '':8080'' ''releases'']
      (metrics_records (gw_metricsAddr gw) (Some ''address already in use''))"
    by (simp add: metrics_records_def)
  then have run: "main_run demo_osenv demo_genv new_metrics (\<lambda>_. None) (\<lambda>_. Some ''address already in use'') ?rest 0"
    using main_serves [OF gw, where listen = "\<lambda>_. None" and metricsListen = "\<lambda>_. Some ''address already in use''"
        and rs = "metrics_records (gw_metricsAddr gw) (Some ''address already in use'')" and rest = ?rest]
    by (simp add: listen_records_def)
  from main_exit_code [of demo_osenv demo_genv new_metrics "\<lambda>_. None" "\<lambda>_. Some ''address already in use''" 0 ?rest] run
  have "\<not> (\<exists>l \<in> set ?rest. is_fatal l)" by simp
  with run show ?thesis by (intro exI [of _ ?rest]) simp
qed

lemma demo_safe_ttl: "safe_ttl demo_osenv"
proof -
  have "demo_osenv ''METRICS_TTL'' = show_nat 36 @ ''h''"
    by (simp add: demo_osenv_def show_nat.simps)
  moreover have "map_of unitMap ''h'' = Some 3600000000000"
    by (simp add: unitMap_def)
  moreover have "billing_day \<le> int (36 * 3600000000000)" "36 * 3600000000000 < (2 ^ 63 :: nat)"
    by (simp_all add: billing_day_def hour_def)
  ultimately show ?thesis unfolding safe_ttl_def by metis
qed

lemma sweep_spares_billing_day_witness:
  "\<exists>logs gw. main_setup demo_osenv demo_genv new_metrics = (logs, Inr gw) \<and>
     site_view id (''a'', ''b'') (snd (gw_event map_ops (Tick (epoch_plus 3600) [(''a'', ''b'')])
        (gw_evictor gw, touch (epoch_plus 0) ''a'' ''b'' new_metrics))) =
     site_view id (''a'', ''b'') (touch (epoch_plus 0) ''a'' ''b'' new_metrics)"
proof -
  obtain logs gw where gw: "main_setup demo_osenv demo_genv new_metrics = (logs, Inr gw)"
    using demo_setup [of new_metrics] by blast
  have "m_lastSeen (touch (epoch_plus 0) ''a'' ''b'' new_metrics) (''a'', ''b'') = Some 0"
    "UnixNano (epoch_plus 3600) - billing_day \<le> 0"
    by (simp_all add: epoch_plus_def UnixNano_def billing_day_def hour_def)
  from sweep_spares_billing_day [OF map_ops_laws demo_safe_ttl gw this] gw show ?thesis by blast
qed

end
