(* ===== verification/GatewayRun.thy ===== *)
theory GatewayRun
  imports Gateway
begin

section \<open>The running gateway\<close>

text \<open>
  The assembled program as a transition system. Its state is the handler's world and the evictor; a step
  is one request (with its own clock reading and whatever room its connection has), one sweep of the
  evictor at some time and in some visiting order, or the evictor's stop. Steps do not overlap: a request
  is one step. The invariants are proved by rule induction over the runs.
\<close>

type_synonym ('s, 'v) running = "('s, 'v) world \<times> evictor"

definition at_time :: "gotime \<Rightarrow> ('s, 'v) env \<Rightarrow> ('s, 'v) env" where
  "at_time t env = env\<lparr>e_now := t\<rparr>"

inductive gw_step :: "('s, 'v) env \<Rightarrow> ('s, 'v) running \<Rightarrow> ('s, 'v) running \<Rightarrow> bool" for env where
  serve: "gw_step env (w, e) (snd (handle (at_time t env) room r w), e)"
| sweep: "gw_step env (w, Running ttl)
    (w\<lparr>w_metrics := evictIdle (e_counters env) visit t ttl (w_metrics w)\<rparr>, Running ttl)"
| stop: "gw_step env (w, Running ttl) (w, Stopped)"

definition reachable :: "('s, 'v) env \<Rightarrow> ('s, 'v) running \<Rightarrow> ('s, 'v) running \<Rightarrow> bool" where
  "reachable env = rtranclp (gw_step env)"

inductive_cases gw_stepE: "gw_step env (w, e) s'"

inductive_simps gw_step_stopped: "gw_step env (w, Stopped) s'"

lemma reachable_induct [consumes 1, case_names start step]:
  assumes "reachable env s0 s" "P s0" "\<And>s s'. P s \<Longrightarrow> gw_step env s s' \<Longrightarrow> P s'"
  shows "P s"
  using assms(1) unfolding reachable_def by (induction rule: rtranclp_induct) (use assms(2,3) in blast)+

lemma at_time_simps [simp]:
  "e_Get (at_time t env) = e_Get env" "e_counters (at_time t env) = e_counters env"
  "e_decode (at_time t env) = e_decode env" "e_rng (at_time t env) = e_rng env"
  "e_ParseTime (at_time t env) = e_ParseTime env" "e_Do (at_time t env) = e_Do env" "e_now (at_time t env) = t"
  by (simp_all add: at_time_def)

lemma at_time_do_runs [simp]: "do_runs (at_time t env) = do_runs env"
  by (simp add: do_runs_def)

text \<open>The clock shows in no answer.\<close>

lemma at_time_released [simp]: "released (at_time t env) = released env"
  by (intro ext) (unfold released_def at_time_simps, rule refl)

lemma at_time_world_ok [simp]: "world_ok iv objs (at_time t env) w = world_ok iv objs env w"
  by (simp add: world_ok_def)

lemma at_time_ideal [simp]: "ideal (at_time t env) = ideal env"
  by (intro ext) (unfold ideal_def ideal_site_def at_time_simps at_time_released, rule refl)

subsection \<open>The objects and the caches\<close>

context object_store
begin

lemma step_ok:
  assumes g: "e_Get env = get" and d: "do_runs env"
    and ok: "world_ok invar objs env (fst s)" and st: "gw_step env s s'"
  shows "world_ok invar objs env (fst s') \<and> objs (w_store (fst s')) = objs (w_store (fst s))"
  using st
proof cases
  case (serve w e t room r)
  obtain rw w' where h: "handle (at_time t env) room r w = (rw, w')"
    by (cases "handle (at_time t env) room r w")
  from serve ok have "world_ok invar objs (at_time t env) w" by simp
  from handle_ok [OF this _ _ h] serve h g d show ?thesis by simp
qed (use ok in \<open>auto simp: world_ok_def\<close>)

lemma reachable_ok:
  assumes "reachable env s0 s" "e_Get env = get" "do_runs env" "world_ok invar objs env (fst s0)"
  shows "world_ok invar objs env (fst s) \<and> objs (w_store (fst s)) = objs (w_store (fst s0))"
  using assms(1)
proof (induction rule: reachable_induct)
  case (step s s')
  with step_ok [OF assms(2,3), of s s'] show ?case by simp
qed (use assms(4) in simp)

end

subsection \<open>The metrics\<close>

lemma tracked_request:
  "counter_laws ops val \<Longrightarrow> tracked val w \<Longrightarrow> tracked val (ObserveRequest ops t p n w)"
  using tracked_event [of ops val w "Request t p n" Stopped] by simp

lemma tracked_bytes:
  "counter_laws ops val \<Longrightarrow> tracked val w \<Longrightarrow> tracked val (AddResponseBytes ops t p n b w)"
  using tracked_event [of ops val w "Bytes t p n b" Stopped] by simp

lemma tracked_sweep:
  "counter_laws ops val \<Longrightarrow> tracked val w \<Longrightarrow> tracked val (evictIdle ops visit t ttl w)"
  using tracked_event [of ops val w "Tick t visit" "Running ttl"] by simp

lemma handle_tracked:
  assumes laws: "counter_laws (e_counters env) val" and d: "do_runs env" and t: "tracked val (w_metrics w)"
  shows "tracked val (w_metrics (snd (handle env room r w)))"
proof -
  obtain rw w' where h: "handle env room r w = (rw, w')" by (cases "handle env room r w")
  note tracked_request [OF laws t] tracked_bytes [OF laws]
  with handle_counts [OF d h] t h show ?thesis
    by (auto simp: counts_body_def split: if_splits option.splits)
qed

lemma reachable_tracked:
  assumes "reachable env s0 s" "counter_laws (e_counters env) val" "do_runs env" "tracked val (w_metrics (fst s0))"
  shows "tracked val (w_metrics (fst s))"
  using assms(1)
proof (induction rule: reachable_induct)
  case (step s s')
  from step(2,1) show ?case
  proof cases
    case (serve w e t room r)
    then show ?thesis
      using step(1) handle_tracked [of "at_time t env" val w room r] assms(2,3) by simp
  next
    case (sweep w ttl visit t)
    then show ?thesis using step(1) tracked_sweep [OF assms(2)] by simp
  qed simp
qed (use assms(4) in simp)

subsection \<open>What a request does to the store and to the manifest cache\<close>

text \<open>The store changes by its own reads only, the cache by its own operations only.\<close>

lemma serveSite_world:
  "w_cache (snd (serveSite env r s m (rw, w))) = w_cache w \<and>
   (w_store (snd (serveSite env r s m (rw, w))) = w_store w \<or>
    (\<exists>k. w_store (snd (serveSite env r s m (rw, w))) = snd (e_Get env k (w_store w))))"
proof (cases rule: serveSite_cases [of m s env r "(rw, w)"])
  case (document p)
  then show ?thesis using serveBlob_world [of env r s m "fst (Lookup m p)" 200 rw w] by auto
next
  case not_found
  show ?thesis
  proof (cases rule: serveNotFound_cases [of m env r s "(rw, w)"])
    case (document p)
    then show ?thesis using not_found serveBlob_world [of env r s m "fst (Lookup m p)" 404 rw w] by auto
  next
    case (built_in rw1)
    then show ?thesis using not_found by (simp add: add_bytes_def)
  qed
qed

lemma loadOnce_keeps:
  assumes "\<And>k s. P s \<Longrightarrow> P (snd (e_Get env k s))" "\<And>k c. Q c \<Longrightarrow> Q (snd (mc_get k c))"
    "\<And>k m c. Q c \<Longrightarrow> Q (mc_add k m c)" "P (w_store w)" "Q (w_cache w)"
  shows "P (w_store (snd (loadOnce env k w))) \<and> Q (w_cache (snd (loadOnce env k w)))"
proof -
  obtain hit c where mg: "mc_get k (w_cache w) = (hit, c)" by (cases "mc_get k (w_cache w)")
  then have c: "Q c" using assms(2) [OF assms(5), of k] by simp
  show ?thesis
  proof (cases hit)
    case (Some m)
    with mg c assms(4) show ?thesis by (simp add: loadOnce_def)
  next
    case None
    obtain res st where g: "e_Get env k (w_store w) = (res, st)" by (cases "e_Get env k (w_store w)")
    then have st: "P st" using assms(1) [OF assms(4), of k] by simp
    show ?thesis
      using None mg g c st assms(3) [OF c] by (simp add: loadOnce_def Let_def split: sum.split)
  qed
qed

lemma loadManifest_keeps:
  assumes P: "\<And>k s. P s \<Longrightarrow> P (snd (e_Get env k s))" and Q: "\<And>k c. Q c \<Longrightarrow> Q (snd (mc_get k c))"
      "\<And>k m c. Q c \<Longrightarrow> Q (mc_add k m c)"
    and d: "do_runs env" and w: "P (w_store w)" "Q (w_cache w)"
  shows "P (w_store (snd (loadManifest env s w))) \<and> Q (w_cache (snd (loadManifest env s w)))"
proof -
  obtain hit c where mg: "mc_get (site_key s) (w_cache w) = (hit, c)" by (cases "mc_get (site_key s) (w_cache w)")
  then have c: "Q c" using Q(1) [OF w(2), of "site_key s"] by simp
  show ?thesis
  proof (cases hit)
    case (Some m)
    with mg c w(1) show ?thesis by (simp add: loadManifest_def site_key_def)
  next
    case None
    then have "loadManifest env s w = loadOnce env (site_key s) (w\<lparr>w_cache := c\<rparr>)"
      using mg d by (simp add: loadManifest_def site_key_def do_runs_def)
    moreover have "P (w_store (snd (loadOnce env (site_key s) (w\<lparr>w_cache := c\<rparr>)))) \<and>
        Q (w_cache (snd (loadOnce env (site_key s) (w\<lparr>w_cache := c\<rparr>))))"
      by (rule loadOnce_keeps [where P = P and Q = Q, OF P Q]) (use c w(1) in simp_all)
    ultimately show ?thesis by simp
  qed
qed

lemma handle_keeps:
  assumes P: "\<And>k s. P s \<Longrightarrow> P (snd (e_Get env k s))" and Q: "\<And>k c. Q c \<Longrightarrow> Q (snd (mc_get k c))"
      "\<And>k m c. Q c \<Longrightarrow> Q (mc_add k m c)"
    and d: "do_runs env" and w: "P (w_store w)" "Q (w_cache w)"
  shows "P (w_store (snd (handle env room r w))) \<and> Q (w_cache (snd (handle env room r w)))"
proof (cases "(rq_Method r = MethodGet \<or> rq_Method r = MethodHead) \<and> parseSite (rq_Path r) \<noteq> None")
  case False
  with w show ?thesis by (auto simp: handle_def ServeHTTP_def)
next
  case True
  then obtain s where s: "parseSite (rq_Path r) = Some s" by blast
  obtain res w2 where ld: "loadManifest env s (observe env s w) = (res, w2)"
    by (cases "loadManifest env s (observe env s w)")
  have "P (w_store (snd (loadManifest env s (observe env s w)))) \<and> Q (w_cache (snd (loadManifest env s (observe env s w))))"
    by (rule loadManifest_keeps [where P = P and Q = Q, OF P Q d]) (use w in \<open>simp_all add: observe_def\<close>)
  with ld have w2: "P (w_store w2)" "Q (w_cache w2)" by simp_all
  show ?thesis
  proof (cases res)
    case (Inl e)
    with True s ld w2 show ?thesis by (auto simp: handle_def ServeHTTP_def log_event_def)
  next
    case (Inr m)
    with True s ld have "handle env room r w = serveSite env r s m (newResponse r room, w2)"
      by (auto simp: handle_def ServeHTTP_def)
    with serveSite_world [of env r s m "newResponse r room" w2] P w2 show ?thesis by auto
  qed
qed

lemma reachable_keeps:
  assumes "reachable env s0 s" and P: "\<And>k s. P s \<Longrightarrow> P (snd (e_Get env k s))"
    and Q: "\<And>k c. Q c \<Longrightarrow> Q (snd (mc_get k c))" "\<And>k m c. Q c \<Longrightarrow> Q (mc_add k m c)"
    and d: "do_runs env" and w: "P (w_store (fst s0))" "Q (w_cache (fst s0))"
  shows "P (w_store (fst s)) \<and> Q (w_cache (fst s))"
  using assms(1)
proof (induction rule: reachable_induct)
  case (step s s')
  from step(2,1) show ?case
  proof cases
    case (serve w e t room r)
    then show ?thesis
      using step(1) handle_keeps [where env = "at_time t env" and P = P and Q = Q and w = w and room = room and r = r]
        P Q d by simp
  qed auto
qed (use w in simp)

end
