(* ===== verification/Coalescing.thy ===== *)
theory Coalescing
  imports ServerProps
begin

section \<open>Concurrent manifest loads\<close>

text \<open>
  \<^verbatim>\<open>loadManifest\<close> of \<^verbatim>\<open>server.go\<close> again, for any number of requests at once. Each caller is a thread with
  a program point; a step of a thread is one of the operations the code makes atomic (a cache operation
  under its mutex, entering or leaving the singleflight group, opening the object) or the thread's own
  reading and parsing. Threads interleave freely.

  The singleflight group is not under \<^verbatim>\<open>src/\<close>: its state and operations are arguments, with what its
  documentation promises as \<open>flight_contract\<close>: only one execution is in flight for a key at a time, and a
  duplicate caller waits for it and receives its result.
\<close>

subsection \<open>Threads\<close>

type_synonym thread = nat

datatype pc =
  LIdle
| LStart string
| LDo string
| LWait string
| LAgain string
| LFetch string
| LParse string reader
| LAdd string Manifest
| LLeave string "lm_error + Manifest"
| LDone string "lm_error + Manifest"

record 'g flight_ops =
  fl_enter :: "string \<Rightarrow> thread \<Rightarrow> 'g \<Rightarrow> bool \<times> 'g"
  fl_leave :: "string \<Rightarrow> thread \<Rightarrow> 'g \<Rightarrow> thread list \<times> 'g"

record ('s, 'v, 'g) loaders =
  ld_world :: "('s, 'v) world"
  ld_group :: 'g
  ld_pc :: "thread \<Rightarrow> pc"

definition goto :: "thread \<Rightarrow> pc \<Rightarrow> ('s, 'v) world \<Rightarrow> ('s, 'v, 'g) loaders \<Rightarrow> ('s, 'v, 'g) loaders" where
  "goto t p w s = s\<lparr>ld_world := w, ld_pc := (ld_pc s)(t := p)\<rparr>"

text \<open>One step of thread \<open>t\<close>. \<open>LStart\<close> is the first cache lookup, \<open>LDo\<close> the call of \<^verbatim>\<open>Do\<close>, \<open>LAgain\<close> to
  \<open>LLeave\<close> the function the leader runs in it; an idle,
  waiting or finished thread has no step of its own.\<close>

definition load_step :: "('s, 'v) env \<Rightarrow> 'g flight_ops \<Rightarrow> thread \<Rightarrow> ('s, 'v, 'g) loaders \<Rightarrow> ('s, 'v, 'g) loaders" where
  "load_step env ops t s =
     (let w = ld_world s in
      case ld_pc s t of
        LStart k \<Rightarrow>
          (case mc_get k (w_cache w) of
             (Some m, c) \<Rightarrow> goto t (LDone k (Inr m)) (w\<lparr>w_cache := c\<rparr>) s
           | (None, c) \<Rightarrow> goto t (LDo k) (w\<lparr>w_cache := c\<rparr>) s)
      | LDo k \<Rightarrow>
          (case fl_enter ops k t (ld_group s) of
             (lead, g) \<Rightarrow> (goto t (if lead then LAgain k else LWait k) w s)\<lparr>ld_group := g\<rparr>)
      | LAgain k \<Rightarrow>
          (case mc_get k (w_cache w) of
             (Some m, c) \<Rightarrow> goto t (LLeave k (Inr m)) (w\<lparr>w_cache := c\<rparr>) s
           | (None, c) \<Rightarrow> goto t (LFetch k) (w\<lparr>w_cache := c\<rparr>) s)
      | LFetch k \<Rightarrow>
          (case e_Get env k (w_store w) of
             (Inl err, st) \<Rightarrow> goto t (LLeave k (Inl (StoreFailure err))) (w\<lparr>w_store := st\<rparr>) s
           | (Inr rc, st) \<Rightarrow> goto t (LParse k rc) (w\<lparr>w_store := st\<rparr>) s)
      | LParse k rc \<Rightarrow>
          (case ReadAll rc of
             Inl err \<Rightarrow> goto t (LLeave k (Inl (StoreFailure err))) w s
           | Inr data \<Rightarrow>
               (case Load (e_rng env) (e_decode env) data of
                  Inl err \<Rightarrow> goto t (LLeave k (Inl (LoadFailure err))) w s
                | Inr m \<Rightarrow> goto t (LAdd k m) w s))
      | LAdd k m \<Rightarrow> goto t (LLeave k (Inr m)) (w\<lparr>w_cache := mc_add k m (w_cache w)\<rparr>) s
      | LLeave k res \<Rightarrow>
          (case fl_leave ops k t (ld_group s) of
             (ws, g) \<Rightarrow> s\<lparr>ld_group := g, ld_pc := (\<lambda>u. if u = t \<or> u \<in> set ws then LDone k res else ld_pc s u)\<rparr>)
      | LWait k \<Rightarrow> s
      | LIdle \<Rightarrow> s
      | LDone k res \<Rightarrow> s)"

fun runnable :: "pc \<Rightarrow> bool" where
  "runnable LIdle = False"
| "runnable (LWait _) = False"
| "runnable (LDone _ _) = False"
| "runnable _ = True"

inductive loads_step :: "('s, 'v) env \<Rightarrow> 'g flight_ops \<Rightarrow> ('s, 'v, 'g) loaders \<Rightarrow> ('s, 'v, 'g) loaders \<Rightarrow> bool" for env ops where
  thread_step: "runnable (ld_pc s t) \<Longrightarrow> loads_step env ops s (load_step env ops t s)"

inductive_cases loads_stepE: "loads_step env ops s s'"

inductive loads_run :: "('s, 'v) env \<Rightarrow> 'g flight_ops \<Rightarrow> nat \<Rightarrow> ('s, 'v, 'g) loaders \<Rightarrow> ('s, 'v, 'g) loaders \<Rightarrow> bool" for env ops where
  none: "loads_run env ops 0 s s"
| more: "loads_run env ops n s s' \<Longrightarrow> loads_step env ops s' s'' \<Longrightarrow> loads_run env ops (Suc n) s s''"

subsection \<open>The group\<close>

definition flight_contract :: "'g flight_ops \<Rightarrow> ('g \<Rightarrow> bool) \<Rightarrow> ('g \<Rightarrow> string \<Rightarrow> thread option) \<Rightarrow> ('g \<Rightarrow> string \<Rightarrow> thread set) \<Rightarrow> bool" where
  "flight_contract ops ok leader waiting \<longleftrightarrow>
     (\<forall>g k t. ok g \<longrightarrow>
        (case fl_enter ops k t g of (lead, g') \<Rightarrow> ok g' \<and>
           (if leader g k = None then lead \<and> leader g' = (leader g)(k \<mapsto> t) \<and> waiting g' = waiting g
            else \<not> lead \<and> leader g' = leader g \<and> waiting g' = (waiting g)(k := insert t (waiting g k))))) \<and>
     (\<forall>g k t. ok g \<longrightarrow> leader g k = Some t \<longrightarrow>
        (case fl_leave ops k t g of (ws, g') \<Rightarrow> ok g' \<and> set ws = waiting g k \<and>
           leader g' = (leader g)(k := None) \<and> waiting g' = (waiting g)(k := {})))"

fun leading :: "pc \<Rightarrow> string option" where
  "leading (LAgain k) = Some k"
| "leading (LFetch k) = Some k"
| "leading (LParse k _) = Some k"
| "leading (LAdd k _) = Some k"
| "leading (LLeave k _) = Some k"
| "leading _ = None"

fun waiting_on :: "pc \<Rightarrow> string option" where
  "waiting_on (LWait k) = Some k"
| "waiting_on _ = None"

text \<open>The group and the program points agree: who leads a key, who waits on it, and that somebody waits
  only where somebody leads.\<close>

definition group_ok :: "('g \<Rightarrow> bool) \<Rightarrow> ('g \<Rightarrow> string \<Rightarrow> thread option) \<Rightarrow> ('g \<Rightarrow> string \<Rightarrow> thread set) \<Rightarrow>
   'g \<Rightarrow> (thread \<Rightarrow> pc) \<Rightarrow> bool" where
  "group_ok ok leader waiting g pc \<longleftrightarrow> ok g \<and>
     (\<forall>t k. leader g k = Some t \<longleftrightarrow> leading (pc t) = Some k) \<and>
     (\<forall>t k. t \<in> waiting g k \<longleftrightarrow> waiting_on (pc t) = Some k) \<and>
     (\<forall>k. leader g k = None \<longrightarrow> waiting g k = {})"

lemma group_okD:
  assumes "group_ok ok leader waiting g pc"
  shows "ok g" "leader g k = Some t \<longleftrightarrow> leading (pc t) = Some k" "t \<in> waiting g k \<longleftrightarrow> waiting_on (pc t) = Some k"
    "leader g k = None \<Longrightarrow> waiting g k = {}"
  using assms unfolding group_ok_def by blast+

text \<open>A step within the group's critical section, or outside it.\<close>

lemma group_ok_cong:
  assumes "group_ok ok leader waiting g pc" "\<And>u. leading (pc' u) = leading (pc u)" "\<And>u. waiting_on (pc' u) = waiting_on (pc u)"
  shows "group_ok ok leader waiting g pc'"
  using assms(1) unfolding group_ok_def assms(2,3) .

lemma group_ok_local:
  "group_ok ok leader waiting g pc \<Longrightarrow> leading p = leading (pc t) \<Longrightarrow> waiting_on p = waiting_on (pc t) \<Longrightarrow>
   group_ok ok leader waiting g (pc(t := p))"
  by (erule group_ok_cong) simp_all

lemma flight_enter:
  assumes "flight_contract ops ok leader waiting" "ok g" "fl_enter ops k t g = (lead, g')"
  shows "ok g' \<and> (if leader g k = None then lead \<and> leader g' = (leader g)(k \<mapsto> t) \<and> waiting g' = waiting g
            else \<not> lead \<and> leader g' = leader g \<and> waiting g' = (waiting g)(k := insert t (waiting g k)))"
  using assms(1) [unfolded flight_contract_def, THEN conjunct1, rule_format, OF assms(2), of k t] assms(3) by simp

lemma flight_leave:
  assumes "flight_contract ops ok leader waiting" "ok g" "leader g k = Some t" "fl_leave ops k t g = (ws, g')"
  shows "ok g' \<and> set ws = waiting g k \<and> leader g' = (leader g)(k := None) \<and> waiting g' = (waiting g)(k := {})"
  using assms(1) [unfolded flight_contract_def, THEN conjunct2, rule_format, OF assms(2,3)] assms(4) by simp

lemma waiting_onD: "waiting_on p = Some k \<longleftrightarrow> p = LWait k"
  by (cases p) auto

lemma group_ok_enter:
  assumes c: "flight_contract ops ok leader waiting" and g: "group_ok ok leader waiting g pc"
    and p: "pc t = LDo k" and e: "fl_enter ops k t g = (lead, g')"
  shows "group_ok ok leader waiting g' (pc(t := if lead then LAgain k else LWait k))"
proof -
  note gd = group_okD [OF g]
  note en = flight_enter [OF c gd(1) e]
  have l: "leader g q \<noteq> Some t" for q using gd(2) [of q t] p by simp
  have w: "t \<notin> waiting g q" for q using gd(3) [of t q] p by simp
  show ?thesis
  proof (cases "leader g k")
    case None
    then have "\<And>u. leading (pc u) \<noteq> Some k" using gd(2) [of k] by simp
    with None en l w gd(2,3,4) show ?thesis unfolding group_ok_def by simp
  next
    case (Some u)
    with en l w gd(2,3,4) show ?thesis unfolding group_ok_def by auto
  qed
qed

lemma group_ok_leave:
  assumes c: "flight_contract ops ok leader waiting" and g: "group_ok ok leader waiting g pc"
    and p: "pc t = LLeave k res" and e: "fl_leave ops k t g = (ws, g')"
  shows "group_ok ok leader waiting g' (\<lambda>u. if u = t \<or> u \<in> set ws then LDone k res else pc u)"
    "set ws = {u. pc u = LWait k}"
proof -
  note gd = group_okD [OF g]
  have l: "leader g k = Some t" using gd(2) [of k t] p by simp
  note lv = flight_leave [OF c gd(1) l e]
  show w: "set ws = {u. pc u = LWait k}" using lv gd(3) by (auto simp: waiting_onD)
  have lead: "leading (pc u) = Some q \<longleftrightarrow> leader g q = Some u" and wt: "waiting_on (pc u) = Some q \<longleftrightarrow> u \<in> waiting g q" for u q
    using gd(2,3) by simp_all
  have "leader g' q = Some u \<longleftrightarrow> leading (if u = t \<or> u \<in> set ws then LDone k res else pc u) = Some q" for u q
  proof (cases "u = t \<or> u \<in> set ws")
    case True
    then have "leader g q \<noteq> Some u \<or> q = k"
      using lead [of u q] p w by (cases "q = k") auto
    with True lv show ?thesis by auto
  next
    case False
    with lv l lead [of u q] show ?thesis by auto
  qed
  moreover have "u \<in> waiting g' q \<longleftrightarrow> waiting_on (if u = t \<or> u \<in> set ws then LDone k res else pc u) = Some q" for u q
  proof (cases "u = t \<or> u \<in> set ws")
    case True
    then have "u \<notin> waiting g q \<or> q = k"
      using wt [of u q] p w by (auto simp: waiting_onD)
    with True lv show ?thesis by auto
  next
    case False
    with lv wt [of u q] show ?thesis by auto
  qed
  moreover have "leader g' q = None \<longrightarrow> waiting g' q = {}" for q
    using lv gd(4) [of q] by simp
  ultimately show "group_ok ok leader waiting g' (\<lambda>u. if u = t \<or> u \<in> set ws then LDone k res else pc u)"
    unfolding group_ok_def using lv by blast
qed

subsection \<open>Every interleaving answers truthfully\<close>

text \<open>What one undisturbed load of \<open>k\<close> from a store gives.\<close>

definition parsed :: "('s, 'v) env \<Rightarrow> reader \<Rightarrow> lm_error + Manifest" where
  "parsed env rc =
     (case ReadAll rc of
        Inl err \<Rightarrow> Inl (StoreFailure err)
      | Inr data \<Rightarrow>
          (case Load (e_rng env) (e_decode env) data of
             Inl err \<Rightarrow> Inl (LoadFailure err)
           | Inr m \<Rightarrow> Inr m))"

definition fetched :: "('s, 'v) env \<Rightarrow> string \<Rightarrow> 's \<Rightarrow> lm_error + Manifest" where
  "fetched env k st =
     (case fst (e_Get env k st) of
        Inl err \<Rightarrow> Inl (StoreFailure err)
      | Inr rc \<Rightarrow> parsed env rc)"

text \<open>The step of each program point, once the operation it performs is known.\<close>

lemma load_steps:
  "ld_pc s t = LStart k \<Longrightarrow> mc_get k (w_cache (ld_world s)) = (hit, c) \<Longrightarrow> load_step env ops t s =
     goto t (case hit of Some m \<Rightarrow> LDone k (Inr m) | None \<Rightarrow> LDo k) ((ld_world s)\<lparr>w_cache := c\<rparr>) s"
  "ld_pc s t = LDo k \<Longrightarrow> fl_enter ops k t (ld_group s) = (lead, g') \<Longrightarrow> load_step env ops t s =
     (goto t (if lead then LAgain k else LWait k) (ld_world s) s)\<lparr>ld_group := g'\<rparr>"
  "ld_pc s t = LAgain k \<Longrightarrow> mc_get k (w_cache (ld_world s)) = (hit, c) \<Longrightarrow> load_step env ops t s =
     goto t (case hit of Some m \<Rightarrow> LLeave k (Inr m) | None \<Rightarrow> LFetch k) ((ld_world s)\<lparr>w_cache := c\<rparr>) s"
  "ld_pc s t = LFetch k \<Longrightarrow> e_Get env k (w_store (ld_world s)) = (res, st) \<Longrightarrow> load_step env ops t s =
     goto t (case res of Inl err \<Rightarrow> LLeave k (Inl (StoreFailure err)) | Inr rc \<Rightarrow> LParse k rc)
       ((ld_world s)\<lparr>w_store := st\<rparr>) s"
  "ld_pc s t = LParse k rc \<Longrightarrow> load_step env ops t s =
     goto t (case parsed env rc of Inl e \<Rightarrow> LLeave k (Inl e) | Inr m \<Rightarrow> LAdd k m) (ld_world s) s"
  "ld_pc s t = LAdd k m \<Longrightarrow> load_step env ops t s =
     goto t (LLeave k (Inr m)) ((ld_world s)\<lparr>w_cache := mc_add k m (w_cache (ld_world s))\<rparr>) s"
  "ld_pc s t = LLeave k r \<Longrightarrow> fl_leave ops k t (ld_group s) = (ws, g') \<Longrightarrow> load_step env ops t s =
     s\<lparr>ld_group := g', ld_pc := (\<lambda>u. if u = t \<or> u \<in> set ws then LDone k r else ld_pc s u)\<rparr>"
  by (simp_all add: load_step_def parsed_def Let_def split: option.split sum.split)

text \<open>A result is genuine when it is the manifest released under the key, or the error of a load of the
  key from a store with these objects.\<close>

definition genuine where
  "genuine env iv objs held k res \<longleftrightarrow>
     (case res of
        Inr m \<Rightarrow> released env held k = Some m
      | Inl e \<Rightarrow> \<exists>st. iv st \<and> objs st = held \<and> fetched env k st = Inl e)"

fun pc_ok where
  "pc_ok env iv objs held (LParse k rc) = (\<exists>st. iv st \<and> objs st = held \<and> fst (e_Get env k st) = Inr rc)"
| "pc_ok env iv objs held (LAdd k m) = (released env held k = Some m)"
| "pc_ok env iv objs held (LLeave k res) = genuine env iv objs held k res"
| "pc_ok env iv objs held (LDone k res) = genuine env iv objs held k res"
| "pc_ok env iv objs held _ = True"

definition loads_ok where
  "loads_ok env iv objs held s \<longleftrightarrow>
     world_ok iv objs env (ld_world s) \<and> objs (w_store (ld_world s)) = held \<and> (\<forall>t. pc_ok env iv objs held (ld_pc s t))"

lemma loads_okD:
  assumes "loads_ok env iv objs held s"
  shows "world_ok iv objs env (ld_world s)" "objs (w_store (ld_world s)) = held"
    "pc_ok env iv objs held (ld_pc s t)"
  using assms by (simp_all add: loads_ok_def)

lemma goto_simps [simp]:
  "ld_world (goto t p w s) = w" "ld_group (goto t p w s) = ld_group s" "ld_pc (goto t p w s) = (ld_pc s)(t := p)"
  by (simp_all add: goto_def)

lemma goto_ok:
  assumes "loads_ok env iv objs held s" "world_ok iv objs env w"
    "objs (w_store w) = held" "pc_ok env iv objs held p"
  shows "loads_ok env iv objs held (goto t p w s)"
  using assms by (simp add: loads_ok_def)

lemma cache_ok:
  assumes "world_ok iv objs env w" "mc_get k (w_cache w) = (hit, c)"
  shows "world_ok iv objs env (w\<lparr>w_cache := c\<rparr>)" "hit = mc_lookup (w_cache w) k" "mc_lookup c = mc_lookup (w_cache w)"
    "hit = Some m \<Longrightarrow> released env (objs (w_store w)) k = Some m"
  using assms mc.coherent_get [of "released env (objs (w_store w))" "w_cache w" k hit c]
    mc.coherent_hit [of "released env (objs (w_store w))" "w_cache w" k m c]
  by (auto simp: world_ok_coherent)

lemma cache_add_ok:
  assumes "world_ok iv objs env w" "released env (objs (w_store w)) k = Some m"
  shows "world_ok iv objs env (w\<lparr>w_cache := mc_add k m (w_cache w)\<rparr>)"
    "mc_lookup (mc_add k m (w_cache w)) k = Some m"
  using assms mc.coherent_add [of "released env (objs (w_store w))" "w_cache w" k m]
  by (auto simp: world_ok_coherent)

context object_store
begin

lemma load_step_ok:
  assumes g: "e_Get env = get" and i: "loads_ok env invar objs held s"
  shows "loads_ok env invar objs held (load_step env ops t s)"
proof -
  let ?w = "ld_world s"
  note id = loads_okD [OF i]
  have iv: "invar (w_store ?w)" using id(1) by (simp add: world_ok_def)
  show ?thesis
  proof (cases "ld_pc s t")
    case (LStart k)
    obtain hit c where mg: "mc_get k (w_cache ?w) = (hit, c)" by fastforce
    show ?thesis
      unfolding load_steps(1) [OF LStart mg]
      by (rule goto_ok [OF i]) (use LStart id(2) cache_ok [OF id(1) mg] in \<open>auto simp: genuine_def split: option.split\<close>)
  next
    case (LDo k)
    obtain lead g' where e: "fl_enter ops k t (ld_group s) = (lead, g')" by fastforce
    show ?thesis
      unfolding load_steps(2) [OF LDo e] using i by (simp add: loads_ok_def)
  next
    case (LAgain k)
    obtain hit c where mg: "mc_get k (w_cache ?w) = (hit, c)" by fastforce
    show ?thesis
      unfolding load_steps(3) [OF LAgain mg]
      by (rule goto_ok [OF i]) (use LAgain id(2) cache_ok [OF id(1) mg] in \<open>auto simp: genuine_def split: option.split\<close>)
  next
    case (LFetch k)
    obtain res st where ge: "get k (w_store ?w) = (res, st)" by fastforce
    note gs = get_step [OF iv ge]
    have e: "e_Get env k (w_store ?w) = (res, st)" using ge g by simp
    have "pc_ok env invar objs held (case res of Inl err \<Rightarrow> LLeave k (Inl (StoreFailure err)) | Inr rc \<Rightarrow> LParse k rc)"
      using iv id(2) e by (auto simp: genuine_def fetched_def intro!: exI [of _ "w_store ?w"] split: sum.split)
    then show ?thesis
      unfolding load_steps(4) [OF LFetch e]
      by (intro goto_ok [OF i]) (use LFetch id(1,2) gs in \<open>auto simp: world_ok_def split: sum.split\<close>)
  next
    case (LParse k rc)
    with id(3) [of t] obtain st where st: "invar st" "objs st = held" "fst (get k st) = Inr rc"
      using g by auto
    have "pc_ok env invar objs held (case parsed env rc of Inl e \<Rightarrow> LLeave k (Inl e) | Inr m \<Rightarrow> LAdd k m)"
    proof (cases "parsed env rc")
      case (Inl e)
      with st g show ?thesis by (auto simp: genuine_def fetched_def intro!: exI [of _ st])
    next
      case (Inr m)
      then obtain data where "ReadAll rc = Inr data" "Load (e_rng env) (e_decode env) data = Inr m"
        by (auto simp: parsed_def split: sum.splits)
      with read_all_sound [of st k rc "snd (get k st)" data] st Inr show ?thesis
        by (cases "get k st") (auto simp: released_def)
    qed
    then show ?thesis
      unfolding load_steps(5) [OF LParse]
      by (intro goto_ok [OF i]) (use LParse id(1,2) in \<open>auto split: sum.split\<close>)
  next
    case (LAdd k m)
    with id(3) [of t] id(2) have rel: "released env (objs (w_store ?w)) k = Some m" by simp
    show ?thesis
      unfolding load_steps(6) [OF LAdd]
      by (rule goto_ok [OF i]) (use LAdd rel id(2) cache_add_ok [OF id(1) rel] in \<open>auto simp: genuine_def\<close>)
  next
    case (LLeave k res)
    obtain ws g' where e: "fl_leave ops k t (ld_group s) = (ws, g')" by fastforce
    have "genuine env invar objs held k res" using id(3) [of t] LLeave by simp
    with i show ?thesis
      unfolding load_steps(7) [OF LLeave e] by (simp add: loads_ok_def)
  qed (use i in \<open>simp_all add: load_step_def Let_def\<close>)
qed

end

subsection \<open>The group follows the threads\<close>

fun pc_key :: "pc \<Rightarrow> string option" where
  "pc_key LIdle = None"
| "pc_key (LStart k) = Some k"
| "pc_key (LDo k) = Some k"
| "pc_key (LWait k) = Some k"
| "pc_key (LAgain k) = Some k"
| "pc_key (LFetch k) = Some k"
| "pc_key (LParse k _) = Some k"
| "pc_key (LAdd k _) = Some k"
| "pc_key (LLeave k _) = Some k"
| "pc_key (LDone k _) = Some k"

fun rank :: "pc \<Rightarrow> nat" where
  "rank (LStart _) = 8"
| "rank (LDo _) = 7"
| "rank (LAgain _) = 6"
| "rank (LFetch _) = 5"
| "rank (LParse _ _) = 4"
| "rank (LAdd _ _) = 3"
| "rank (LLeave _ _) = 2"
| "rank (LWait _) = 1"
| "rank LIdle = 0"
| "rank (LDone _ _) = 0"

abbreviation group_of where
  "group_of ok leader waiting s \<equiv> group_ok ok leader waiting (ld_group s) (ld_pc s)"

text \<open>Every step keeps the group, and takes its thread, and whomever it wakes, nearer to the end.\<close>

lemma load_step_group:
  assumes c: "flight_contract ops ok leader waiting" and g: "group_of ok leader waiting s"
    and r: "runnable (ld_pc s t)"
  shows "group_of ok leader waiting (load_step env ops t s)"
    "pc_key (ld_pc (load_step env ops t s) u) = pc_key (ld_pc s u)"
    "rank (ld_pc (load_step env ops t s) u) + (if u = t then 1 else 0) \<le> rank (ld_pc s u)"
proof -
  let ?s = "load_step env ops t s"
  let ?goal = "group_of ok leader waiting ?s \<and>
    (\<forall>u. pc_key (ld_pc ?s u) = pc_key (ld_pc s u) \<and> rank (ld_pc ?s u) + (if u = t then 1 else 0) \<le> rank (ld_pc s u))"
  have local: ?goal
    if "?s = goto t p w s" "leading p = leading (ld_pc s t)" "waiting_on p = waiting_on (ld_pc s t)"
      "pc_key p = pc_key (ld_pc s t)" "rank p < rank (ld_pc s t)" for p w
    using that group_ok_local [OF g] by simp
  have ?goal
  proof (cases "ld_pc s t")
    case (LStart k)
    obtain hit c where mg: "mc_get k (w_cache (ld_world s)) = (hit, c)" by fastforce
    show ?thesis
      by (rule local [OF load_steps(1) [OF LStart mg]]) (simp_all add: LStart split: option.split)
  next
    case (LDo k)
    obtain lead g' where e: "fl_enter ops k t (ld_group s) = (lead, g')" by fastforce
    show ?thesis
      unfolding load_steps(2) [OF LDo e] using group_ok_enter [OF c g LDo e] LDo by simp
  next
    case (LAgain k)
    obtain hit c where mg: "mc_get k (w_cache (ld_world s)) = (hit, c)" by fastforce
    show ?thesis
      by (rule local [OF load_steps(3) [OF LAgain mg]]) (simp_all add: LAgain split: option.split)
  next
    case (LFetch k)
    obtain res st where e: "e_Get env k (w_store (ld_world s)) = (res, st)" by fastforce
    show ?thesis
      by (rule local [OF load_steps(4) [OF LFetch e]]) (simp_all add: LFetch split: sum.split)
  next
    case (LParse k rc)
    show ?thesis
      by (rule local [OF load_steps(5) [OF LParse]]) (simp_all add: LParse split: sum.split)
  next
    case (LAdd k m)
    show ?thesis
      by (rule local [OF load_steps(6) [OF LAdd]]) (simp_all add: LAdd)
  next
    case (LLeave k res)
    obtain ws g' where e: "fl_leave ops k t (ld_group s) = (ws, g')" by fastforce
    note gl = group_ok_leave [OF c g LLeave e]
    show ?thesis
      unfolding load_steps(7) [OF LLeave e] using gl LLeave by simp
  qed (use r in simp_all)
  then show "group_of ok leader waiting ?s" "pc_key (ld_pc ?s u) = pc_key (ld_pc s u)"
    "rank (ld_pc ?s u) + (if u = t then 1 else 0) \<le> rank (ld_pc s u)" by blast+
qed

text \<open>A step leaves every thread that is neither stepping nor waiting where it was.\<close>

lemma load_step_others:
  assumes c: "flight_contract ops ok leader waiting" and g: "group_of ok leader waiting s"
    and r: "runnable (ld_pc s t)" and u: "u \<noteq> t"
  shows "ld_pc (load_step env ops t s) u = ld_pc s u \<or> waiting_on (ld_pc s u) \<noteq> None"
proof (cases "\<exists>k res. ld_pc s t = LLeave k res")
  case True
  then obtain k res where p: "ld_pc s t = LLeave k res" by blast
  obtain ws g' where e: "fl_leave ops k t (ld_group s) = (ws, g')" by fastforce
  show ?thesis
    unfolding load_steps(7) [OF p e] using group_ok_leave(2) [OF c g p e] u by simp
next
  case False
  with u r show ?thesis
    by (cases "ld_pc s t") (auto simp: load_step_def Let_def split: prod.split option.split sum.split)
qed

text \<open>Somebody can always go on: a waiting thread waits for a leader, and a leader is runnable.\<close>

lemma group_ok_progress:
  assumes g: "group_ok ok leader waiting g pc" and r: "\<And>t. \<not> runnable (pc t)" and k: "pc_key (pc t) = Some k"
  shows "\<exists>res. pc t = LDone k res"
proof (cases "pc t")
  case (LWait q)
  then have "t \<in> waiting g q" using group_okD(3) [OF g] by simp
  then obtain u where "leader g q = Some u" using group_okD(4) [OF g, of q] by fastforce
  then have "leading (pc u) = Some q" using group_okD(2) [OF g] by simp
  then have "runnable (pc u)" by (cases "pc u") simp_all
  with r show ?thesis by blast
qed (use r [of t] k in simp_all)

definition loads_start where
  "loads_start ok leader waiting s \<longleftrightarrow>
     ok (ld_group s) \<and> leader (ld_group s) = Map.empty \<and> waiting (ld_group s) = (\<lambda>_. {}) \<and>
     (\<forall>t. ld_pc s t = LIdle \<or> (\<exists>k. ld_pc s t = LStart k))"

lemma loads_start_group: "loads_start ok leader waiting s \<Longrightarrow> group_of ok leader waiting s"
  unfolding loads_start_def group_ok_def by (metis empty_iff leading.simps(6,7) option.distinct(1) waiting_on.simps(2,3))

lemma runnable_key: "runnable p \<Longrightarrow> pc_key p \<noteq> None"
  by (cases p) simp_all

lemma run_group:
  assumes "loads_run env ops n s0 s" "flight_contract ops ok leader waiting" "group_of ok leader waiting s0"
  shows "group_of ok leader waiting s \<and> (\<forall>u. pc_key (ld_pc s u) = pc_key (ld_pc s0 u)) \<and>
    (finite A \<longrightarrow> {t. ld_pc s0 t \<noteq> LIdle} \<subseteq> A \<longrightarrow> n + (\<Sum>t\<in>A. rank (ld_pc s t)) \<le> (\<Sum>t\<in>A. rank (ld_pc s0 t)))"
  using assms(1,3)
proof (induction rule: loads_run.induct)
  case (more n s s' s'')
  note IH = more.IH [OF more.prems]
  from more.hyps(2) obtain t where t: "runnable (ld_pc s' t)" "s'' = load_step env ops t s'"
    by (auto elim: loads_stepE)
  note st = load_step_group [OF assms(2) conjunct1 [OF IH] t(1), of env, folded t(2)]
  have "Suc (\<Sum>t\<in>A. rank (ld_pc s'' t)) \<le> (\<Sum>t\<in>A. rank (ld_pc s' t))"
    if A: "finite A" "{t. ld_pc s t \<noteq> LIdle} \<subseteq> A"
  proof -
    have "pc_key (ld_pc s t) \<noteq> None"
      using runnable_key [OF t(1)] conjunct1 [OF conjunct2 [OF IH]] by simp
    with A have "t \<in> A" by (cases "ld_pc s t") auto
    from sum_drop [OF st(3) A(1) this] show ?thesis .
  qed
  with IH st(1,2) show ?case by (auto intro: order_trans)
qed simp

text \<open>No manifest load waits for ever: however the loads of any finite set of requests
  interleave, they make at most eight steps each, and when no thread can go on every request that
  started has its result, for its own key.\<close>

theorem coalesced_loads_finish:
  assumes "flight_contract ops ok leader waiting" "loads_start ok leader waiting s0"
    and "finite {t. ld_pc s0 t \<noteq> LIdle}" and "loads_run env ops n s0 s"
  shows "n \<le> 8 * card {t. ld_pc s0 t \<noteq> LIdle} \<and>
    ((\<forall>t. \<not> runnable (ld_pc s t)) \<longrightarrow> (\<forall>t k. ld_pc s0 t = LStart k \<longrightarrow> (\<exists>res. ld_pc s t = LDone k res)))"
proof -
  let ?A = "{t. ld_pc s0 t \<noteq> LIdle}"
  note rg = run_group [OF assms(4,1) loads_start_group [OF assms(2)], of ?A]
  have "rank (ld_pc s0 t) \<le> 8" for t by (cases "ld_pc s0 t") simp_all
  then have "(\<Sum>t\<in>?A. rank (ld_pc s0 t)) \<le> card ?A * 8"
    using sum_bounded_above [of ?A "\<lambda>t. rank (ld_pc s0 t)" 8] by simp
  with rg assms(3) have "n \<le> 8 * card ?A" by simp
  moreover have "\<exists>res. ld_pc s t = LDone k res" if "\<forall>t. \<not> runnable (ld_pc s t)" "ld_pc s0 t = LStart k" for t k
    using rg that by (intro group_ok_progress) auto
  ultimately show ?thesis by blast
qed

subsection \<open>Coherence and the single read\<close>

context object_store
begin

lemma run_loads_ok:
  assumes "loads_run env ops n s0 s" "e_Get env = get" "loads_ok env invar objs held s0"
  shows "loads_ok env invar objs held s"
  using assms(1,3)
proof (induction rule: loads_run.induct)
  case (more n s s' s'')
  from more.hyps(2) obtain t where "s'' = load_step env ops t s'"
    by (auto elim: loads_stepE)
  with load_step_ok [OF assms(2) more.IH [OF more.prems]] show ?case by simp
qed

lemma fetched_not_found:
  assumes g: "e_Get env = get" and st: "invar st" "fetched env k st = Inl e" "is_not_found e"
  shows "objs st k = None"
proof (cases "fst (get k st)")
  case (Inl err)
  with g st get_absent [of st k err] show ?thesis by (auto simp: fetched_def)
next
  case (Inr rc)
  with get_sound [OF st(1), of k rc] obtain d where "delivers rc d" by blast
  with Inr g st show ?thesis
    by (auto simp: fetched_def parsed_def ReadAll_def delivers_def split: sum.splits option.splits)
qed

lemma genuine_truthful:
  assumes "e_Get env = get" "genuine env invar objs held k res"
  shows "res = Inr m \<Longrightarrow> released env held k = Some m"
    "res = Inl e \<Longrightarrow> is_not_found e \<Longrightarrow> held k = None"
  using assms fetched_not_found [OF assms(1)] by (auto simp: genuine_def)

end

lemma loads_start_ok:
  assumes "loads_start ok leader waiting s" "world_ok iv objs env (ld_world s)"
  shows "loads_ok env iv objs (objs (w_store (ld_world s))) s"
proof -
  have "pc_ok env iv objs held (ld_pc s t)" for held t
  proof -
    from assms(1) have "ld_pc s t = LIdle \<or> (\<exists>k. ld_pc s t = LStart k)"
      by (simp add: loads_start_def)
    then show ?thesis by auto
  qed
  with assms(2) show ?thesis by (simp add: loads_ok_def)
qed

text \<open>C5: safety. Coalescing never serves stale or foreign content: however loads of any keys
  interleave over a store that keeps its contract, a load of a key that returns a manifest returns the
  one released under that key, and one that reports the release missing is right; the manifest cache
  stays within its bounds and holds released manifests only.\<close>

theorem coalesced_loads_coherent:
  assumes "object_store iv objs (e_Get env)" "flight_contract ops ok leader waiting"
    and "loads_start ok leader waiting s0" "world_ok iv objs env (ld_world s0)"
    and "loads_run env ops n s0 s" "ld_pc s0 t = LStart k"
  shows "(\<forall>q res. ld_pc s t = LDone q res \<longrightarrow> q = k \<and>
      (\<forall>m. res = Inr m \<longrightarrow> released env (objs (w_store (ld_world s0))) k = Some m) \<and>
      (\<forall>e. res = Inl e \<longrightarrow> is_not_found e \<longrightarrow> objs (w_store (ld_world s0)) k = None)) \<and>
    world_ok iv objs env (ld_world s)"
proof -
  note ok = object_store.run_loads_ok [OF assms(1,5) refl loads_start_ok [OF assms(3,4)]]
  have "pc_key (ld_pc s t) = Some k"
    using run_group [OF assms(5,2) loads_start_group [OF assms(3)]] assms(6) by simp
  moreover have "genuine env iv objs (objs (w_store (ld_world s0))) q res" if "ld_pc s t = LDone q res" for q res
    using loads_okD(3) [OF ok, of t] that by simp
  ultimately show ?thesis
    using loads_okD(1) [OF ok] object_store.genuine_truthful [OF assms(1) refl] by auto
qed

context reliable_store
begin

lemma genuine_complete:
  assumes "e_Get env = get" "genuine env invar objs held k res" "released env held k = Some m"
  shows "res = Inr m"
proof (cases res)
  case (Inl e)
  with assms(2) obtain st where st: "invar st" "objs st = held" "fetched env k st = Inl e"
    by (auto simp: genuine_def)
  obtain d where "held k = Some d" using assms(3) by (auto simp: released_def split: option.splits)
  with st get_value [OF st(1), of k d] assms(1,3) show ?thesis
    by (auto simp: fetched_def parsed_def bytesReader_def ReadAll_def released_def split: sum.splits)
qed (use assms in \<open>simp add: genuine_def\<close>)

lemma pc_ok_parse:
  assumes "e_Get env = get" "pc_ok env invar objs held (LParse k rc)" "released env held k = Some m"
  shows "parsed env rc = Inr m"
proof -
  from assms(1,2) obtain st where st: "invar st" "objs st = held" "fst (get k st) = Inr rc" by auto
  have "genuine env invar objs held k (parsed env rc)"
  proof (cases "parsed env rc")
    case (Inl e)
    with st assms(1) show ?thesis by (auto simp: genuine_def fetched_def intro!: exI [of _ st])
  next
    case (Inr m')
    then obtain data where "ReadAll rc = Inr data" "Load (e_rng env) (e_decode env) data = Inr m'"
      by (auto simp: parsed_def split: sum.splits)
    with read_all_sound [of st k rc "snd (get k st)" data] st Inr show ?thesis
      by (cases "get k st") (auto simp: genuine_def released_def)
  qed
  from genuine_complete [OF assms(1) this assms(3)] show ?thesis .
qed

lemma logged_reliable: "reliable_store (\<lambda>s. invar (fst s)) (\<lambda>s. objs (fst s)) (logged get)"
proof
  fix s :: "'s \<times> string list" and k r e d
  assume iv: "invar (fst s)"
  obtain res st where g: "get k (fst s) = (res, st)" by fastforce
  then have l: "logged get k s = (res, (st, snd s @ [k]))" by (simp add: logged_def)
  note gs = get_step [OF iv g]
  show "invar (fst (snd (logged get k s)))" "objs (fst (snd (logged get k s))) = objs (fst s)"
    using gs l by simp_all
  show "fst (logged get k s) = Inr r \<Longrightarrow> \<exists>d. objs (fst s) k = Some d \<and> delivers r d"
    using get_sound [OF iv, of k r] g l by simp
  show "fst (logged get k s) = Inl e \<Longrightarrow> is_NotExist e \<Longrightarrow> objs (fst s) k = None"
    using get_absent [OF iv, of k e] g l by simp
  show "objs (fst s) k = Some d \<Longrightarrow>
      \<exists>r. fst (logged get k s) = Inr r \<and> rd_data r = d \<and> rd_err r = None \<and> rd_size r = Some (int (length d))"
    using get_present [OF iv, of k d] g l by simp
  show "objs (fst s) k = None \<Longrightarrow> \<exists>e. fst (logged get k s) = Inl e \<and> is_NotExist e"
    using get_missing [OF iv, of k] g l by simp
qed

end

text \<open>Reads of \<open>k\<close> so far, when everyone loads \<open>k\<close>: none yet, or one whose manifest is cached or on its way
  into the cache.\<close>

fun carries :: "pc \<Rightarrow> bool" where
  "carries (LParse _ _) = True"
| "carries (LAdd _ _) = True"
| "carries _ = False"

definition reads_of :: "string \<Rightarrow> ('s \<times> string list, 'v, 'g) loaders \<Rightarrow> nat" where
  "reads_of k s = count_list (log_of (ld_world s)) k"

definition one_read where
  "one_read k b s \<longleftrightarrow>
     reads_of k s = b \<or>
     reads_of k s = Suc b \<and> (\<forall>t. ld_pc s t \<noteq> LFetch k) \<and>
       (mc_lookup (w_cache (ld_world s)) k \<noteq> None \<or> (\<exists>t. carries (ld_pc s t)))"

lemma carries_leads: "carries p \<Longrightarrow> pc_key p = Some k \<Longrightarrow> leading p = Some k"
  by (cases p) simp_all

lemma one_leader:
  assumes "group_ok ok leader waiting g pc" "leading (pc t) = Some k" "leading (pc u) = Some k"
  shows "t = u"
  using group_okD(2) [OF assms(1), of k t] group_okD(2) [OF assms(1), of k u] assms(2,3) by simp

lemma one_read_goto:
  assumes "one_read k b s" "log_of w = log_of (ld_world s)" "mc_lookup (w_cache w) = mc_lookup (w_cache (ld_world s))"
    "p \<noteq> LFetch k" "\<not> carries (ld_pc s t) \<or> carries p"
  shows "one_read k b (goto t p w s)"
  using assms unfolding one_read_def reads_of_def by (auto 4 3 split: if_splits)

lemma one_read_step:
  assumes rs: "reliable_store iv objs (e_Get env)" and g: "e_Get env = logged get" and c: "flight_contract ops ok leader waiting"
    and grp: "group_of ok leader waiting s" and i: "loads_ok env iv objs held s"
    and k: "\<And>u. pc_key (ld_pc s u) \<in> {None, Some k}" and rel: "released env held k = Some m"
    and o: "one_read k b s" and r: "runnable (ld_pc s t)"
  shows "one_read k b (load_step env ops t s)"
proof -
  let ?w = "ld_world s"
  note id = loads_okD [OF i]
  have key: "pc_key (ld_pc s t) = Some k"
    using k [of t] runnable_key [OF r] by simp
  show ?thesis
  proof (cases "ld_pc s t")
    case (LStart q)
    obtain hit c where mg: "mc_get q (w_cache ?w) = (hit, c)" by fastforce
    show ?thesis
      unfolding load_steps(1) [OF LStart mg]
      by (rule one_read_goto [OF o]) (use LStart cache_ok(3) [OF id(1) mg] in \<open>auto simp: log_of_def split: option.split\<close>)
  next
    case (LDo q)
    obtain lead g' where e: "fl_enter ops q t (ld_group s) = (lead, g')" by fastforce
    have "one_read k b (goto t (if lead then LAgain q else LWait q) ?w s)"
      by (rule one_read_goto [OF o]) (simp_all add: LDo)
    then show ?thesis
      unfolding load_steps(2) [OF LDo e] by (simp add: one_read_def reads_of_def)
  next
    case (LAgain q)
    then have q: "q = k" using key by simp
    obtain hit c where mg: "mc_get q (w_cache ?w) = (hit, c)" by fastforce
    note ck = cache_ok [OF id(1) mg]
    show ?thesis
    proof (cases hit)
      case (Some m')
      show ?thesis
        unfolding load_steps(3) [OF LAgain mg]
        by (rule one_read_goto [OF o]) (use LAgain Some ck(3) in \<open>auto simp: log_of_def\<close>)
    next
      case None
      have "reads_of k s = b"
      proof (rule ccontr)
        assume "reads_of k s \<noteq> b"
        with o None ck(2) q obtain u where u: "carries (ld_pc s u)" by (auto simp: one_read_def)
        have "pc_key (ld_pc s u) = Some k" using k [of u] u by (cases "ld_pc s u") auto
        from one_leader [OF grp _ carries_leads [OF u this], of t] LAgain q have "t = u" by simp
        with u LAgain show False by simp
      qed
      then show ?thesis
        unfolding load_steps(3) [OF LAgain mg] by (simp add: one_read_def reads_of_def log_of_def)
    qed
  next
    case (LFetch q)
    then have q: "q = k" using key by simp
    obtain res st where e: "e_Get env k (w_store ?w) = (res, st)" by (meson surj_pair)
    have iv: "iv (w_store ?w)" using id(1) by (simp add: world_ok_def)
    obtain d where d: "held k = Some d" using rel by (auto simp: released_def split: option.splits)
    then have res: "res = Inr (bytesReader d)"
      using reliable_store.get_value [OF rs iv, of k d] id(2) e by simp
    have "ld_pc s u \<noteq> LFetch k" if "u \<noteq> t" for u
      using one_leader [OF grp, of t k u] that LFetch q by auto
    moreover have "reads_of k s = b" using o LFetch q by (auto simp: one_read_def)
    moreover have "snd st = snd (w_store ?w) @ [k]"
      using e g logged_log [of get k "w_store ?w"] by simp
    ultimately show ?thesis
      using res unfolding load_steps(4) [OF LFetch [unfolded q] e]
      by (auto simp: one_read_def reads_of_def log_of_def)
  next
    case (LParse q rc)
    then have q: "q = k" using key by simp
    have "parsed env rc = Inr m"
      using reliable_store.pc_ok_parse [OF rs refl _ rel] id(3) [of t] LParse q by auto
    then show ?thesis
      unfolding load_steps(5) [OF LParse] by (intro one_read_goto [OF o]) simp_all
  next
    case (LAdd q m')
    then have q: "q = k" using key by simp
    have rel': "released env (objs (w_store ?w)) k = Some m'"
      using id(3) [of t] id(2) LAdd q by simp
    have "ld_pc s u \<noteq> LFetch k" for u
      using one_leader [OF grp, of t k u] LAdd q by (cases "u = t") auto
    with o cache_add_ok(2) [OF id(1) rel'] show ?thesis
      unfolding load_steps(6) [OF LAdd] q by (auto simp: one_read_def reads_of_def log_of_def)
  next
    case (LLeave q res)
    obtain ws g' where e: "fl_leave ops q t (ld_group s) = (ws, g')" by fastforce
    have w: "set ws = {u. ld_pc s u = LWait q}" by (rule group_ok_leave(2) [OF c grp LLeave e])
    have "carries (if u = t \<or> u \<in> set ws then LDone q res else ld_pc s u) = carries (ld_pc s u)" for u
      using w LLeave by auto
    with o show ?thesis
      unfolding load_steps(7) [OF LLeave e] by (auto simp: one_read_def reads_of_def)
  qed (use r in simp_all)
qed

lemma run_one_read:
  assumes run: "loads_run env ops n s0 s" and rs: "reliable_store iv objs (e_Get env)" and g: "e_Get env = logged get"
    and c: "flight_contract ops ok leader waiting" and grp: "group_of ok leader waiting s0"
    and i: "loads_ok env iv objs held s0" and k: "\<And>u. pc_key (ld_pc s0 u) \<in> {None, Some k}"
    and rel: "released env held k = Some m"
  shows "one_read k (reads_of k s0) s"
  using run grp i k
proof (induction rule: loads_run.induct)
  case (more n s0 s s')
  note os = reliable_store.axioms(1) [OF rs]
  note IH = more.IH [OF more.prems]
  note rg = run_group [OF more.hyps(1) c more.prems(1)]
  have "pc_key (ld_pc s u) \<in> {None, Some k}" for u
    using rg more.prems(3) [of u] by simp
  moreover from more.hyps(2) obtain t where "runnable (ld_pc s t)" "s' = load_step env ops t s"
    by (auto elim: loads_stepE)
  ultimately show ?case
    using one_read_step [OF rs g c conjunct1 [OF rg] object_store.run_loads_ok [OF os more.hyps(1) refl more.prems(2)] _ rel IH] by blast
qed (simp add: one_read_def)

text \<open>C4: bounds. A burst of requests for one freshly published release, over a reliable store: however
  they interleave, the store is asked for the manifest at most once, and every request that finishes has
  exactly that release.\<close>

theorem burst_reads_once:
  assumes "reliable_store iv objs get" "e_Get env = logged get"
    and "flight_contract ops ok leader waiting" "loads_start ok leader waiting s0"
    and "world_ok (\<lambda>st. iv (fst st)) (\<lambda>st. objs (fst st)) env (ld_world s0)"
    and "\<And>t. ld_pc s0 t \<in> {LIdle, LStart k}"
    and "released env (objs (fst (w_store (ld_world s0)))) k = Some m"
    and "loads_run env ops n s0 s"
  shows "count_list (log_of (ld_world s)) k \<le> Suc (count_list (log_of (ld_world s0)) k) \<and>
    (\<forall>t q res. ld_pc s t = LDone q res \<longrightarrow> q = k \<and> res = Inr m)"
proof -
  note rs = reliable_store.logged_reliable [OF assms(1), folded assms(2)]
  note os = reliable_store.axioms(1) [OF rs]
  note grp = loads_start_group [OF assms(4)] and start = loads_start_ok [OF assms(4,5)]
  have keys: "pc_key (ld_pc s0 u) \<in> {None, Some k}" for u
    using assms(6) [of u] by auto
  have "one_read k (reads_of k s0) s"
    by (rule run_one_read [OF assms(8) rs assms(2,3) grp start keys assms(7)])
  moreover have "q = k \<and> res = Inr m" if "ld_pc s t = LDone q res" for t q res
  proof -
    have "pc_key (ld_pc s t) = pc_key (ld_pc s0 t)"
      using run_group [OF assms(8,3) grp] by blast
    with that keys [of t] have q: "q = k" by auto
    have "loads_ok env (\<lambda>st. iv (fst st)) (\<lambda>st. objs (fst st)) (objs (fst (w_store (ld_world s0)))) s"
      by (rule object_store.run_loads_ok [OF os assms(8) refl start])
    from loads_okD(3) [OF this, of t] that q reliable_store.genuine_complete [OF rs refl _ assms(7), of res]
    show ?thesis by simp
  qed
  ultimately show ?thesis by (auto simp: one_read_def reads_of_def)
qed

subsection \<open>A caller alone\<close>

lemma load_step_done: "ld_pc s t = LDone k res \<Longrightarrow> (load_step env ops t ^^ n) s = s"
proof (induction n)
  case (Suc n)
  then show ?case by (simp add: load_step_def Let_def)
qed simp

text \<open>The steps of the function handed to \<^verbatim>\<open>Do\<close>, from entering it to its result.\<close>

lemma leader_runs_loadOnce:
  assumes "ld_pc s t = LAgain k" "loadOnce env k (ld_world s) = (res, w)"
  shows "\<exists>i \<le> 4. (load_step env ops t ^^ i) s = goto t (LLeave k res) w s"
proof -
  obtain hit c where mg: "mc_get k (w_cache (ld_world s)) = (hit, c)" by fastforce
  note st1 = load_steps(3) [OF assms(1) mg, of env ops]
  let ?w = "(ld_world s)\<lparr>w_cache := c\<rparr>"
  show ?thesis
  proof (cases hit)
    case (Some m)
    with mg assms(2) st1 show ?thesis
      by (intro exI [of _ 1]) (simp add: loadOnce_def)
  next
    case None
    obtain r st where g: "e_Get env k (w_store ?w) = (r, st)" by (meson surj_pair)
    let ?s1 = "goto t (LFetch k) ?w s"
    have st2: "load_step env ops t ?s1 = goto t (case r of Inl err \<Rightarrow> LLeave k (Inl (StoreFailure err)) | Inr rc \<Rightarrow> LParse k rc)
        (?w\<lparr>w_store := st\<rparr>) s"
      using load_steps(4) [of ?s1 t k env r st ops] g by (simp add: goto_def)
    show ?thesis
    proof (cases r)
      case (Inl err)
      with None mg g assms(2) st1 st2 show ?thesis
        by (intro exI [of _ 2]) (simp add: loadOnce_def eval_nat_numeral)
    next
      case (Inr rc)
      let ?s2 = "goto t (LParse k rc) (?w\<lparr>w_store := st\<rparr>) s"
      have st3: "load_step env ops t ?s2 = goto t (case parsed env rc of Inl e \<Rightarrow> LLeave k (Inl e) | Inr m \<Rightarrow> LAdd k m)
          (?w\<lparr>w_store := st\<rparr>) s"
        using load_steps(5) [of ?s2 t k rc env ops] by (simp add: goto_def)
      show ?thesis
      proof (cases "parsed env rc")
        case (Inl e)
        then have "loadOnce env k (ld_world s) = (Inl e, ?w\<lparr>w_store := st\<rparr>)"
          using None mg g Inr by (auto simp: loadOnce_def parsed_def split: sum.splits)
        with assms(2) have "res = Inl e" "w = ?w\<lparr>w_store := st\<rparr>" by simp_all
        with None Inr Inl st1 st2 st3 show ?thesis
          by (intro exI [of _ 3]) (simp add: eval_nat_numeral)
      next
        case parse: (Inr m)
        then have "loadOnce env k (ld_world s) = (Inr m, ?w\<lparr>w_store := st, w_cache := mc_add k m c\<rparr>)"
          using None mg g Inr by (auto simp: loadOnce_def parsed_def split: sum.splits)
        moreover have "load_step env ops t (goto t (LAdd k m) (?w\<lparr>w_store := st\<rparr>) s) =
            goto t (LLeave k (Inr m)) (?w\<lparr>w_store := st, w_cache := mc_add k m c\<rparr>) s"
          using load_steps(6) [of "goto t (LAdd k m) (?w\<lparr>w_store := st\<rparr>) s" t k m env ops] by (simp add: goto_def)
        ultimately show ?thesis
          using None Inr parse assms(2) st1 st2 st3 by (intro exI [of _ 4]) (simp add: eval_nat_numeral)
      qed
    qed
  qed
qed

text \<open>A request that meets no concurrent load of its key does, step by step, what
  \<^verbatim>\<open>loadManifest\<close> does in one go: the same result, the same cache and store, and the group is free again.\<close>

theorem lone_load_is_loadManifest:
  assumes d: "do_runs env" and c: "flight_contract ops ok leader waiting"
    and g: "ok (ld_group s)" "leader (ld_group s) k = None" "waiting (ld_group s) k = {}"
    and k: "k = site_key site" "ld_pc s t = LStart k"
  shows "\<exists>i \<le> 7. case loadManifest env site (ld_world s) of (res, w) \<Rightarrow>
    (let s' = (load_step env ops t ^^ i) s in
       ld_world s' = w \<and> ld_pc s' = (ld_pc s)(t := LDone k res) \<and> leader (ld_group s') = leader (ld_group s))"
proof -
  obtain hit c where mg: "mc_get k (w_cache (ld_world s)) = (hit, c)" by fastforce
  note st1 = load_steps(1) [OF k(2) mg, of env ops]
  let ?w = "(ld_world s)\<lparr>w_cache := c\<rparr>"
  show ?thesis
  proof (cases hit)
    case (Some m)
    then have "loadManifest env site (ld_world s) = (Inr m, ?w)"
      using mg by (simp add: loadManifest_def k(1) site_key_def)
    with Some st1 show ?thesis
      by (intro exI [of _ 1]) simp
  next
    case None
    obtain res w where lo: "loadOnce env k ?w = (res, w)" by fastforce
    then have lm: "loadManifest env site (ld_world s) = (res, w)"
      using mg None d by (simp add: loadManifest_def k(1) site_key_def do_runs_def)
    let ?s1 = "goto t (LDo k) ?w s"
    obtain lead g' where e: "fl_enter ops k t (ld_group s) = (lead, g')" by fastforce
    note en = flight_enter [OF c g(1) e]
    let ?s2 = "(goto t (LAgain k) ?w s)\<lparr>ld_group := g'\<rparr>"
    have st2: "load_step env ops t ?s1 = ?s2"
      using load_steps(2) [of ?s1 t k ops lead g' env] e en g(2) by (simp add: goto_def)
    obtain i where i: "i \<le> 4" "(load_step env ops t ^^ i) ?s2 = goto t (LLeave k res) w ?s2"
      using leader_runs_loadOnce [of ?s2 t k env res w ops] lo by auto
    let ?s3 = "goto t (LLeave k res) w ?s2"
    have l: "leader g' k = Some t" "ok g'" using en g(2) by simp_all
    obtain ws g'' where lv: "fl_leave ops k t g' = (ws, g'')" by fastforce
    note le = flight_leave [OF c l(2,1) lv]
    have ws: "set ws = {}" using le en g(2,3) by simp
    then have st4: "load_step env ops t ?s3 = (goto t (LDone k res) w s)\<lparr>ld_group := g''\<rparr>"
      using load_steps(7) [of ?s3 t k res ops ws g'' env] lv unfolding ws by (simp add: goto_def fun_upd_def cong: if_cong)
    have "(load_step env ops t ^^ (Suc i + 2)) s = (goto t (LDone k res) w s)\<lparr>ld_group := g''\<rparr>"
    proof -
      have "(load_step env ops t ^^ (Suc i + 2)) s = load_step env ops t ((load_step env ops t ^^ i) (load_step env ops t (load_step env ops t s)))"
        by (simp add: funpow_swap1)
      then show ?thesis using st1 st2 i(2) st4 None by simp
    qed
    moreover have "leader g'' = leader (ld_group s)" using le en g(2) by auto
    ultimately show ?thesis
      using i(1) lm by (intro exI [of _ "Suc i + 2"]) (simp add: goto_def)
  qed
qed

subsection \<open>Two concurrent requests\<close>

fun run_schedule :: "('s, 'v) env \<Rightarrow> 'g flight_ops \<Rightarrow> thread list \<Rightarrow> ('s, 'v, 'g) loaders \<Rightarrow> ('s, 'v, 'g) loaders option" where
  "run_schedule env ops [] s = Some s"
| "run_schedule env ops (t # ts) s =
     (if runnable (ld_pc s t) then run_schedule env ops ts (load_step env ops t s) else None)"

lemma loads_run_first:
  "loads_run env ops n s' s'' \<Longrightarrow> loads_step env ops s s' \<Longrightarrow> loads_run env ops (Suc n) s s''"
  by (induction rule: loads_run.induct) (auto intro: loads_run.intros)

lemma run_schedule_run: "run_schedule env ops ts s = Some s' \<Longrightarrow> loads_run env ops (length ts) s s'"
  by (induction ts arbitrary: s) (auto intro: loads_run.none loads_run_first thread_step split: if_splits)

text \<open>A group as a map from the keys in flight to the leader and those who wait for it.\<close>

definition map_flight :: "(string \<rightharpoonup> thread \<times> thread list) flight_ops" where
  "map_flight =
     \<lparr>fl_enter = (\<lambda>k t g. case g k of
        None \<Rightarrow> (True, g(k \<mapsto> (t, [])))
      | Some (l, ws) \<Rightarrow> (False, g(k \<mapsto> (l, t # ws)))),
      fl_leave = (\<lambda>k t g. case g k of
        None \<Rightarrow> ([], g)
      | Some (l, ws) \<Rightarrow> (ws, g(k := None)))\<rparr>"

definition map_leader :: "(string \<rightharpoonup> thread \<times> thread list) \<Rightarrow> string \<rightharpoonup> thread" where
  "map_leader g k = map_option fst (g k)"

definition map_waiting :: "(string \<rightharpoonup> thread \<times> thread list) \<Rightarrow> string \<Rightarrow> thread set" where
  "map_waiting g k = (case g k of None \<Rightarrow> {} | Some (l, ws) \<Rightarrow> set ws)"

lemma map_flight_contract: "flight_contract map_flight (\<lambda>_. True) map_leader map_waiting"
  unfolding flight_contract_def map_flight_def
  by (auto simp: map_leader_def map_waiting_def fun_eq_iff split: option.splits prod.splits)

definition demo_key :: string where
  "demo_key = ''sites/acme/docs/releases/r1''"

definition demo_loads :: "(Fake \<times> string list, siteKey \<rightharpoonup> int, string \<rightharpoonup> thread \<times> thread list) loaders" where
  "demo_loads = \<lparr>ld_world = demo_logged_world, ld_group = Map.empty,
     ld_pc = (\<lambda>t. if t = 0 \<or> t = 1 then LStart demo_key else LIdle)\<rparr>"

text \<open>Both miss; the first leads, the second waits and is woken with the leader's result.\<close>

definition demo_end where
  "demo_end = the (run_schedule demo_logged_env map_flight [0, 1, 0, 1, 0, 0, 0, 0, 0] demo_loads)"

lemma demo_ends:
  "\<not> Option.is_none (run_schedule demo_logged_env map_flight [0, 1, 0, 1, 0, 0, 0, 0, 0] demo_loads) \<and>
   (case ld_pc demo_end 1 of LDone q (Inr m) \<Rightarrow> q = demo_key \<and> SPA m = False | _ \<Rightarrow> False) \<and>
   log_of (ld_world demo_end) = [demo_key]"
  by code_simp

lemma demo_run: "loads_run demo_logged_env map_flight 9 demo_loads demo_end"
proof -
  have "run_schedule demo_logged_env map_flight [0, 1, 0, 1, 0, 0, 0, 0, 0] demo_loads = Some demo_end"
    using demo_ends by (auto simp: demo_end_def Option.is_none_def)
  from run_schedule_run [OF this] show ?thesis by (simp add: eval_nat_numeral)
qed

lemma demo_start:
  "loads_start (\<lambda>_. True) map_leader map_waiting demo_loads" "ld_pc demo_loads 1 = LStart demo_key"
  "{t. ld_pc demo_loads t \<noteq> LIdle} = {0, 1}" "ld_pc demo_loads t \<in> {LIdle, LStart demo_key}"
  "ld_world demo_loads = demo_logged_world"
  by (auto simp: loads_start_def demo_loads_def map_leader_def map_waiting_def fun_eq_iff)

lemma demo_logged_ok:
  "reliable_store (\<lambda>_. True) fake_objs fake_Get" "e_Get demo_logged_env = logged fake_Get"
  "world_ok (\<lambda>st. True) (\<lambda>st. fake_objs (fst st)) demo_logged_env demo_logged_world"
proof -
  have "mc_lookup (newManifestCache 1 0) = Map.empty"
    using newManifestCache_invar [of 1 0] by (simp add: mc_lookup_def cached_def entry_for_def fun_eq_iff)
  with fake.reliable_store_axioms newManifestCache_invar [of 1 0]
  show "reliable_store (\<lambda>_. True) fake_objs fake_Get" "e_Get demo_logged_env = logged fake_Get"
    "world_ok (\<lambda>st. True) (\<lambda>st. fake_objs (fst st)) demo_logged_env demo_logged_world"
    by (simp_all add: demo_logged_env_def demo_logged_world_def world_ok_def)
qed

lemma demo_logged_store: "object_store (\<lambda>_. True) (\<lambda>st. fake_objs (fst st)) (e_Get demo_logged_env)"
  using reliable_store.axioms(1) [OF reliable_store.logged_reliable [OF demo_logged_ok(1)]]
  by (simp add: demo_logged_ok(2))

lemma coalesced_loads_finish_witness:
  "loads_run demo_logged_env map_flight 9 demo_loads demo_end \<and> (9::nat) \<le> 8 * 2"
  using coalesced_loads_finish [OF map_flight_contract demo_start(1) _ demo_run] demo_run
  unfolding demo_start(3) by simp

lemma coalesced_loads_coherent_witness:
  "\<exists>m. ld_pc demo_end 1 = LDone demo_key (Inr m) \<and>
     released demo_logged_env (fake_objs (fst (w_store (ld_world demo_loads)))) demo_key = Some m"
  using coalesced_loads_coherent [OF demo_logged_store map_flight_contract demo_start(1)
      demo_logged_ok(3) [folded demo_start(5)] demo_run demo_start(2)] demo_ends
  by (auto split: pc.splits sum.splits)

lemma demo_logged_released: "\<exists>m. released demo_logged_env (fake_objs (fst (w_store (ld_world demo_loads)))) demo_key = Some m"
proof -
  have "\<not> Option.is_none (released demo_logged_env (fake_objs (fst (w_store (ld_world demo_loads)))) demo_key)"
    by code_simp
  then show ?thesis by (auto simp: Option.is_none_def)
qed

lemma burst_reads_once_witness:
  "count_list (log_of (ld_world demo_end)) demo_key \<le> Suc (count_list (log_of (ld_world demo_loads)) demo_key) \<and>
   (\<exists>m. ld_pc demo_end 1 = LDone demo_key (Inr m))"
proof -
  obtain m where m: "released demo_logged_env (fake_objs (fst (w_store (ld_world demo_loads)))) demo_key = Some m"
    using demo_logged_released by blast
  from burst_reads_once [where k = demo_key, OF demo_logged_ok(1,2) map_flight_contract demo_start(1)
      demo_logged_ok(3) [folded demo_start(5)] demo_start(4) m demo_run] demo_ends
  show ?thesis by (auto split: pc.splits sum.splits)
qed

lemma lone_load_is_loadManifest_witness:
  "\<exists>i \<le> 7. case loadManifest demo_logged_env \<lparr>s_project = ''acme'', s_name = ''docs'', s_releaseSHA = ''r1'', s_rest = ''/''\<rparr>
       (ld_world demo_loads) of (res, w) \<Rightarrow>
     (let s' = (load_step demo_logged_env map_flight 1 ^^ i) demo_loads in
        ld_world s' = w \<and> ld_pc s' = (ld_pc demo_loads)(1 := LDone demo_key res) \<and>
        map_leader (ld_group s') = map_leader (ld_group demo_loads))"
proof (rule lone_load_is_loadManifest [OF _ map_flight_contract])
  show "do_runs demo_logged_env" by (simp add: demo_logged_env_def do_runs_def)
  show "map_leader (ld_group demo_loads) demo_key = None" "map_waiting (ld_group demo_loads) demo_key = {}"
    by (simp_all add: demo_loads_def map_leader_def map_waiting_def)
  show "demo_key = site_key \<lparr>s_project = ''acme'', s_name = ''docs'', s_releaseSHA = ''r1'', s_rest = ''/''\<rparr>" by code_simp
qed (rule TrueI, rule demo_start(2))

end
