(* ===== verification/ConcurrentGateway.thy ===== *)
theory ConcurrentGateway
  imports Coalescing GatewayRun
begin

section \<open>Overlapping requests\<close>

text \<open>
  The handler serving any number of requests at once, with the evictor sweeping between their steps. A
  request is a thread: it is accepted (method and path checked, the request counted), loads its manifest
  by the steps of \<open>Coalescing\<close>, and is answered. Its answer opens at most one object and otherwise touches
  only its own response and the counters, so it is one step here; \<open>InterleavedGateway\<close> splits off the read of
  the object. Counting a request, its vector and its activity record together, is part of the step that accepts
  it, and a sweep is one step; \<open>MetricsRace\<close> splits both. The steps of different requests interleave freely, each with its own clock reading.
\<close>

subsection \<open>The end of a request\<close>

text \<open>\<^verbatim>\<open>ServeHTTP\<close> from the return of \<^verbatim>\<open>loadManifest\<close>.\<close>

definition respond :: "('s, 'v) env \<Rightarrow> request \<Rightarrow> site \<Rightarrow> lm_error + Manifest \<Rightarrow> response \<times> ('s, 'v) world \<Rightarrow>
   response \<times> ('s, 'v) world" where
  "respond env r s res = (\<lambda>(rw, w).
     case res of
       Inl err \<Rightarrow>
         (if is_not_found err then (HTTPError ''release not found'' StatusNotFound rw, w)
          else (HTTPError ''internal error'' StatusInternalServerError rw,
                log_event (LogLoadManifest (s_project s) (s_name s) (s_releaseSHA s)) w))
     | Inr m \<Rightarrow> serveSite env r s m (rw, w))"

lemma ServeHTTP_respond:
  assumes "rq_Method r = MethodGet \<or> rq_Method r = MethodHead" "parseSite (rq_Path r) = Some s"
  shows "ServeHTTP env r (rw, w) =
     (case loadManifest env s (observe env s w) of (res, w2) \<Rightarrow> respond env r s res (rw, w2))"
  using assms by (auto simp: ServeHTTP_def respond_def split: prod.split sum.split)

subsection \<open>The server\<close>

datatype phase =
  Absent
| Incoming request "nat option"
| Loading request "nat option" site
| Answered request "nat option" response

record ('s, 'v, 'g) server =
  sv_loads :: "('s, 'v, 'g) loaders"
  sv_phase :: "thread \<Rightarrow> phase"

abbreviation sv_world :: "('s, 'v, 'g) server \<Rightarrow> ('s, 'v) world" where
  "sv_world s \<equiv> ld_world (sv_loads s)"

definition move :: "thread \<Rightarrow> phase \<Rightarrow> ('s, 'v, 'g) loaders \<Rightarrow> ('s, 'v, 'g) server \<Rightarrow> ('s, 'v, 'g) server" where
  "move t p l s = s\<lparr>sv_loads := l, sv_phase := (sv_phase s)(t := p)\<rparr>"

text \<open>\<^verbatim>\<open>ServeHTTP\<close> up to the call of \<^verbatim>\<open>loadManifest\<close>.\<close>

definition accept :: "('s, 'v) env \<Rightarrow> thread \<Rightarrow> request \<Rightarrow> nat option \<Rightarrow> ('s, 'v, 'g) server \<Rightarrow> ('s, 'v, 'g) server" where
  "accept env t r room s =
     (let l = sv_loads s; rw = newResponse r room in
      if rq_Method r \<noteq> MethodGet \<and> rq_Method r \<noteq> MethodHead then
        move t (Answered r room (HTTPError ''method not allowed'' StatusMethodNotAllowed (SetHeader ''Allow'' ''GET, HEAD'' rw))) l s
      else
        (case parseSite (rq_Path r) of
           None \<Rightarrow> move t (Answered r room (HTTPError ''bad request'' StatusBadRequest rw)) l s
         | Some st \<Rightarrow>
             move t (Loading r room st)
               (l\<lparr>ld_world := observe env st (ld_world l), ld_pc := (ld_pc l)(t := LStart (site_key st))\<rparr>) s))"

definition finish :: "('s, 'v) env \<Rightarrow> thread \<Rightarrow> request \<Rightarrow> nat option \<Rightarrow> site \<Rightarrow> lm_error + Manifest \<Rightarrow>
   ('s, 'v, 'g) server \<Rightarrow> ('s, 'v, 'g) server" where
  "finish env t r room st res s =
     (case respond env r st res (newResponse r room, sv_world s) of
        (rw, w) \<Rightarrow> move t (Answered r room rw) ((sv_loads s)\<lparr>ld_world := w\<rparr>) s)"

inductive request_step :: "('s, 'v) env \<Rightarrow> 'g flight_ops \<Rightarrow> ('s, 'v, 'g) server \<Rightarrow> ('s, 'v, 'g) server \<Rightarrow> bool" for env ops where
  accepts: "sv_phase s t = Incoming r room \<Longrightarrow> request_step env ops s (accept (at_time now env) t r room s)"
| loads: "sv_phase s t = Loading r room st \<Longrightarrow> runnable (ld_pc (sv_loads s) t) \<Longrightarrow>
    request_step env ops s (s\<lparr>sv_loads := load_step env ops t (sv_loads s)\<rparr>)"
| answers: "sv_phase s t = Loading r room st \<Longrightarrow> ld_pc (sv_loads s) t = LDone k res \<Longrightarrow>
    request_step env ops s (finish (at_time now env) t r room st res s)"

text \<open>A run, counting the steps of requests.\<close>

inductive serves :: "('s, 'v) env \<Rightarrow> 'g flight_ops \<Rightarrow> nat \<Rightarrow> ('s, 'v, 'g) server \<Rightarrow> ('s, 'v, 'g) server \<Rightarrow> bool" for env ops where
  start: "serves env ops 0 s s"
| request: "serves env ops n s s' \<Longrightarrow> request_step env ops s' s'' \<Longrightarrow> serves env ops (Suc n) s s''"
| sweep: "serves env ops n s s' \<Longrightarrow> serves env ops n s (s'\<lparr>sv_loads := (sv_loads s')\<lparr>ld_world :=
    (sv_world s')\<lparr>w_metrics := evictIdle (e_counters env) visit now ttl (w_metrics (sv_world s'))\<rparr>\<rparr>\<rparr>)"

inductive_cases request_stepE: "request_step env ops s s'"

subsection \<open>Threads, phases and progress\<close>

fun phase_shape :: "pc \<Rightarrow> phase \<Rightarrow> bool" where
  "phase_shape p Absent = (p = LIdle)"
| "phase_shape p (Incoming r room) = (p = LIdle)"
| "phase_shape p (Loading r room st) =
     (pc_key p = Some (site_key st) \<and> (rq_Method r = MethodGet \<or> rq_Method r = MethodHead) \<and>
      parseSite (rq_Path r) = Some st)"
| "phase_shape p (Answered r room rw) = (\<not> runnable p \<and> waiting_on p = None)"

fun phase_request :: "phase \<Rightarrow> (request \<times> nat option) option" where
  "phase_request Absent = None"
| "phase_request (Incoming r room) = Some (r, room)"
| "phase_request (Loading r room st) = Some (r, room)"
| "phase_request (Answered r room rw) = Some (r, room)"

fun weight :: "pc \<Rightarrow> phase \<Rightarrow> nat" where
  "weight p (Incoming r room) = 10"
| "weight p (Loading r room st) = Suc (rank p)"
| "weight p _ = 0"

definition shape_ok where
  "shape_ok ok leader waiting s \<longleftrightarrow>
     group_of ok leader waiting (sv_loads s) \<and> (\<forall>t. phase_shape (ld_pc (sv_loads s) t) (sv_phase s t))"

lemma shape_okD:
  assumes "shape_ok ok leader waiting s"
  shows "group_of ok leader waiting (sv_loads s)" "phase_shape (ld_pc (sv_loads s) t) (sv_phase s t)"
  using assms by (simp_all add: shape_ok_def)

abbreviation sv_weight where
  "sv_weight s t \<equiv> weight (ld_pc (sv_loads s) t) (sv_phase s t)"

abbreviation sv_request where
  "sv_request s t \<equiv> phase_request (sv_phase s t)"

lemma move_simps [simp]:
  "sv_loads (move t p l s) = l" "sv_phase (move t p l s) = (sv_phase s)(t := p)"
  by (simp_all add: move_def)

lemma rank_le: "rank p \<le> 8"
  by (cases p) simp_all

lemma group_ok_arrive:
  "group_ok ok leader waiting g pc \<Longrightarrow> pc t = LIdle \<Longrightarrow> group_ok ok leader waiting g (pc(t := LStart k))"
  by (rule group_ok_local) simp_all

text \<open>Every step of a request keeps its thread's request and uses up some of the work it has left.\<close>

lemma request_step_shape:
  assumes c: "flight_contract ops ok leader waiting" and i: "shape_ok ok leader waiting s"
    and st: "request_step env ops s s'"
  shows "shape_ok ok leader waiting s' \<and> (\<forall>u. sv_request s' u = sv_request s u) \<and>
    (\<exists>t. \<forall>u. sv_weight s' u + (if u = t then 1 else 0) \<le> sv_weight s u)"
  using st
proof cases
  case (accepts t r room now)
  have idle: "ld_pc (sv_loads s) t = LIdle" using shape_okD(2) [OF i, of t] accepts(2) by simp
  show ?thesis
  proof (cases "rq_Method r = MethodGet \<or> rq_Method r = MethodHead")
    case False
    with i idle accepts show ?thesis
      by (auto simp: accept_def Let_def shape_ok_def intro!: exI [of _ t])
  next
    case mt: True
    show ?thesis
    proof (cases "parseSite (rq_Path r)")
      case None
      with mt i idle accepts show ?thesis
        by (auto simp: accept_def Let_def shape_ok_def intro!: exI [of _ t])
    next
      case (Some st)
      note arrive = group_ok_arrive [OF shape_okD(1) [OF i] idle, of "site_key st"]
      have s': "s' = move t (Loading r room st) ((sv_loads s)\<lparr>ld_world := observe (at_time now env) st (sv_world s),
          ld_pc := (ld_pc (sv_loads s))(t := LStart (site_key st))\<rparr>) s"
        using mt Some accepts(1) by (auto simp: accept_def Let_def)
      from mt Some i accepts(2) arrive show ?thesis
        unfolding s' by (auto simp: shape_ok_def intro!: exI [of _ t])
    qed
  qed
next
  case (loads t r room st)
  note lg = load_step_group [OF c shape_okD(1) [OF i] loads(3), of env]
  have sh: "phase_shape (ld_pc (load_step env ops t (sv_loads s)) u) (sv_phase s u)" for u
  proof (cases "u = t")
    case True
    with shape_okD(2) [OF i, of u] loads(2) lg(2) [of u] show ?thesis by simp
  next
    case False
    show ?thesis
      using shape_okD(2) [OF i, of u] lg(2) [of u] load_step_others [OF c shape_okD(1) [OF i] loads(3) False, of env]
      by (cases "sv_phase s u") auto
  qed
  have "sv_weight s' u + (if u = t then 1 else 0) \<le> sv_weight s u" for u
    using lg(3) [of u] loads(1,2) by (cases "sv_phase s u") auto
  then have "\<exists>t. \<forall>u. sv_weight s' u + (if u = t then 1 else 0) \<le> sv_weight s u" by blast
  with loads(1) lg(1) sh show ?thesis by (simp add: shape_ok_def)
next
  case (answers t r room st k res now)
  obtain rw w' where r: "respond (at_time now env) r st res (newResponse r room, sv_world s) = (rw, w')" by fastforce
  with answers i show ?thesis
    by (auto simp: finish_def shape_ok_def intro!: exI [of _ t])
qed

lemma sweep_shape:
  "shape_ok ok leader waiting (s\<lparr>sv_loads := (sv_loads s)\<lparr>ld_world := w\<rparr>\<rparr>) = shape_ok ok leader waiting s"
  by (simp add: shape_ok_def)

lemma serves_shape:
  assumes "serves env ops n s0 s" "flight_contract ops ok leader waiting" "shape_ok ok leader waiting s0"
  shows "shape_ok ok leader waiting s \<and> (\<forall>u. sv_request s u = sv_request s0 u) \<and>
    (finite A \<longrightarrow> {t. sv_request s0 t \<noteq> None} \<subseteq> A \<longrightarrow> n + (\<Sum>t\<in>A. sv_weight s t) \<le> (\<Sum>t\<in>A. sv_weight s0 t))"
  using assms(1,3)
proof (induction rule: serves.induct)
  case (request n s0 s s')
  note IH = request.IH [OF request.prems]
  note st = request_step_shape [OF assms(2) conjunct1 [OF IH] request.hyps(2)]
  then obtain t where t: "\<And>u. sv_weight s' u + (if u = t then 1 else 0) \<le> sv_weight s u" by blast
  have less: "Suc (\<Sum>t\<in>A. sv_weight s' t) \<le> (\<Sum>t\<in>A. sv_weight s t)"
    if A: "finite A" "{t. sv_request s0 t \<noteq> None} \<subseteq> A"
  proof -
    have "sv_weight s t \<noteq> 0" using t [of t] by simp
    then have "sv_request s t \<noteq> None" by (cases "sv_phase s t") simp_all
    with A IH have "t \<in> A" by auto
    from sum_drop [OF t A(1) this] show ?thesis .
  qed
  have "Suc n + (\<Sum>t\<in>A. sv_weight s' t) \<le> (\<Sum>t\<in>A. sv_weight s0 t)"
    if A: "finite A" "{t. sv_request s0 t \<noteq> None} \<subseteq> A"
    using less [OF A] IH A by linarith
  with st IH show ?case by simp
qed (simp_all add: sweep_shape)

text \<open>While a request is unanswered, some request can go on.\<close>

lemma serving_progress:
  assumes i: "shape_ok ok leader waiting s" and stuck: "\<And>s'. \<not> request_step env ops s s'"
    and r: "sv_request s t = Some (r, room)"
  shows "\<exists>rw. sv_phase s t = Answered r room rw"
proof (cases "sv_phase s t")
  case (Incoming r' room')
  from accepts [OF this] stuck show ?thesis by blast
next
  case (Loading r' room' st)
  have "\<not> runnable (ld_pc (sv_loads s) u)" for u
  proof
    assume run: "runnable (ld_pc (sv_loads s) u)"
    with shape_okD(2) [OF i, of u] obtain a b c where "sv_phase s u = Loading a b c"
      by (cases "sv_phase s u") auto
    from loads [OF this run] stuck show False by blast
  qed
  moreover have "pc_key (ld_pc (sv_loads s) t) = Some (site_key st)"
    using shape_okD(2) [OF i, of t] Loading by simp
  ultimately obtain res where "ld_pc (sv_loads s) t = LDone (site_key st) res"
    using group_ok_progress [OF shape_okD(1) [OF i]] by blast
  from answers [OF Loading this] stuck show ?thesis by blast
qed (use r in simp_all)

definition server_start where
  "server_start ok leader waiting s \<longleftrightarrow>
     ok (ld_group (sv_loads s)) \<and> leader (ld_group (sv_loads s)) = Map.empty \<and>
     waiting (ld_group (sv_loads s)) = (\<lambda>_. {}) \<and> ld_pc (sv_loads s) = (\<lambda>_. LIdle) \<and>
     (\<forall>t. sv_phase s t = Absent \<or> (\<exists>r room. sv_phase s t = Incoming r room))"

lemma server_start_shape:
  assumes "server_start ok leader waiting s"
  shows "shape_ok ok leader waiting s"
proof -
  have "phase_shape LIdle (sv_phase s t)" for t
  proof -
    from assms have "sv_phase s t = Absent \<or> (\<exists>r room. sv_phase s t = Incoming r room)"
      by (simp add: server_start_def)
    then show ?thesis by auto
  qed
  moreover have "group_of ok leader waiting (sv_loads s)"
    using assms by (intro loads_start_group) (simp add: server_start_def loads_start_def)
  ultimately show ?thesis using assms by (simp add: shape_ok_def server_start_def)
qed

lemma serving_bound:
  assumes "flight_contract ops ok leader waiting" "server_start ok leader waiting s0"
    and "finite {t. sv_phase s0 t \<noteq> Absent}" and "serves env ops n s0 s"
  shows "n \<le> 10 * card {t. sv_phase s0 t \<noteq> Absent}" "shape_ok ok leader waiting s" "sv_request s u = sv_request s0 u"
proof -
  let ?A = "{t. sv_phase s0 t \<noteq> Absent}"
  have "{t. sv_request s0 t \<noteq> None} \<subseteq> ?A" by auto
  with serves_shape [OF assms(4,1) server_start_shape [OF assms(2)], of ?A] assms(3)
  have sh: "shape_ok ok leader waiting s" "\<And>u. sv_request s u = sv_request s0 u"
      "n \<le> (\<Sum>t\<in>?A. sv_weight s0 t)" by simp_all
  have "sv_weight s0 t \<le> 10" for t
    using rank_le [of "ld_pc (sv_loads s0) t"] by (cases "sv_phase s0 t") simp_all
  then have "(\<Sum>t\<in>?A. sv_weight s0 t) \<le> card ?A * 10"
    using sum_bounded_above [of ?A "\<lambda>t. sv_weight s0 t" 10] by simp
  with sh show "n \<le> 10 * card ?A" "shape_ok ok leader waiting s" "sv_request s u = sv_request s0 u" by simp_all
qed

lemma serving_stuck_answered:
  assumes "flight_contract ops ok leader waiting" "server_start ok leader waiting s0"
    and "finite {t. sv_phase s0 t \<noteq> Absent}" and "serves env ops n s0 s"
    and "\<forall>s'. \<not> request_step env ops s s'" "sv_phase s0 t = Incoming r room"
  shows "\<exists>rw. sv_phase s t = Answered r room rw"
  by (rule serving_progress [OF serving_bound(2) [OF assms(1-4)]])
    (use assms(5,6) serving_bound(3) [OF assms(1-4), of t] in auto)

text \<open>So requests alone, without a sweep, answer them all.\<close>

lemma steps_serve: "(request_step env ops ^^ n) s0 s \<Longrightarrow> serves env ops n s0 s"
  by (induction n arbitrary: s) (auto intro: serves.intros)

lemma serving_completes:
  assumes "flight_contract ops ok leader waiting" "server_start ok leader waiting s0"
    and "finite {t. sv_phase s0 t \<noteq> Absent}"
  shows "\<exists>n s. (request_step env ops ^^ n) s0 s \<and>
    (\<forall>t r room. sv_phase s0 t = Incoming r room \<longrightarrow> (\<exists>rw. sv_phase s t = Answered r room rw))"
proof (rule ccontr)
  assume no: "\<not> ?thesis"
  have "\<exists>s. (request_step env ops ^^ n) s0 s" for n
  proof (induction n)
    case (Suc n)
    then obtain s where s: "(request_step env ops ^^ n) s0 s" by blast
    with no serving_stuck_answered [OF assms steps_serve [OF s]] have "\<exists>s'. request_step env ops s s'" by blast
    with s show ?case by auto
  qed simp
  then obtain s where "(request_step env ops ^^ Suc (10 * card {t. sv_phase s0 t \<noteq> Absent})) s0 s" by blast
  from serving_bound(1) [OF assms steps_serve [OF this]] show False by simp
qed

text \<open>Every request is answered: of any finite number of overlapping requests, with sweeps
  in between, over any store, all together take at most ten steps for each, and as long as one is unanswered some
  request can take a step; when none can, every request that came in has its answer.\<close>

theorem overlapping_requests_finish:
  assumes "flight_contract ops ok leader waiting" "server_start ok leader waiting s0"
    and "finite {t. sv_phase s0 t \<noteq> Absent}" and "serves env ops n s0 s"
  shows "n \<le> 10 * card {t. sv_phase s0 t \<noteq> Absent} \<and>
    ((\<forall>s'. \<not> request_step env ops s s') \<longrightarrow>
     (\<forall>t r room. sv_phase s0 t = Incoming r room \<longrightarrow> (\<exists>rw. sv_phase s t = Answered r room rw)))"
  using serving_bound(1) [OF assms] serving_stuck_answered [OF assms] by blast

text \<open>A server with some requests coming in.\<close>

definition demo_server_of :: "string list \<Rightarrow> ('s, 'v) world \<Rightarrow> ('s, 'v, string \<rightharpoonup> thread \<times> thread list) server" where
  "demo_server_of ps w = \<lparr>sv_loads = \<lparr>ld_world = w, ld_group = Map.empty, ld_pc = (\<lambda>_. LIdle)\<rparr>,
     sv_phase = (\<lambda>t. if t < length ps then Incoming (GET (ps ! t)) None else Absent)\<rparr>"

lemma demo_server_facts:
  "server_start (\<lambda>_. True) map_leader map_waiting (demo_server_of ps w)"
  "{t. sv_phase (demo_server_of ps w) t \<noteq> Absent} = {..< length ps}" "sv_world (demo_server_of ps w) = w"
  by (auto simp: server_start_def demo_server_of_def map_leader_def map_waiting_def fun_eq_iff)

lemma demo_server_steps:
  obtains n s where "(request_step env map_flight ^^ n) (demo_server_of ps w) s"
    "\<And>t. t < length ps \<Longrightarrow> \<exists>rw. sv_phase s t = Answered (GET (ps ! t)) None rw"
proof -
  have "finite {t. sv_phase (demo_server_of ps w) t \<noteq> Absent}" unfolding demo_server_facts(2) by simp
  from serving_completes [OF map_flight_contract demo_server_facts(1) this]
  obtain n s where s: "(request_step env map_flight ^^ n) (demo_server_of ps w) s"
      "\<And>t r room. sv_phase (demo_server_of ps w) t = Incoming r room \<Longrightarrow> \<exists>rw. sv_phase s t = Answered r room rw"
    by blast
  have "sv_phase (demo_server_of ps w) t = Incoming (GET (ps ! t)) None" if "t < length ps" for t
    using that by (simp add: demo_server_of_def)
  with s that show thesis by blast
qed

lemma demo_server_serves:
  obtains n s where "serves env map_flight n (demo_server_of ps w) s"
    "\<And>t. t < length ps \<Longrightarrow> \<exists>rw. sv_phase s t = Answered (GET (ps ! t)) None rw"
  using demo_server_steps steps_serve by metis

lemma overlapping_requests_finish_witness:
  "\<exists>n s. serves demo_logged_env map_flight n (demo_server_of [''/acme/docs/r1/'', ''/acme/docs/r1/'', ''/acme''] demo_logged_world) s \<and>
     n \<le> 30 \<and> (\<exists>rw. sv_phase s 1 = Answered (GET ''/acme/docs/r1/'') None rw)"
proof -
  let ?ps = "[''/acme/docs/r1/'', ''/acme/docs/r1/'', ''/acme'']"
  let ?s0 = "demo_server_of ?ps demo_logged_world"
  obtain n s where s: "serves demo_logged_env map_flight n ?s0 s"
      "\<And>t. t < length ?ps \<Longrightarrow> \<exists>rw. sv_phase s t = Answered (GET (?ps ! t)) None rw"
    by (rule demo_server_serves [of demo_logged_env ?ps demo_logged_world]) blast
  have fin: "finite {t. sv_phase ?s0 t \<noteq> Absent}" unfolding demo_server_facts(2) by simp
  have "n \<le> 30"
    using overlapping_requests_finish [OF map_flight_contract demo_server_facts(1) fin s(1)]
    unfolding demo_server_facts(2) by simp
  with s(1) s(2) [of 1] show ?thesis by auto
qed

subsection \<open>Metrics\<close>

lemma load_step_metrics: "w_metrics (ld_world (load_step env ops t s)) = w_metrics (ld_world s)"
  by (simp add: load_step_def Let_def goto_def split: pc.split prod.split option.split sum.split)

lemma respond_counts:
  assumes "respond env r s res (newResponse r room, w) = (rw, w')"
  shows "counts_body env s rw (w_metrics w) (w_metrics w')"
proof (cases res)
  case (Inl e)
  with assms show ?thesis
    by (auto simp: respond_def log_event_def HTTPError_spec newResponse_simps split: if_splits intro!: counts_error)
next
  case (Inr m)
  with assms have "serveSite env r s m (newResponse r room, w) = (rw, w')" by (simp add: respond_def)
  then show ?thesis by (rule serveSite_counts)
qed

subsection \<open>Answers\<close>

text \<open>What is sent with status 200 is an initial part of the blob stored for a document that the release stored at
  the request's own key has for the path requested.\<close>

definition authentic :: "('s, 'v) env \<Rightarrow> (string \<Rightarrow> bytes option) \<Rightarrow> request \<Rightarrow> response \<Rightarrow> bool" where
  "authentic env held r rw \<longleftrightarrow> (an_Status (answer_of rw) = 200 \<longrightarrow> rs_Body rw = [] \<or>
     (\<exists>s m p data. parseSite (rq_Path r) = Some s \<and> released env held (site_key s) = Some m \<and>
        snd (Lookup m p) \<and> (p = indexHTML \<or> p \<in> set (candidates (s_rest s))) \<and>
        held (BlobKey (s_project s) (s_name s) (Blob (fst (Lookup m p)))) = Some data \<and> prefix (rs_Body rw) data))"

text \<open>The loads are in a good state and every answer so far has the property \<open>P\<close>.\<close>

definition server_inv where
  "server_inv P env iv objs held s \<longleftrightarrow>
     loads_ok env iv objs held (sv_loads s) \<and> (\<forall>t r room rw. sv_phase s t = Answered r room rw \<longrightarrow> P r room rw)"

abbreviation server_ok where
  "server_ok env iv objs held \<equiv> server_inv (\<lambda>r room rw. answer_of rw = ideal env held room r) env iv objs held"

lemma loads_ok_world:
  "loads_ok env iv objs held l \<Longrightarrow> world_ok iv objs env w \<Longrightarrow> objs (w_store w) = held \<Longrightarrow>
   loads_ok env iv objs held (l\<lparr>ld_world := w\<rparr>)"
  by (simp add: loads_ok_def)

lemma at_time_genuine [simp]: "genuine (at_time now env) = genuine env"
  by (intro ext) (simp add: genuine_def fetched_def parsed_def cong: sum.case_cong)

lemma respond_status: "rs_Status (fst (respond env r s res (newResponse r room, w))) \<noteq> None"
proof (cases res)
  case (Inl e)
  then show ?thesis by (simp add: respond_def HTTPError_spec newResponse_simps)
next
  case (Inr m)
  show ?thesis
  proof (cases rule: serveSite_cases [of m s env r "(newResponse r room, w)"])
    case (document p)
    with Inr serveBlob_status [of env r s m "fst (Lookup m p)" 200 room w] show ?thesis by (auto simp: respond_def)
  next
    case not_found
    with Inr not_found_status [of env r s m room w] show ?thesis by (auto simp: respond_def)
  qed
qed

lemma server_inv_metrics:
  assumes "server_inv P env iv objs held s"
  shows "server_inv P env iv objs held
    (s\<lparr>sv_loads := (sv_loads s)\<lparr>ld_world := (sv_world s)\<lparr>w_metrics := mt\<rparr>\<rparr>\<rparr>)"
proof -
  have "loads_ok env iv objs held ((sv_loads s)\<lparr>ld_world := (sv_world s)\<lparr>w_metrics := mt\<rparr>\<rparr>)"
    using assms unfolding server_inv_def by (simp add: loads_ok_def)
  then show ?thesis using conjunct2 [OF assms [unfolded server_inv_def]] by (simp only: server_inv_def) simp
qed

abbreviation refused_method :: "request \<Rightarrow> nat option \<Rightarrow> response" where
  "refused_method r room \<equiv>
     HTTPError ''method not allowed'' StatusMethodNotAllowed (SetHeader ''Allow'' ''GET, HEAD'' (newResponse r room))"

abbreviation refused_path :: "request \<Rightarrow> nat option \<Rightarrow> response" where
  "refused_path r room \<equiv> HTTPError ''bad request'' StatusBadRequest (newResponse r room)"

context object_store
begin

lemma respond_ok:
  assumes "world_ok invar objs env w" "e_Get env = get" "respond env r s res (rw, w) = (rw', w')"
  shows "world_ok invar objs env w' \<and> objs (w_store w') = objs (w_store w)"
  using assms serveSite_ok [OF assms(1,2), of r s _ rw rw' w']
  by (auto simp: respond_def log_event_def split: sum.splits if_splits)

text \<open>A property of the answers holds along every step when every way to answer gives it.\<close>

lemma request_step_inv:
  assumes g: "e_Get env = get" and sh: "shape_ok ok leader waiting s"
    and i: "server_inv P env invar objs held s" and st: "request_step env ops s s'"
    and bad: "\<And>r room. \<not> (rq_Method r = MethodGet \<or> rq_Method r = MethodHead) \<Longrightarrow> P r room (refused_method r room)"
      "\<And>r room. rq_Method r = MethodGet \<or> rq_Method r = MethodHead \<Longrightarrow> parseSite (rq_Path r) = None \<Longrightarrow>
        P r room (refused_path r room)"
    and good: "\<And>now r room st res w. invar (w_store w) \<Longrightarrow> objs (w_store w) = held \<Longrightarrow>
      rq_Method r = MethodGet \<or> rq_Method r = MethodHead \<Longrightarrow> parseSite (rq_Path r) = Some st \<Longrightarrow>
      genuine env invar objs held (site_key st) res \<Longrightarrow>
      P r room (fst (respond (at_time now env) r st res (newResponse r room, w)))"
  shows "server_inv P env invar objs held s'"
  using st
proof cases
  case (accepts t r room now)
  show ?thesis
  proof (cases "rq_Method r = MethodGet \<or> rq_Method r = MethodHead")
    case False
    then have "s' = move t (Answered r room (refused_method r room)) (sv_loads s) s"
      using accepts(1) by (auto simp: accept_def)
    with i bad(1) [OF False] show ?thesis by (auto simp: server_inv_def)
  next
    case mt: True
    show ?thesis
    proof (cases "parseSite (rq_Path r)")
      case None
      then have "s' = move t (Answered r room (refused_path r room)) (sv_loads s) s"
        using accepts(1) mt by (auto simp: accept_def)
      with i bad(2) [OF mt None] show ?thesis by (auto simp: server_inv_def)
    next
      case (Some st)
      have "s' = move t (Loading r room st) ((sv_loads s)\<lparr>ld_world := observe (at_time now env) st (sv_world s),
          ld_pc := (ld_pc (sv_loads s))(t := LStart (site_key st))\<rparr>) s"
        using mt Some accepts(1) by (auto simp: accept_def Let_def)
      with i show ?thesis by (auto simp: server_inv_def loads_ok_def)
    qed
  qed
next
  case (loads t r room st)
  with i load_step_ok [OF g, of held "sv_loads s" ops t] show ?thesis by (simp add: server_inv_def)
next
  case (answers t r room st k res now)
  let ?w = "sv_world s"
  have lo: "loads_ok env invar objs held (sv_loads s)" using i by (simp add: server_inv_def)
  have ph: "k = site_key st" "rq_Method r = MethodGet \<or> rq_Method r = MethodHead" "parseSite (rq_Path r) = Some st"
    using shape_okD(2) [OF sh, of t] answers(2,3) by simp_all
  have gen: "genuine env invar objs held k res" using loads_okD(3) [OF lo, of t] answers(3) by simp
  have w: "world_ok invar objs env ?w" "objs (w_store ?w) = held" "invar (w_store ?w)"
    using loads_okD(1,2) [OF lo] by (simp_all add: world_ok_def)
  let ?env = "at_time now env"
  obtain rw w' where r: "respond ?env r st res (newResponse r room, ?w) = (rw, w')" by fastforce
  have "world_ok invar objs ?env ?w" "e_Get ?env = get" using w(1) g by simp_all
  note rok = respond_ok [OF this r]
  have "P r room rw"
    using good [OF w(3,2) ph(2,3) gen [unfolded ph(1)], of room now] r by simp
  with answers(1) rok w(2) i r show ?thesis
    by (auto simp: finish_def server_inv_def loads_ok_world)
qed

lemma respond_authentic:
  assumes iv: "invar (w_store w)" and g: "e_Get env = get" and p: "parseSite (rq_Path r) = Some s"
    and gen: "genuine env invar objs (objs (w_store w)) (site_key s) res"
  shows "authentic env (objs (w_store w)) r (fst (respond env r s res (newResponse r room, w)))"
proof (cases res)
  case (Inr m)
  obtain rw w' where ss: "serveSite env r s m (newResponse r room, w) = (rw, w')" by fastforce
  have "object_store invar objs (e_Get env)" using g object_store_axioms by simp
  note body = serveSite_body [OF this iv ss]
  have "released env (objs (w_store w)) (site_key s) = Some m" using gen Inr by (simp add: genuine_def)
  moreover have "rs_Status rw = Some 200" if "an_Status (answer_of rw) = 200"
    using that respond_status [of env r s res room w] ss Inr by (auto simp: respond_def answer_of_def split: option.splits)
  ultimately show ?thesis using body p ss Inr unfolding authentic_def respond_def by auto
next
  case (Inl e)
  then show ?thesis by (auto simp: authentic_def respond_def answer_of_def HTTPError_spec newResponse_simps)
qed

text \<open>Over any store that keeps its contract, what is sent as a 200 is authentic after every step.\<close>

lemma request_step_authentic:
  fixes env :: "('s, 'b) env"
  assumes g: "e_Get env = get" and sh: "shape_ok ok leader waiting s"
    and i: "server_inv (\<lambda>r _ rw. authentic env held r rw) env invar objs held s" and st: "request_step env ops s s'"
  shows "server_inv (\<lambda>r _ rw. authentic env held r rw) env invar objs held s'"
proof (rule request_step_inv [OF g sh i st])
  fix r :: request and room now st res and w :: "('s, 'b) world"
  assume "invar (w_store w)" "objs (w_store w) = held" "rq_Method r = MethodGet \<or> rq_Method r = MethodHead"
    "parseSite (rq_Path r) = Some st" "genuine env invar objs held (site_key st) res"
  then show "authentic env held r (fst (respond (at_time now env) r st res (newResponse r room, w)))"
    using respond_authentic [of w "at_time now env" r st res room] g by (simp add: authentic_def)
qed (auto simp: authentic_def answer_of_def HTTPError_spec header_ops newResponse_simps)

end

context reliable_store
begin

lemma genuine_missing:
  assumes "e_Get env = get" "genuine env invar objs held k (Inl e)" "held k = None"
  shows "is_not_found e"
  using assms get_missing [of _ k] by (force simp: genuine_def fetched_def)

lemma respond_answer:
  assumes iv: "invar (w_store w)" and g: "e_Get env = get"
    and mt: "rq_Method r = MethodGet \<or> rq_Method r = MethodHead" and p: "parseSite (rq_Path r) = Some s"
    and gen: "genuine env invar objs (objs (w_store w)) (site_key s) res"
  shows "answer_of (fst (respond env r s res (newResponse r room, w))) = ideal env (objs (w_store w)) room r"
proof (cases res)
  case (Inr m)
  then have "released env (objs (w_store w)) (site_key s) = Some m" using gen by (simp add: genuine_def)
  with Inr mt p serveSite_answer [OF iv g mt, of s m room] show ?thesis
    by (auto simp: respond_def ideal_def)
next
  case (Inl e)
  then have "released env (objs (w_store w)) (site_key s) = None"
    using genuine_complete [OF g gen] by (cases "released env (objs (w_store w)) (site_key s)") auto
  moreover have "is_not_found e \<longleftrightarrow> objs (w_store w) (site_key s) = None"
    using genuine_missing [OF g] genuine_truthful(2) [OF g gen Inl] gen Inl by blast
  ultimately show ?thesis
    using Inl mt p by (auto simp: respond_def ideal_def error_answer_def body_for_def answer_HTTPError newResponse_simps)
qed

lemma request_step_ok:
  fixes env :: "('s, 'b) env"
  assumes g: "e_Get env = get" and sh: "shape_ok ok leader waiting s"
    and i: "server_ok env invar objs held s" and st: "request_step env ops s s'"
  shows "server_ok env invar objs held s'"
proof (rule request_step_inv [OF g sh i st])
  fix r :: request and room now st res and w :: "('s, 'b) world"
  assume "invar (w_store w)" "objs (w_store w) = held" "rq_Method r = MethodGet \<or> rq_Method r = MethodHead"
    "parseSite (rq_Path r) = Some st" "genuine env invar objs held (site_key st) res"
  then show "answer_of (fst (respond (at_time now env) r st res (newResponse r room, w))) = ideal env held room r"
    using respond_answer [of w "at_time now env" r st res room] g by simp
qed (auto simp: ideal_def error_answer_def body_for_def answer_HTTPError header_ops newResponse_simps)

lemma serves_ok:
  assumes "serves env ops n s0 s" "e_Get env = get" "flight_contract ops ok leader waiting"
    "shape_ok ok leader waiting s0" "server_ok env invar objs held s0"
  shows "server_ok env invar objs held s"
  using assms(1,4,5)
proof (induction rule: serves.induct)
  case (request n s0 s s')
  from request_step_ok [OF assms(2) conjunct1 [OF serves_shape [OF request.hyps(1) assms(3) request.prems(1)]]
      request.IH [OF request.prems] request.hyps(2)]
  show ?case .
next
  case (sweep n s0 s visit now ttl)
  from sweep.IH [OF sweep.prems] show ?case by (rule server_inv_metrics)
qed

text \<open>Overlapping requests are answered as the specification says, each as if it were alone.\<close>

lemma serves_answers:
  assumes "serves env ops n s0 s" "e_Get env = get" "flight_contract ops ok leader waiting"
    "server_start ok leader waiting s0" "world_ok invar objs env (sv_world s0)"
    "sv_phase s t = Answered r room rw"
  shows "sv_phase s0 t = Incoming r room \<and> answer_of rw = ideal env (objs (w_store (sv_world s0))) room r"
proof -
  note sh = server_start_shape [OF assms(4)]
  have ph: "sv_phase s0 u = Absent \<or> (\<exists>r room. sv_phase s0 u = Incoming r room)" for u
    using assms(4) by (simp add: server_start_def)
  have "sv_phase s0 u \<noteq> Answered a b c" for u a b c using ph [of u] by auto
  then have "server_ok env invar objs (objs (w_store (sv_world s0))) s0"
    using assms(4,5) by (auto simp: server_inv_def loads_ok_def server_start_def)
  from serves_ok [OF assms(1,2,3) sh this] assms(6)
  have "answer_of rw = ideal env (objs (w_store (sv_world s0))) room r" by (simp add: server_inv_def)
  moreover have "sv_request s t = sv_request s0 t"
    using serves_shape [OF assms(1,3) sh] by blast
  with assms(6) ph [of t] have "sv_phase s0 t = Incoming r room" by auto
  ultimately show ?thesis by simp
qed

end

end
