(* ===== verification/CacheRace.thy ===== *)
theory CacheRace
  imports BlobCache
begin

section \<open>internal/blobstore: concurrent reads through the caching store\<close>

text \<open>
  \<^verbatim>\<open>CachingStore.Get\<close> again, for any number of goroutines: its mutex guards each cache operation, not the
  read as a whole, so two reads of one blob may both miss and both fill the cache. A step is a cache
  operation, opening the object in the inner store, or reading the object's bytes into the buffer. An
  \<^verbatim>\<open>add\<close> whose eviction loop would not return is the program point \<open>GStuck\<close>: the mutex would be held for ever.
\<close>

subsection \<open>One goroutine\<close>

datatype gpc =
  GIdle
| GStart string
| GOpen string
| GBuffer string reader int
| GAdd string bytes
| GDone string "store_error + reader"
| GStuck

fun gstep :: "(string \<Rightarrow> 's \<Rightarrow> (store_error + reader) \<times> 's) \<Rightarrow> gpc \<times> 's CachingStore \<Rightarrow> gpc \<times> 's CachingStore" where
  "gstep inner_Get (GStart k, c) =
     (if \<not> isBlobKey k then
        (case inner_Get k (cs_inner c) of (res, s) \<Rightarrow> (GDone k res, c\<lparr>cs_inner := s\<rparr>))
      else
        (case bc_get k (cs_cache c) of
           (Some data, bc) \<Rightarrow> (GDone k (Inr (bytesReader data)), c\<lparr>cs_cache := bc\<rparr>)
         | (None, bc) \<Rightarrow> (GOpen k, c\<lparr>cs_cache := bc\<rparr>)))"
| "gstep inner_Get (GOpen k, c) =
     (case inner_Get k (cs_inner c) of
        (Inl err, s) \<Rightarrow> (GDone k (Inl err), c\<lparr>cs_inner := s\<rparr>)
      | (Inr rc, s) \<Rightarrow>
          (case rd_size rc of
             None \<Rightarrow> (GDone k (Inr rc), c\<lparr>cs_inner := s\<rparr>)
           | Some n \<Rightarrow>
               if n < 0 \<or> cs_maxBlobBytes c < n then (GDone k (Inr rc), c\<lparr>cs_inner := s\<rparr>)
               else (GBuffer k rc n, c\<lparr>cs_inner := s\<rparr>)))"
| "gstep inner_Get (GBuffer k rc n, c) =
     (case ReadFull rc (nat n) of
        Inl err \<Rightarrow> (GDone k (Inl err), c)
      | Inr data \<Rightarrow> (GAdd k data, c))"
| "gstep inner_Get (GAdd k data, c) =
     (case bc_add k data (cs_cache c) of
        None \<Rightarrow> (GStuck, c)
      | Some bc \<Rightarrow> (GDone k (Inr (bytesReader data)), c\<lparr>cs_cache := bc\<rparr>))"
| "gstep inner_Get (p, c) = (p, c)"

text \<open>Any interleaving of any number of them.\<close>

definition gstep_thread where
  "gstep_thread inner_Get t s = (case gstep inner_Get (fst s t, snd s) of (p, c) \<Rightarrow> ((fst s)(t := p), c))"

inductive gets_run for inner_Get where
  gets_start: "gets_run inner_Get s s"
| gets_step: "gets_run inner_Get s s' \<Longrightarrow> gets_run inner_Get s (gstep_thread inner_Get t s')"

subsection \<open>The invariant\<close>

text \<open>What a read of \<open>k\<close> may come to, over stores that hold \<open>held\<close>; \<open>exact\<close> when the store has no failures.\<close>

definition read_truthful :: "bool \<Rightarrow> (string \<Rightarrow> bytes option) \<Rightarrow> string \<Rightarrow> store_error + reader \<Rightarrow> bool" where
  "read_truthful exact held k res \<longleftrightarrow>
     (case res of
        Inr r \<Rightarrow> \<exists>d. held k = Some d \<and> delivers r d \<and> (exact \<longrightarrow> r = bytesReader d)
      | Inl e \<Rightarrow> if is_NotExist e then held k = None else \<not> exact)"

fun gpc_ok :: "bool \<Rightarrow> (string \<Rightarrow> bytes option) \<Rightarrow> int \<Rightarrow> gpc \<Rightarrow> bool" where
  "gpc_ok exact held mx (GOpen k) = isBlobKey k"
| "gpc_ok exact held mx (GBuffer k rc n) =
     (isBlobKey k \<and> 0 \<le> n \<and> n \<le> mx \<and> rd_size rc = Some n \<and> (\<exists>d. held k = Some d \<and> delivers rc d \<and> (exact \<longrightarrow> rc = bytesReader d)))"
| "gpc_ok exact held mx (GAdd k data) = (isBlobKey k \<and> int (length data) \<le> mx \<and> held k = Some data)"
| "gpc_ok exact held mx (GDone k res) = read_truthful exact held k res"
| "gpc_ok exact held mx GStuck = False"
| "gpc_ok exact held mx _ = True"

fun gpc_key :: "gpc \<Rightarrow> string option" where
  "gpc_key (GStart k) = Some k"
| "gpc_key (GOpen k) = Some k"
| "gpc_key (GBuffer k _ _) = Some k"
| "gpc_key (GAdd k _) = Some k"
| "gpc_key (GDone k _) = Some k"
| "gpc_key _ = None"

definition cs_kept where
  "cs_kept iv objs held cap mx c \<longleftrightarrow>
     cs_invar iv objs c \<and> objs (cs_inner c) = held \<and> bc_bytesCap (cs_cache c) = cap \<and> cs_maxBlobBytes c = mx"

lemma cs_kept_cache:
  assumes "cs_kept iv objs held cap mx c" "bc_get k (cs_cache c) = (hit, bc)"
  shows "cs_kept iv objs held cap mx (c\<lparr>cs_cache := bc\<rparr>)" "hit = Some d \<Longrightarrow> held k = Some d"
proof -
  have inv: "bc_invar (cs_cache c)" using assms(1) by (simp add: cs_kept_def cs_invar_def)
  have b: "bc_invar bc" "bc_lookup bc = bc_lookup (cs_cache c)" "hit = bc_lookup (cs_cache c) k"
      "bc_bytesCap bc = bc_bytesCap (cs_cache c)"
    using bc.get_invar [OF inv, of k] bc.get_lookup [OF inv, of k] bc.get_value [OF inv, of k]
      bc_get_spec [OF bc_invar_wf [OF inv], of k] assms(2) by auto
  with assms(1) show "cs_kept iv objs held cap mx (c\<lparr>cs_cache := bc\<rparr>)" by (auto simp: cs_kept_def cs_invar_def)
  show "hit = Some d \<Longrightarrow> held k = Some d" using assms(1) b(3) by (auto simp: cs_kept_def cs_invar_def)
qed

lemma cs_kept_add:
  assumes "cs_kept iv objs held cap mx c" "isBlobKey k" "int (length d) \<le> mx" "held k = Some d"
  shows "\<exists>bc. bc_add k d (cs_cache c) = Some bc \<and> cs_kept iv objs held cap mx (c\<lparr>cs_cache := bc\<rparr>)"
proof -
  have inv: "bc_invar (cs_cache c)" using assms(1) by (simp add: cs_kept_def cs_invar_def)
  obtain bc where bc: "bc_add k d (cs_cache c) = Some bc" "bc_invar bc" "bc_bytesCap bc = bc_bytesCap (cs_cache c)"
      "\<forall>q w. bc_lookup bc q = Some w \<longrightarrow> bc_lookup (cs_cache c) q = Some w \<or> q = k \<and> w = d"
    using bc_lookup_add [OF inv, of k d] by blast
  have "cs_kept iv objs held cap mx (c\<lparr>cs_cache := bc\<rparr>)"
    using assms bc(2,3,4) by (fastforce simp: cs_kept_def cs_invar_def)
  with bc(1) show ?thesis by blast
qed

context object_store
begin

lemma cs_kept_inner:
  assumes "cs_kept invar objs held cap mx c" "get k (cs_inner c) = (res, s)"
  shows "cs_kept invar objs held cap mx (c\<lparr>cs_inner := s\<rparr>)" "invar (cs_inner c)" "objs (cs_inner c) = held"
proof -
  show iv: "invar (cs_inner c)" "objs (cs_inner c) = held" using assms(1) by (simp_all add: cs_kept_def cs_invar_def)
  note st = get_step [OF iv(1) assms(2)]
  with assms(1) show "cs_kept invar objs held cap mx (c\<lparr>cs_inner := s\<rparr>)" by (auto simp: cs_kept_def cs_invar_def)
qed

lemma gstep_ok:
  assumes c: "cs_kept invar objs held cap mx c" and p: "gpc_ok exact held mx p" and st: "gstep get (p, c) = (p', c')"
    and inner: "\<And>s k. invar s \<Longrightarrow> read_truthful exact (objs s) k (fst (get k s))"
  shows "cs_kept invar objs held cap mx c' \<and> gpc_ok exact held mx p' \<and> gpc_key p' = gpc_key p"
proof (cases p)
  case (GStart k)
  show ?thesis
  proof (cases "isBlobKey k")
    case False
    obtain res s where g: "get k (cs_inner c) = (res, s)" by fastforce
    note kept = cs_kept_inner [OF c g]
    from inner [OF kept(2), of k] g kept(3) have "read_truthful exact held k res" by simp
    with False GStart st g kept show ?thesis by auto
  next
    case True
    obtain hit bc where g: "bc_get k (cs_cache c) = (hit, bc)" by fastforce
    with True GStart st cs_kept_cache [OF c g] show ?thesis
      by (cases hit) (auto simp: read_truthful_def delivers_bytesReader)
  qed
next
  case (GOpen k)
  obtain res s where g: "get k (cs_inner c) = (res, s)" by fastforce
  note kept = cs_kept_inner [OF c g]
  from inner [OF kept(2), of k] g kept(3) have tr: "read_truthful exact held k res" by simp
  have mx: "cs_maxBlobBytes c = mx" using c by (simp add: cs_kept_def)
  show ?thesis
  proof (cases res)
    case (Inl e)
    with GOpen g st kept tr show ?thesis by auto
  next
    case (Inr rc)
    show ?thesis
    proof (cases "\<exists>n. rd_size rc = Some n \<and> 0 \<le> n \<and> n \<le> mx")
      case False
      then have "p' = GDone k (Inr rc)" "c' = c\<lparr>cs_inner := s\<rparr>"
        using GOpen g st Inr mx by (auto split: option.splits if_splits)
      with tr kept(1) Inr GOpen show ?thesis by simp
    next
      case True
      then obtain n where n: "rd_size rc = Some n" "0 \<le> n" "n \<le> mx" by blast
      then have "p' = GBuffer k rc n" "c' = c\<lparr>cs_inner := s\<rparr>"
        using GOpen g st Inr mx by auto
      with tr kept(1) Inr GOpen p n show ?thesis by (simp add: read_truthful_def)
    qed
  qed
next
  case (GBuffer k rc n)
  then obtain d where d: "held k = Some d" "delivers rc d" "rd_size rc = Some n" "0 \<le> n" "n \<le> mx" "isBlobKey k"
      "exact \<longrightarrow> rc = bytesReader d"
    using p by auto
  show ?thesis
  proof (cases "ReadFull rc (nat n)")
    case (Inl e)
    with delivers_ReadFull_error d(2) have "\<not> is_NotExist e" by blast
    moreover have "\<not> exact" using d(3,7) Inl by (auto simp: ReadFull_def bytesReader_def)
    ultimately show ?thesis using Inl GBuffer st c by (auto simp: read_truthful_def)
  next
    case (Inr data)
    with d have "data = d" using delivers_ReadFull by blast
    moreover have "n = int (length d)" using d(2,3,4) by (auto simp: delivers_def)
    ultimately show ?thesis using Inr GBuffer st c d by auto
  qed
next
  case (GAdd k data)
  with p obtain bc where "bc_add k data (cs_cache c) = Some bc" "cs_kept invar objs held cap mx (c\<lparr>cs_cache := bc\<rparr>)"
    using cs_kept_add [OF c, of k data] by auto
  with GAdd st p show ?thesis by (auto simp: read_truthful_def delivers_bytesReader)
qed (use assms in auto)

lemma gets_run_ok:
  assumes inner: "\<And>s k. invar s \<Longrightarrow> read_truthful exact (objs s) k (fst (get k s))"
    and "gets_run get s0 s" "cs_kept invar objs held cap mx (snd s0)" "\<And>t. gpc_ok exact held mx (fst s0 t)"
  shows "cs_kept invar objs held cap mx (snd s) \<and> (\<forall>t. gpc_ok exact held mx (fst s t) \<and> gpc_key (fst s t) = gpc_key (fst s0 t))"
  using assms(2-4)
proof (induction rule: gets_run.induct)
  case (gets_step s0 s t)
  note IH = gets_step.IH [OF gets_step.prems]
  obtain p c where st: "gstep get (fst s t, snd s) = (p, c)" by fastforce
  from gstep_ok [OF conjunct1 [OF IH] _ st inner] IH
  have "cs_kept invar objs held cap mx c \<and> gpc_ok exact held mx p \<and> gpc_key p = gpc_key (fst s t)" by blast
  with IH st show ?case by (simp add: gstep_thread_def)
qed simp

lemma inner_truthful: "invar s \<Longrightarrow> read_truthful False (objs s) k (fst (get k s))"
  using get_sound [of s k] get_absent [of s k] by (auto simp: read_truthful_def split: sum.split)

end

context reliable_store
begin

lemma inner_exact: "invar s \<Longrightarrow> read_truthful True (objs s) k (fst (get k s))"
  using get_result [of s k] by (auto simp: read_truthful_def delivers_bytesReader split: option.splits sum.split)

end

text \<open>C9: safety. Concurrent reads through the caching store, over any store that keeps its contract: in every
  interleaving the cache holds only stored blobs, within its byte budget; no eviction loop spins with the
  mutex held; and a read that finishes delivers its own object, or a truthful error. Over a store without
  failures it delivers exactly the object, or that there is none.\<close>

theorem concurrent_reads_sound:
  assumes st: "object_store iv objs inner_Get" and c0: "cs_invar iv objs c0"
    and start: "\<forall>t. pcs0 t = GIdle \<or> (\<exists>k. pcs0 t = GStart k)"
    and run: "gets_run inner_Get (pcs0, c0) (pcs, c)"
  shows "cs_invar iv objs c \<and> objs (cs_inner c) = objs (cs_inner c0) \<and>
    (\<Sum>e\<leftarrow>bc_entries (cs_cache c). int (length (be_data e))) \<le> bc_bytesCap (cs_cache c0) \<and>
    (\<forall>t. pcs t \<noteq> GStuck \<and> (\<forall>k res. pcs t = GDone k res \<longrightarrow> pcs0 t = GStart k \<and>
       read_truthful False (objs (cs_inner c0)) k res \<and>
       (reliable_store iv objs inner_Get \<longrightarrow> read_truthful True (objs (cs_inner c0)) k res)))"
proof -
  let ?held = "objs (cs_inner c0)"
  have kept: "cs_kept iv objs ?held (bc_bytesCap (cs_cache c0)) (cs_maxBlobBytes c0) (snd (pcs0, c0))"
    using c0 by (simp add: cs_kept_def)
  have ok: "gpc_ok exact ?held (cs_maxBlobBytes c0) (fst (pcs0, c0) t)" for exact t
    using start by (cases "pcs0 t = GIdle") auto
  note r = object_store.gets_run_ok [OF st object_store.inner_truthful [OF st] run kept ok]
  have exact: "read_truthful True ?held k res" if "reliable_store iv objs inner_Get" "pcs t = GDone k res" for t k res
  proof -
    have "\<forall>t. gpc_ok True ?held (cs_maxBlobBytes c0) (fst (pcs, c) t)"
      using object_store.gets_run_ok [OF st reliable_store.inner_exact [OF that(1)] run kept ok] by blast
    with that(2) show ?thesis by (metis fst_conv gpc_ok.simps(4))
  qed
  have key: "pcs0 t = GStart k" if "pcs t = GDone k res" for t k res
  proof -
    have "gpc_key (pcs t) = gpc_key (pcs0 t)" using r by simp
    with that start show ?thesis by (metis gpc_key.simps(1,5,6) option.distinct(1) option.inject)
  qed
  have inv: "cs_invar iv objs c" "objs (cs_inner c) = ?held" "bc_bytesCap (cs_cache c) = bc_bytesCap (cs_cache c0)"
    using r by (simp_all add: cs_kept_def)
  then have "(\<Sum>e\<leftarrow>bc_entries (cs_cache c). int (length (be_data e))) \<le> bc_bytesCap (cs_cache c0)"
    by (simp add: cs_invar_def bc_invar_def bc_wf_def sum_be_size)
  moreover have "pcs t \<noteq> GStuck \<and> (\<forall>k res. pcs t = GDone k res \<longrightarrow> read_truthful False ?held k res)" for t
    using r by (cases "pcs t") (auto dest: spec [of _ t])
  ultimately show ?thesis using inv exact key by blast
qed

subsection \<open>One read alone\<close>

lemma gstep_end: "gstep g (GDone k res, c) = (GDone k res, c)" "gstep g (GStuck, c) = (GStuck, c)"
  by simp_all

text \<open>A read that meets no other does in at most four atomic steps what \<open>CachingStore_Get\<close> does
  in one: the same result and the same store; and it is stuck exactly when that does not return.\<close>

theorem lone_read_is_Get:
  "\<exists>i \<le> 4. case CachingStore_Get g k c of
     Some (res, c') \<Rightarrow> (gstep g ^^ i) (GStart k, c) = (GDone k res, c')
   | None \<Rightarrow> fst ((gstep g ^^ i) (GStart k, c)) = GStuck"
proof (cases "isBlobKey k")
  case False
  obtain res s where "g k (cs_inner c) = (res, s)" by (meson surj_pair)
  with False show ?thesis
    by (intro exI [of _ 1]) (simp add: CachingStore_Get_def)
next
  case blob: True
  obtain hit bc where bg: "bc_get k (cs_cache c) = (hit, bc)" by (meson surj_pair)
  show ?thesis
  proof (cases hit)
    case (Some d)
    with blob bg show ?thesis by (intro exI [of _ 1]) (simp add: CachingStore_Get_def)
  next
    case None
    let ?c1 = "c\<lparr>cs_cache := bc\<rparr>"
    have st1: "gstep g (GStart k, c) = (GOpen k, ?c1)" using blob bg None by simp
    obtain res s where g: "g k (cs_inner c) = (res, s)" by (meson surj_pair)
    let ?c2 = "?c1\<lparr>cs_inner := s\<rparr>"
    show ?thesis
    proof (cases "\<exists>rc n. res = Inr rc \<and> rd_size rc = Some n \<and> 0 \<le> n \<and> n \<le> cs_maxBlobBytes c")
      case False
      have "gstep g (GOpen k, ?c1) = (GDone k res, ?c2) \<and> CachingStore_Get g k c = Some (res, ?c2)"
      proof (cases res)
        case (Inl e)
        with g blob bg None show ?thesis by (simp add: CachingStore_Get_def)
      next
        case (Inr rc)
        with False have "rd_size rc = Some n \<longrightarrow> n < 0 \<or> cs_maxBlobBytes c < n" for n by (cases "n < 0") auto
        with g blob bg None Inr show ?thesis
          by (cases "rd_size rc") (simp_all add: CachingStore_Get_def)
      qed
      with st1 show ?thesis by (intro exI [of _ 2]) (simp add: eval_nat_numeral)
    next
      case True
      then obtain rc n where n: "res = Inr rc" "rd_size rc = Some n" "0 \<le> n" "n \<le> cs_maxBlobBytes c" by blast
      have st2: "gstep g (GOpen k, ?c1) = (GBuffer k rc n, ?c2)" using g n by simp
      show ?thesis
      proof (cases "ReadFull rc (nat n)")
        case (Inl e)
        then have "CachingStore_Get g k c = Some (Inl e, ?c2)"
          using g blob bg None n by (simp add: CachingStore_Get_def)
        with Inl st1 st2 show ?thesis by (intro exI [of _ 3]) (simp add: eval_nat_numeral)
      next
        case (Inr data)
        then have st3: "gstep g (GBuffer k rc n, ?c2) = (GAdd k data, ?c2)" by simp
        have G: "CachingStore_Get g k c = (case bc_add k data bc of None \<Rightarrow> None
            | Some bc' \<Rightarrow> Some (Inr (bytesReader data), ?c2\<lparr>cs_cache := bc'\<rparr>))"
          using g blob bg None n Inr by (simp add: CachingStore_Get_def split: option.split)
        have "(gstep g ^^ 4) (GStart k, c) = gstep g (GAdd k data, ?c2)"
          using st1 st2 st3 by (simp add: eval_nat_numeral)
        with G show ?thesis by (intro exI [of _ 4]) (simp split: option.split)
      qed
    qed
  qed
qed

subsection \<open>Two readers of one blob\<close>

declare bc_evict_loop.simps [code]

definition demo_readers :: "nat \<Rightarrow> gpc" where
  "demo_readers = (\<lambda>_. GIdle)(0 := GStart ''sites/a/b/blobs/s'', 1 := GStart ''sites/a/b/blobs/s'')"

lemma gets_schedule: "gets_run g s0 s \<Longrightarrow> gets_run g s0 (fold (gstep_thread g) ts s)"
proof (induction ts arbitrary: s)
  case (Cons t ts)
  from Cons.IH [OF gets_run.gets_step [OF Cons.prems]] show ?case by simp
qed simp

definition demo_reads :: "(nat \<Rightarrow> gpc) \<times> Fake CachingStore" where
  "demo_reads = fold (gstep_thread fake_Get) [0, 1, 0, 1, 1, 0, 1, 0] (demo_readers, demo_cs)"

lemma concurrent_reads_sound_witness:
  "\<exists>r. fst demo_reads 1 = GDone ''sites/a/b/blobs/s'' (Inr r) \<and> r = bytesReader ''tiny''"
proof -
  have run: "gets_run fake_Get (demo_readers, demo_cs) (fst demo_reads, snd demo_reads)"
    unfolding prod.collapse demo_reads_def by (intro gets_schedule gets_run.gets_start)
  have start: "\<forall>t. demo_readers t = GIdle \<or> (\<exists>k. demo_readers t = GStart k)" by (simp add: demo_readers_def)
  have held: "fake_objs (cs_inner demo_cs) ''sites/a/b/blobs/s'' = Some ''tiny''" by code_simp
  have "case fst demo_reads 1 of GDone q (Inr r) \<Rightarrow> q = ''sites/a/b/blobs/s'' | _ \<Rightarrow> False" by code_simp
  then obtain r where r: "fst demo_reads 1 = GDone ''sites/a/b/blobs/s'' (Inr r)"
    by (auto split: gpc.splits sum.splits)
  then have "read_truthful True (fake_objs (cs_inner demo_cs)) ''sites/a/b/blobs/s'' (Inr r)"
    using concurrent_reads_sound [OF fake.object_store_axioms demo_cs_invar start run] fake.reliable_store_axioms by blast
  with r held show ?thesis by (simp add: read_truthful_def)
qed

end
