(* ===== verification/InterleavedGateway.thy ===== *)
theory InterleavedGateway
  imports ConcurrentGateway CacheRace
begin

section \<open>Overlapping requests with interleaved reads\<close>

text \<open>
  \<open>ConcurrentGateway\<close> again, with the reads of the store split up: a request that opens an object does so by
  the atomic steps of \<open>CacheRace\<close> (cache lookup, opening the object, reading it into the buffer, cache
  insertion), and other requests take their steps in between. So two requests may both miss one blob and
  both fill the cache, and a blob may be evicted between another's miss and its insertion.

  This theory has the steps, the invariant that ties each read to the request it belongs to, and what needs no
  more than that: every request is answered, and the caches keep their bounds. \<^verbatim>\<open>ObserveRequest\<close>,
  \<^verbatim>\<open>AddResponseBytes\<close> and a sweep are single steps here, as in \<open>ConcurrentGateway\<close>; \<open>MetricsRace\<close> splits them.
  \<open>InterleavedAnswers\<close> shows what the answers are.
\<close>

subsection \<open>The object a response needs\<close>

text \<open>Which object \<^verbatim>\<open>serveBlob\<close> opens, if it opens one, and which one the answer of a request needs.\<close>

definition wanted_blob :: "(string \<Rightarrow> gotime option) \<Rightarrow> request \<Rightarrow> site \<Rightarrow> Manifest \<Rightarrow> File \<Rightarrow> nat \<Rightarrow> string option" where
  "wanted_blob pt r s m entry status =
     (if status = StatusOK \<and> conditionalNotModified pt r (ETag (Blob entry)) (ModTime m) then None
      else if rq_Method r = MethodHead then None
      else Some (BlobKey (s_project s) (s_name s) (Blob entry)))"

definition wanted :: "(string \<Rightarrow> gotime option) \<Rightarrow> request \<Rightarrow> site \<Rightarrow> lm_error + Manifest \<Rightarrow> string option" where
  "wanted pt r s res =
     (case res of
        Inl err \<Rightarrow> None
      | Inr m \<Rightarrow>
          (let rs = Resolve (s_rest s) (\<lambda>p. snd (Lookup m p)) (SPA m) in
           case Kind rs of
             Hit \<Rightarrow> wanted_blob pt r s m (fst (Lookup m (Path rs))) StatusOK
           | SPAFallback \<Rightarrow> wanted_blob pt r s m (fst (Lookup m (Path rs))) StatusOK
           | NotFound \<Rightarrow>
               (case Lookup m (NotFoundDoc m) of
                  (entry, True) \<Rightarrow> wanted_blob pt r s m entry StatusNotFound
                | (_, False) \<Rightarrow> None)))"

text \<open>The rest of a response once its read has come back.\<close>

definition with_result :: "store_error + reader \<Rightarrow> ('s, 'v) env \<Rightarrow> ('s, 'v) env" where
  "with_result res env = env\<lparr>e_Get := (\<lambda>_ st. (res, st))\<rparr>"

lemma with_result_simps [simp]:
  "e_counters (with_result rd env) = e_counters env" "e_now (with_result rd env) = e_now env"
  "e_ParseTime (with_result rd env) = e_ParseTime env" "e_Get (with_result rd env) k st = (rd, st)"
  by (simp_all add: with_result_def)

subsection \<open>The server\<close>

text \<open>One step of a read through what \<^verbatim>\<open>NewCachingStore\<close> returned: with no cache, the inner store's read.\<close>

fun store_step :: "(string \<Rightarrow> 's \<Rightarrow> (store_error + reader) \<times> 's) \<Rightarrow> gpc \<times> 's Store \<Rightarrow> gpc \<times> 's Store" where
  "store_step g (p, Caching c) = (case gstep g (p, c) of (p', c') \<Rightarrow> (p', Caching c'))"
| "store_step g (GStart k, Unwrapped s) = (case g k s of (res, s') \<Rightarrow> (GDone k res, Unwrapped s'))"
| "store_step g (p, Unwrapped s) = (p, Unwrapped s)"

fun reading :: "gpc \<Rightarrow> bool" where
  "reading GIdle = False"
| "reading (GDone _ _) = False"
| "reading GStuck = False"
| "reading _ = True"

record ('s, 'v, 'g) fine =
  fn_server :: "('s Store, 'v, 'g) server"
  fn_read :: "thread \<Rightarrow> gpc"

abbreviation fn_pc :: "('s, 'v, 'g) fine \<Rightarrow> thread \<Rightarrow> pc" where
  "fn_pc s t \<equiv> ld_pc (sv_loads (fn_server s)) t"

abbreviation fn_phase :: "('s, 'v, 'g) fine \<Rightarrow> thread \<Rightarrow> phase" where
  "fn_phase s t \<equiv> sv_phase (fn_server s) t"

abbreviation fn_store :: "('s, 'v, 'g) fine \<Rightarrow> 's Store" where
  "fn_store s \<equiv> w_store (sv_world (fn_server s))"

definition read_to :: "thread \<Rightarrow> gpc \<Rightarrow> ('s, 'v, 'g) fine \<Rightarrow> ('s, 'v, 'g) fine" where
  "read_to t p s = s\<lparr>fn_read := (fn_read s)(t := p)\<rparr>"

definition put_loads :: "('s Store, 'v, 'g) loaders \<Rightarrow> ('s, 'v, 'g) fine \<Rightarrow> ('s, 'v, 'g) fine" where
  "put_loads l s = s\<lparr>fn_server := (fn_server s)\<lparr>sv_loads := l\<rparr>\<rparr>"

text \<open>A read step, and the leader's load with the result of its read.\<close>

definition read_step :: "(string \<Rightarrow> 's \<Rightarrow> (store_error + reader) \<times> 's) \<Rightarrow> thread \<Rightarrow> ('s, 'v, 'g) fine \<Rightarrow> ('s, 'v, 'g) fine" where
  "read_step g t s =
     (case store_step g (fn_read s t, fn_store s) of
        (p, st) \<Rightarrow> read_to t p (put_loads ((sv_loads (fn_server s))\<lparr>ld_world := (sv_world (fn_server s))\<lparr>w_store := st\<rparr>\<rparr>) s))"

definition fetch_step :: "thread \<Rightarrow> string \<Rightarrow> store_error + reader \<Rightarrow> ('s, 'v, 'g) fine \<Rightarrow> ('s, 'v, 'g) fine" where
  "fetch_step t k res s =
     read_to t GIdle (put_loads
       (goto t (case res of Inl err \<Rightarrow> LLeave k (Inl (StoreFailure err)) | Inr rc \<Rightarrow> LParse k rc)
          (sv_world (fn_server s)) (sv_loads (fn_server s))) s)"

inductive fine_turn :: "(string \<Rightarrow> 's \<Rightarrow> (store_error + reader) \<times> 's) \<Rightarrow> ('s Store, 'v) env \<Rightarrow> 'g flight_ops \<Rightarrow>
   thread \<Rightarrow> ('s, 'v, 'g) fine \<Rightarrow> ('s, 'v, 'g) fine \<Rightarrow> bool" for g env ops where
  f_accepts: "fn_phase s t = Incoming r room \<Longrightarrow>
    fine_turn g env ops t s (s\<lparr>fn_server := accept (at_time now env) t r room (fn_server s)\<rparr>)"
| f_loads: "fn_phase s t = Loading r room st \<Longrightarrow> runnable (fn_pc s t) \<Longrightarrow> \<forall>k. fn_pc s t \<noteq> LFetch k \<Longrightarrow>
    fine_turn g env ops t s (put_loads (load_step env ops t (sv_loads (fn_server s))) s)"
| f_opens: "fn_phase s t = Loading r room st \<Longrightarrow> fn_pc s t = LFetch k \<Longrightarrow> fn_read s t = GIdle \<Longrightarrow>
    fine_turn g env ops t s (read_to t (GStart k) s)"
| f_wants: "fn_phase s t = Loading r room st \<Longrightarrow> fn_pc s t = LDone q res \<Longrightarrow>
    wanted (e_ParseTime env) r st res = Some k \<Longrightarrow> fn_read s t = GIdle \<Longrightarrow>
    fine_turn g env ops t s (read_to t (GStart k) s)"
| f_reads: "reading (fn_read s t) \<Longrightarrow> fine_turn g env ops t s (read_step g t s)"
| f_fetches: "fn_phase s t = Loading r room st \<Longrightarrow> fn_pc s t = LFetch k \<Longrightarrow> fn_read s t = GDone q res \<Longrightarrow>
    fine_turn g env ops t s (fetch_step t k res s)"
| f_answers: "fn_phase s t = Loading r room st \<Longrightarrow> fn_pc s t = LDone q res \<Longrightarrow>
    wanted (e_ParseTime env) r st res = None \<Longrightarrow>
    fine_turn g env ops t s (s\<lparr>fn_server := finish (at_time now env) t r room st res (fn_server s)\<rparr>)"
| f_serves: "fn_phase s t = Loading r room st \<Longrightarrow> fn_pc s t = LDone q res \<Longrightarrow>
    wanted (e_ParseTime env) r st res = Some k \<Longrightarrow> fn_read s t = GDone k' rd \<Longrightarrow>
    fine_turn g env ops t s (read_to t GIdle
      (s\<lparr>fn_server := finish (at_time now (with_result rd env)) t r room st res (fn_server s)\<rparr>))"

definition fine_step :: "(string \<Rightarrow> 's \<Rightarrow> (store_error + reader) \<times> 's) \<Rightarrow> ('s Store, 'v) env \<Rightarrow> 'g flight_ops \<Rightarrow>
   ('s, 'v, 'g) fine \<Rightarrow> ('s, 'v, 'g) fine \<Rightarrow> bool" where
  "fine_step g env ops s s' \<longleftrightarrow> (\<exists>t. fine_turn g env ops t s s')"

lemma fine_stepI: "fine_turn g env ops t s s' \<Longrightarrow> fine_step g env ops s s'"
  unfolding fine_step_def by (rule exI)

text \<open>A run, counting steps, with sweeps in between.\<close>

inductive fine_run :: "(string \<Rightarrow> 's \<Rightarrow> (store_error + reader) \<times> 's) \<Rightarrow> ('s Store, 'v) env \<Rightarrow> 'g flight_ops \<Rightarrow> nat \<Rightarrow>
   ('s, 'v, 'g) fine \<Rightarrow> ('s, 'v, 'g) fine \<Rightarrow> bool" for g env ops where
  f_start: "fine_run g env ops 0 s s"
| f_step: "fine_run g env ops n s s' \<Longrightarrow> fine_turn g env ops t s' s'' \<Longrightarrow> fine_run g env ops (Suc n) s s''"
| f_sweep: "fine_run g env ops n s s' \<Longrightarrow> fine_run g env ops n s (put_loads ((sv_loads (fn_server s'))\<lparr>ld_world :=
    (sv_world (fn_server s'))\<lparr>w_metrics := evictIdle (e_counters env) visit now ttl (w_metrics (sv_world (fn_server s')))\<rparr>\<rparr>) s')"

text \<open>The same, recording which thread takes each step.\<close>

inductive fine_trace :: "(string \<Rightarrow> 's \<Rightarrow> (store_error + reader) \<times> 's) \<Rightarrow> ('s Store, 'v) env \<Rightarrow> 'g flight_ops \<Rightarrow>
   thread list \<Rightarrow> ('s, 'v, 'g) fine \<Rightarrow> ('s, 'v, 'g) fine \<Rightarrow> bool" for g env ops where
  t_start: "fine_trace g env ops [] s s"
| t_turn: "fine_trace g env ops ts s s' \<Longrightarrow> fine_turn g env ops t s' s'' \<Longrightarrow> fine_trace g env ops (ts @ [t]) s s''"
| t_sweep: "fine_trace g env ops ts s s' \<Longrightarrow> fine_trace g env ops ts s (put_loads ((sv_loads (fn_server s'))\<lparr>ld_world :=
    (sv_world (fn_server s'))\<lparr>w_metrics := evictIdle (e_counters env) visit now ttl (w_metrics (sv_world (fn_server s')))\<rparr>\<rparr>) s')"

lemma fine_trace_run: "fine_trace g env ops ts s0 s \<Longrightarrow> fine_run g env ops (length ts) s0 s"
  by (induction rule: fine_trace.induct) (auto intro: fine_run.intros)

lemma fine_run_trace: "fine_run g env ops n s0 s \<Longrightarrow> \<exists>ts. length ts = n \<and> fine_trace g env ops ts s0 s"
proof (induction rule: fine_run.induct)
  case (f_step n s s' t s'')
  then obtain ts where "length ts = n" "fine_trace g env ops ts s s'" by blast
  with fine_trace.t_turn [OF this(2) f_step.hyps(2)] show ?case by (intro exI [of _ "ts @ [t]"]) simp
qed (auto intro: fine_trace.intros)

subsection \<open>Steps of a read\<close>

fun store_max :: "'s Store \<Rightarrow> int" where
  "store_max (Caching c) = cs_maxBlobBytes c"
| "store_max (Unwrapped _) = 0"

fun at_ends :: "gpc \<Rightarrow> bool" where
  "at_ends (GOpen _) = False"
| "at_ends (GBuffer _ _ _) = False"
| "at_ends (GAdd _ _) = False"
| "at_ends _ = True"

fun store_cap :: "'s Store \<Rightarrow> int option" where
  "store_cap (Caching c) = Some (bc_bytesCap (cs_cache c))"
| "store_cap (Unwrapped _) = None"

definition read_ok :: "bool \<Rightarrow> (string \<Rightarrow> bytes option) \<Rightarrow> 's Store \<Rightarrow> gpc \<Rightarrow> bool" where
  "read_ok exact held st p \<longleftrightarrow> gpc_ok exact held (store_max st) p \<and> (store_cap st = None \<longrightarrow> at_ends p)"

fun read_left :: "gpc \<Rightarrow> nat" where
  "read_left GIdle = 5"
| "read_left (GStart _) = 4"
| "read_left (GOpen _) = 3"
| "read_left (GBuffer _ _ _) = 2"
| "read_left (GAdd _ _) = 1"
| "read_left _ = 0"

lemma gstep_left: "reading p \<Longrightarrow> gstep g (p, c) = (p', c') \<Longrightarrow> read_left p' < read_left p"
  by (cases p) (auto split: prod.splits sum.splits option.splits if_splits)

context object_store
begin

lemma store_step_ok:
  assumes inner: "\<forall>s k. invar s \<longrightarrow> read_truthful exact (objs s) k (fst (get k s))"
    and st: "store_invar invar objs st" "store_objs objs st = held" and p: "read_ok exact held st p" "reading p"
    and step: "store_step get (p, st) = (p', st')"
  shows "store_invar invar objs st' \<and> store_objs objs st' = held \<and> store_cap st' = store_cap st \<and>
    store_max st' = store_max st \<and> read_ok exact held st' p' \<and> gpc_key p' = gpc_key p \<and> read_left p' < read_left p"
proof (cases st)
  case (Unwrapped s)
  with p obtain k where k: "p = GStart k" by (cases p) (auto simp: read_ok_def)
  obtain res s' where g: "get k s = (res, s')" by fastforce
  have iv: "invar s" "objs s = held" using st Unwrapped by simp_all
  have "read_truthful exact held k res" using inner [rule_format, OF iv(1), of k] iv g by simp
  then show ?thesis
    using step get_step [OF iv(1) g] g iv(2) unfolding Unwrapped k by (auto simp: read_ok_def)
next
  case (Caching c)
  obtain q c' where g: "gstep get (p, c) = (q, c')" by fastforce
  with step Caching have r: "p' = q" "st' = Caching c'" by simp_all
  have kept: "cs_kept invar objs held (bc_bytesCap (cs_cache c)) (cs_maxBlobBytes c) c"
    using st Caching by (simp add: cs_kept_def cs_objs_def)
  have pk: "gpc_ok exact held (cs_maxBlobBytes c) p" using p(1) Caching by (simp add: read_ok_def)
  have "cs_kept invar objs held (bc_bytesCap (cs_cache c)) (cs_maxBlobBytes c) c' \<and>
      gpc_ok exact held (cs_maxBlobBytes c) q \<and> gpc_key q = gpc_key p"
    by (rule gstep_ok [OF kept pk g]) (use inner in blast)
  with st(1) gstep_left [OF p(2) g] show ?thesis
    unfolding r Caching by (auto simp: read_ok_def cs_kept_def cs_objs_def)
qed

end

subsection \<open>The invariant\<close>

text \<open>A read belongs to the load or to the answer its request is at.\<close>

definition read_fits :: "(string \<Rightarrow> gotime option) \<Rightarrow> pc \<Rightarrow> phase \<Rightarrow> gpc \<Rightarrow> bool" where
  "read_fits pt pc ph p \<longleftrightarrow> p = GIdle \<or>
     (\<exists>k r room st. gpc_key p = Some k \<and> ph = Loading r room st \<and>
       (pc = LFetch k \<or> (\<exists>q res. pc = LDone q res \<and> wanted pt r st res = Some k)))"

lemma read_fits_idle [simp]: "read_fits pt pc ph GIdle"
  by (simp add: read_fits_def)

lemma read_fits_pc:
  "read_fits pt pc ph p \<Longrightarrow> p \<noteq> GIdle \<Longrightarrow> (\<exists>k. pc = LFetch k) \<or> (\<exists>q res. pc = LDone q res)"
  by (auto simp: read_fits_def)

lemma read_fits_phase: "read_fits pt pc ph p \<Longrightarrow> p \<noteq> GIdle \<Longrightarrow> \<exists>r room st. ph = Loading r room st"
  by (auto simp: read_fits_def)

definition fine_ok where
  "fine_ok exact ok leader waiting iv objs held env s \<longleftrightarrow>
     shape_ok ok leader waiting (fn_server s) \<and> store_invar iv objs (fn_store s) \<and> store_objs objs (fn_store s) = held \<and>
     (\<forall>t. read_ok exact held (fn_store s) (fn_read s t) \<and> read_fits (e_ParseTime env) (fn_pc s t) (fn_phase s t) (fn_read s t))"

lemma fine_okD:
  assumes "fine_ok exact ok leader waiting iv objs held env s"
  shows "shape_ok ok leader waiting (fn_server s)" "store_invar iv objs (fn_store s)" "store_objs objs (fn_store s) = held"
    "read_ok exact held (fn_store s) (fn_read s t)" "read_fits (e_ParseTime env) (fn_pc s t) (fn_phase s t) (fn_read s t)"
  using assms by (simp_all add: fine_ok_def)

lemma read_ok_idle [simp]: "read_ok exact held st GIdle" "read_ok exact held st (GStart k)"
  by (simp_all add: read_ok_def)

text \<open>A change of the server that keeps the store and the threads whose reads are going.\<close>

lemma fine_ok_server:
  assumes i: "fine_ok exact ok leader waiting iv objs held env s"
    and sh: "shape_ok ok leader waiting sv" and st: "w_store (sv_world sv) = fn_store s"
    and u: "\<And>u. rd u \<noteq> GIdle \<Longrightarrow> rd u = fn_read s u \<and> ld_pc (sv_loads sv) u = fn_pc s u \<and> sv_phase sv u = fn_phase s u"
  shows "fine_ok exact ok leader waiting iv objs held env \<lparr>fn_server = sv, fn_read = rd\<rparr>"
proof -
  have "read_ok exact held (fn_store s) (rd t) \<and> read_fits (e_ParseTime env) (ld_pc (sv_loads sv) t) (sv_phase sv t) (rd t)" for t
    using u [of t] fine_okD(4,5) [OF i, of t] by (cases "rd t = GIdle") auto
  with sh st fine_okD(2,3) [OF i] show ?thesis by (simp add: fine_ok_def)
qed

lemma load_step_store:
  "\<forall>k. ld_pc l t \<noteq> LFetch k \<Longrightarrow> w_store (ld_world (load_step env ops t l)) = w_store (ld_world l)"
  by (cases "ld_pc l t") (auto simp: load_step_def Let_def split: prod.split option.split sum.split)

lemma accept_store: "w_store (sv_world (accept env t r room s)) = w_store (sv_world s)"
  by (simp add: accept_def Let_def observe_def split: option.split)

lemma accept_others: "u \<noteq> t \<Longrightarrow> ld_pc (sv_loads (accept env t r room s)) u = ld_pc (sv_loads s) u \<and>
    sv_phase (accept env t r room s) u = sv_phase s u"
  by (simp add: accept_def Let_def split: option.split)

lemma finish_others: "u \<noteq> t \<Longrightarrow> ld_pc (sv_loads (finish env t r room st res s)) u = ld_pc (sv_loads s) u \<and>
    sv_phase (finish env t r room st res s) u = sv_phase s u"
  by (simp add: finish_def split: prod.split)

lemma finish_answers: "\<exists>rw. sv_phase (finish env t r room st res s) t = Answered r room rw"
  by (simp add: finish_def split: prod.split)

lemma serveBlob_unread: "wanted_blob (e_ParseTime env) r s m e c = None \<Longrightarrow> snd (serveBlob env r s m e c (rw, w)) = w"
  by (auto simp: serveBlob_def wanted_blob_def Let_def split: if_splits)

lemma respond_unread:
  assumes "wanted (e_ParseTime env) r s res = None"
  shows "w_store (snd (respond env r s res (rw, w))) = w_store w"
proof (cases res)
  case (Inl err)
  then show ?thesis by (simp add: respond_def log_event_def)
next
  case (Inr m)
  have n: "w_store (snd (serveNotFound env r s m (rw, w))) = w_store w"
    if "(case Lookup m (NotFoundDoc m) of
      (entry, True) \<Rightarrow> wanted_blob (e_ParseTime env) r s m entry StatusNotFound | (_, False) \<Rightarrow> None) = None"
    using that by (auto simp: serveNotFound_def Let_def add_bytes_def serveBlob_unread split: prod.splits bool.splits)
  show ?thesis
  proof (cases "Kind (Resolve (s_rest s) (\<lambda>p. snd (Lookup m p)) (SPA m)) = NotFound")
    case True
    with Inr assms n show ?thesis by (simp only: wanted_def respond_def serveSite_def Let_def Kind.case sum.case case_prod_conv)
  next
    case False
    with Inr assms show ?thesis
      by (auto simp: respond_def serveSite_def wanted_def Let_def serveBlob_unread split: Kind.splits)
  qed
qed

lemma respond_served: "w_store (snd (respond (at_time now (with_result rd env)) r s res (rw, w))) = w_store w"
proof (cases res)
  case (Inl err)
  then show ?thesis by (simp add: respond_def log_event_def)
next
  case (Inr m)
  then show ?thesis using serveSite_world [of "at_time now (with_result rd env)" r s m rw w] by (auto simp: respond_def)
qed

lemma finish_store:
  "wanted (e_ParseTime env) r st res = None \<Longrightarrow> w_store (sv_world (finish env t r room st res s)) = w_store (sv_world s)"
  "w_store (sv_world (finish (at_time now (with_result rd env)) t r room st res s)) = w_store (sv_world s)"
  using respond_unread [of env r st res "newResponse r room" "sv_world s"]
    respond_served [of now rd env r st res "newResponse r room" "sv_world s"]
  by (auto simp: finish_def split: prod.split)

lemma fetch_is_load_step:
  assumes "ld_pc l t = LFetch k"
  shows "goto t (case res of Inl err \<Rightarrow> LLeave k (Inl (StoreFailure err)) | Inr rc \<Rightarrow> LParse k rc) (ld_world l) l =
    load_step (with_result res env) ops t l"
  using load_steps(4) [OF assms, of "with_result res env" res "w_store (ld_world l)" ops] by simp

inductive_cases fine_turnE: "fine_turn g env ops t s s'"

lemma fine_updates:
  "s\<lparr>fn_server := x\<rparr> = \<lparr>fn_server = x, fn_read = fn_read s\<rparr>"
  "read_to t p s = \<lparr>fn_server = fn_server s, fn_read = (fn_read s)(t := p)\<rparr>"
  "put_loads l s = \<lparr>fn_server = (fn_server s)\<lparr>sv_loads := l\<rparr>, fn_read = fn_read s\<rparr>"
  by (cases s; simp add: read_to_def put_loads_def)+

lemma fine_loads:
  assumes c: "flight_contract ops ok leader waiting" and i: "fine_ok exact ok leader waiting iv objs held env s"
    and ph: "fn_phase s t = Loading r room st" "runnable (fn_pc s t)" and idle: "p = GIdle"
    and rd: "fn_pc s t = LFetch k \<Longrightarrow> fst (e_Get env' k (fn_store s)) = res \<and> snd (e_Get env' k (fn_store s)) = fn_store s"
      "\<forall>k. fn_pc s t \<noteq> LFetch k \<Longrightarrow> fn_read s t = GIdle"
    and kf: "\<And>q. fn_pc s t = LFetch q \<Longrightarrow> q = k"
  shows "fine_ok exact ok leader waiting iv objs held env
    \<lparr>fn_server = (fn_server s)\<lparr>sv_loads := load_step env' ops t (sv_loads (fn_server s))\<rparr>, fn_read = (fn_read s)(t := p)\<rparr>"
proof (rule fine_ok_server [OF i])
  let ?sv = "(fn_server s)\<lparr>sv_loads := load_step env' ops t (sv_loads (fn_server s))\<rparr>"
  note sh = fine_okD(1) [OF i]
  have st: "request_step env' ops (fn_server s) ?sv" by (rule loads [OF ph])
  show "shape_ok ok leader waiting ?sv" using request_step_shape [OF c sh st] by blast
  show "w_store (sv_world ?sv) = fn_store s"
  proof (cases "fn_pc s t = LFetch k")
    case True
    with load_steps(4) [OF True, of env' res "fn_store s" ops] rd(1) show ?thesis by (simp add: prod_eq_iff)
  next
    case False
    with kf have "\<forall>q. fn_pc s t \<noteq> LFetch q" by blast
    from load_step_store [OF this] show ?thesis by simp
  qed
  fix u assume u: "((fn_read s)(t := p)) u \<noteq> GIdle"
  with idle have ut: "u \<noteq> t" "fn_read s u \<noteq> GIdle" by (auto split: if_splits)
  have "waiting_on (fn_pc s u) = None"
    using read_fits_pc [OF fine_okD(5) [OF i, of u] ut(2)] by auto
  with load_step_others [OF c shape_okD(1) [OF sh] ph(2) ut(1), of env'] ut
  show "((fn_read s)(t := p)) u = fn_read s u \<and> ld_pc (sv_loads ?sv) u = fn_pc s u \<and> sv_phase ?sv u = fn_phase s u"
    by auto
qed

lemma fine_steps_run: "(fine_step g env ops ^^ n) s0 s \<Longrightarrow> fine_run g env ops n s0 s"
proof (induction n arbitrary: s)
  case 0
  then show ?case by (simp add: fine_run.f_start)
next
  case (Suc n)
  then obtain a where a: "(fine_step g env ops ^^ n) s0 a" "fine_step g env ops a s" by auto
  from a(2) obtain t where "fine_turn g env ops t a s" unfolding fine_step_def by blast
  with fine_run.f_step [OF Suc.IH [OF a(1)]] show ?case by blast
qed

text \<open>A step is one of \<open>ConcurrentGateway\<close>, over the store or over the result of a read, or a step of a read.\<close>

definition with_store :: "'s \<Rightarrow> ('s, 'v, 'g) server \<Rightarrow> ('s, 'v, 'g) server" where
  "with_store st s = s\<lparr>sv_loads := (sv_loads s)\<lparr>ld_world := (sv_world s)\<lparr>w_store := st\<rparr>\<rparr>\<rparr>"

lemma with_store_same: "with_store (w_store (sv_world s)) s = s"
  by (simp add: with_store_def)

lemma fine_turn_projects:
  assumes "fine_turn g env ops t s s'"
  shows "(\<exists>env'. e_counters env' = e_counters env \<and> request_step env' ops (fn_server s) (fn_server s')) \<or>
    (\<exists>st. fn_server s' = with_store st (fn_server s))"
  using assms
proof cases
  case (f_accepts r room now)
  with accepts show ?thesis by fastforce
next
  case (f_loads r room st)
  with loads [of "fn_server s" t r room st env ops] show ?thesis by (auto simp: put_loads_def)
next
  case f_reads
  then show ?thesis by (auto simp: read_step_def read_to_def put_loads_def with_store_def split: prod.split)
next
  case (f_fetches r room st k q res)
  with loads [of "fn_server s" t r room st "with_result res env" ops] show ?thesis
    by (auto simp: fetch_step_def read_to_def put_loads_def fetch_is_load_step [where env = env and ops = ops]
        intro!: exI [of _ "with_result res env"])
next
  case (f_answers r room st q res now)
  with answers [of "fn_server s" t r room st q res env ops now] show ?thesis by auto
next
  case (f_serves r room st q res k k' rd now)
  with answers [of "fn_server s" t r room st q res "with_result rd env" ops now] show ?thesis
    by (auto simp: read_to_def intro!: exI [of _ "with_result rd env"])
qed (use with_store_same [of "fn_server s"] in \<open>auto simp: read_to_def intro: sym\<close>)

lemma fine_turn_shape:
  assumes "flight_contract ops ok leader waiting" "shape_ok ok leader waiting (fn_server s)" "fine_turn g env ops t s s'"
  shows "shape_ok ok leader waiting (fn_server s') \<and> sv_request (fn_server s') u = sv_request (fn_server s) u"
  using fine_turn_projects [OF assms(3)]
proof (elim disjE exE conjE)
  fix env' assume "request_step env' ops (fn_server s) (fn_server s')"
  from request_step_shape [OF assms(1,2) this] show ?thesis by blast
qed (use assms(2) in \<open>simp add: with_store_def sweep_shape\<close>)

lemma fine_run_shape:
  assumes "fine_run g env ops n s0 s" "flight_contract ops ok leader waiting" "shape_ok ok leader waiting (fn_server s0)"
  shows "shape_ok ok leader waiting (fn_server s) \<and> (\<forall>u. sv_request (fn_server s) u = sv_request (fn_server s0) u)"
  using assms(1,3)
proof (induction rule: fine_run.induct)
  case (f_step n s0 s t s')
  note IH = f_step.IH [OF f_step.prems]
  from fine_turn_shape [OF assms(2) conjunct1 [OF IH] f_step.hyps(2)] IH show ?case by simp
qed (simp_all add: put_loads_def sweep_shape)

text \<open>Only a step of a read touches the store.\<close>

lemma fine_turn_store:
  assumes "fine_turn g env ops t s s'"
  shows "fn_store s' = fn_store s \<or>
    (\<exists>t. reading (fn_read s t) \<and> fn_store s' = snd (store_step g (fn_read s t, fn_store s)))"
  using assms
proof cases
  case (f_loads r room st)
  then show ?thesis by (simp add: put_loads_def load_step_store)
next
  case (f_answers r room st q res now)
  then show ?thesis by (simp add: finish_store)
next
  case f_reads
  then show ?thesis by (auto simp: read_step_def read_to_def put_loads_def split: prod.split)
qed (simp_all add: accept_store finish_store read_to_def fetch_step_def put_loads_def)

text \<open>The manifest cache changes by its own operations only.\<close>

lemma load_step_cache:
  assumes "\<And>k c. Q c \<Longrightarrow> Q (snd (mc_get k c))" "\<And>k m c. Q c \<Longrightarrow> Q (mc_add k m c)" "Q (w_cache (ld_world l))"
  shows "Q (w_cache (ld_world (load_step env ops t l)))"
proof -
  have "Q c" if "mc_get k (w_cache (ld_world l)) = (hit, c)" for k hit c
    using assms(1) [OF assms(3), of k] that by simp
  with assms(2,3) show ?thesis
    by (auto simp: load_step_def Let_def goto_def split: pc.split prod.split option.split sum.split)
qed

lemma finish_cache: "w_cache (sv_world (finish env t r room st res s)) = w_cache (sv_world s)"
proof -
  have "w_cache (snd (respond env r st res (rw, w))) = w_cache w" for rw w
    using serveSite_world [of env r st _ rw w] by (cases res) (auto simp: respond_def log_event_def)
  then show ?thesis by (auto simp: finish_def dest: spec split: prod.split) (metis snd_conv)
qed

lemma fine_turn_cache:
  assumes "fine_turn g env ops t s s'" "\<And>k c. Q c \<Longrightarrow> Q (snd (mc_get k c))" "\<And>k m c. Q c \<Longrightarrow> Q (mc_add k m c)"
    and "Q (w_cache (sv_world (fn_server s)))"
  shows "Q (w_cache (sv_world (fn_server s')))"
  using assms(1)
proof cases
  case (f_accepts r room now)
  with assms(4) show ?thesis by (auto simp: accept_def Let_def observe_def split: option.split)
next
  case (f_loads r room st)
  from load_step_cache [where Q = Q, OF assms(2-4)] show ?thesis by (simp add: f_loads(1) put_loads_def)
qed (use assms(4) in \<open>auto simp: finish_cache read_to_def read_step_def fetch_step_def put_loads_def split: prod.split\<close>)

lemma fine_run_cache:
  assumes "fine_run g env ops n s0 s" "\<And>k c. Q c \<Longrightarrow> Q (snd (mc_get k c))" "\<And>k m c. Q c \<Longrightarrow> Q (mc_add k m c)"
    and "Q (w_cache (sv_world (fn_server s0)))"
  shows "Q (w_cache (sv_world (fn_server s)))"
  using assms(1,4)
proof (induction rule: fine_run.induct)
  case (f_step n s0 s t s')
  show ?case
    by (rule fine_turn_cache [where Q = Q, OF f_step.hyps(2) assms(2,3) f_step.IH [OF f_step.prems]])
qed (simp_all add: put_loads_def)

context object_store
begin

lemma fine_turn_ok:
  assumes c: "flight_contract ops ok leader waiting" and i: "fine_ok exact ok leader waiting invar objs held env s"
    and inner: "\<forall>s k. invar s \<longrightarrow> read_truthful exact (objs s) k (fst (get k s))"
    and st: "fine_turn get env ops t s s'"
  shows "fine_ok exact ok leader waiting invar objs held env s'"
  using st
proof cases
  case (f_accepts r room now)
  have "request_step env ops (fn_server s) (accept (at_time now env) t r room (fn_server s))"
    by (rule accepts [OF f_accepts(2)])
  note sh = conjunct1 [OF request_step_shape [OF c fine_okD(1) [OF i] this]]
  have "u \<noteq> t" if "fn_read s u \<noteq> GIdle" for u
    using read_fits_phase [OF fine_okD(5) [OF i, of u] that] f_accepts(2) by auto
  then show ?thesis
    unfolding f_accepts(1) fine_updates
    by (intro fine_ok_server [OF i sh]) (simp_all add: accept_store accept_others)
next
  case (f_loads r room st)
  have idle: "fn_read s t = GIdle"
    using read_fits_pc [OF fine_okD(5) [OF i, of t]] f_loads(3,4) by fastforce
  have "fn_read s = (fn_read s)(t := GIdle)" using idle by (simp add: fun_eq_iff)
  with fine_loads [OF c i f_loads(2,3) refl, of undefined env] f_loads(4) idle show ?thesis
    unfolding f_loads(1) fine_updates by simp
next
  case (f_opens r room st k)
  with i show ?thesis by (auto simp: fine_ok_def fine_updates read_fits_def)
next
  case (f_wants r room st q res k)
  with i show ?thesis by (auto simp: fine_ok_def fine_updates read_fits_def)
next
  case f_reads
  obtain p st where r: "store_step get (fn_read s t, fn_store s) = (p, st)" by fastforce
  note ok = store_step_ok [OF inner fine_okD(2,3) [OF i] fine_okD(4) [OF i, of t] f_reads(2) r]
  have rest: "read_ok exact held st (fn_read s u)" for u
    using ok fine_okD(4) [OF i, of u] by (simp add: read_ok_def)
  have "read_fits (e_ParseTime env) (fn_pc s t) (fn_phase s t) p"
    using fine_okD(5) [OF i, of t] f_reads(2) ok by (auto simp: read_fits_def)
  with i ok rest r show ?thesis
    by (simp add: f_reads(1) fine_ok_def fine_updates read_step_def sweep_shape)
next
  case (f_fetches r room st k q res)
  have "\<And>q. fn_pc s t = LFetch q \<Longrightarrow> q = k" using f_fetches(3) by simp
  from fine_loads [OF c i f_fetches(2) _ refl, of k "with_result res env" res, OF _ _ _ this] f_fetches(3)
  show ?thesis
    by (simp add: f_fetches(1) fetch_step_def fine_updates fetch_is_load_step [where env = env and ops = ops])
next
  case (f_answers r room st q res now)
  have "request_step env ops (fn_server s) (finish (at_time now env) t r room st res (fn_server s))"
    by (rule answers [OF f_answers(2,3)])
  note sh = conjunct1 [OF request_step_shape [OF c fine_okD(1) [OF i] this]]
  have idle: "fn_read s t = GIdle" using fine_okD(5) [OF i, of t] f_answers(2-4) by (auto simp: read_fits_def)
  have "u \<noteq> t" if "fn_read s u \<noteq> GIdle" for u using that idle by auto
  then show ?thesis
    unfolding f_answers(1) fine_updates
    by (intro fine_ok_server [OF i sh]) (simp_all add: finish_store f_answers(4) finish_others)
next
  case (f_serves r room st q res k k' rd now)
  have "request_step (with_result rd env) ops (fn_server s)
      (finish (at_time now (with_result rd env)) t r room st res (fn_server s))"
    by (rule answers [OF f_serves(2,3)])
  note sh = conjunct1 [OF request_step_shape [OF c fine_okD(1) [OF i] this]]
  show ?thesis
    unfolding f_serves(1) fine_updates fine.simps
    by (intro fine_ok_server [OF i sh]) (auto simp: finish_store finish_others split: if_splits)
qed

end

subsection \<open>Progress\<close>

text \<open>The work a request has left: besides its steps in \<open>ConcurrentGateway\<close>, at most five for the read of its
  manifest and five for that of its blob.\<close>

definition work :: "nat \<Rightarrow> gpc \<Rightarrow> nat" where
  "work w p = (if w = 0 then 0 else w + (if 5 < w then 5 else 0) + read_left p)"

abbreviation fn_work :: "('s, 'v, 'g) fine \<Rightarrow> thread \<Rightarrow> nat" where
  "fn_work s t \<equiv> work (sv_weight (fn_server s) t) (fn_read s t)"

lemma work_mono: "w' + (if c then 1 else 0) \<le> w \<Longrightarrow> work w' p + (if c then 1 else 0) \<le> work w p"
  by (auto simp: work_def split: if_splits)

lemma work_read: "w \<noteq> 0 \<Longrightarrow> read_left p' < read_left p \<Longrightarrow> work w p' + 1 \<le> work w p"
  by (simp add: work_def)

lemma read_fits_weight: "read_fits pt pc ph p \<Longrightarrow> p \<noteq> GIdle \<Longrightarrow> weight pc ph \<noteq> 0"
  by (auto simp: read_fits_def)

lemma work_less: "w' < w \<Longrightarrow> work w' p < work w p"
  using work_mono [of w' True w p] by simp

lemma work_thread:
  assumes "fn_work s' t < fn_work s t"
    and "\<And>u. u \<noteq> t \<Longrightarrow> sv_weight (fn_server s') u \<le> sv_weight (fn_server s) u \<and> fn_read s' u = fn_read s u"
  shows "fn_work s' u + (if u = t then 1 else 0) \<le> fn_work s u"
  using assms(1) assms(2) [of u] work_mono [of "sv_weight (fn_server s') u" False "sv_weight (fn_server s) u" "fn_read s u"]
  by (cases "u = t") auto

lemma accept_weight:
  assumes "sv_phase s t = Incoming r room"
  shows "sv_weight (accept env t r room s) t < sv_weight s t"
  using assms rank_le by (auto simp: accept_def Let_def less_Suc_eq_le split: option.split)

context object_store
begin

lemma fine_turn_work:
  assumes c: "flight_contract ops ok leader waiting" and i: "fine_ok exact ok leader waiting invar objs held env s"
    and inner: "\<forall>s k. invar s \<longrightarrow> read_truthful exact (objs s) k (fst (get k s))"
    and st: "fine_turn get env ops t s s'"
  shows "fn_work s' u + (if u = t then 1 else 0) \<le> fn_work s u"
  using st
proof cases
  case (f_accepts r room now)
  show ?thesis
  proof (rule work_thread)
    show "fn_work s' t < fn_work s t"
      using work_less [OF accept_weight [OF f_accepts(2), of "at_time now env"]] by (simp add: f_accepts(1))
  qed (simp add: f_accepts(1) accept_others)
next
  case (f_loads r room st)
  note lg = load_step_group(3) [OF c shape_okD(1) [OF fine_okD(1) [OF i]] f_loads(3), of env u]
  have "sv_weight (fn_server s') u + (if u = t then 1 else 0) \<le> sv_weight (fn_server s) u"
    using lg f_loads(1,2) by (cases "fn_phase s u") (auto simp: put_loads_def)
  from work_mono [OF this] show ?thesis by (simp add: f_loads(1) put_loads_def)
next
  case (f_opens r room st k)
  show ?thesis
    by (rule work_thread [of s' t]) (simp_all add: f_opens(1) read_to_def work_def f_opens(2-4))
next
  case (f_wants r room st q res k)
  show ?thesis
    by (rule work_thread [of s' t]) (simp_all add: f_wants(1) read_to_def work_def f_wants(2-5))
next
  case f_reads
  obtain p st where r: "store_step get (fn_read s t, fn_store s) = (p, st)" by fastforce
  note ok = store_step_ok [OF inner fine_okD(2,3) [OF i] fine_okD(4) [OF i, of t] f_reads(2) r]
  have "fn_read s t \<noteq> GIdle" using f_reads(2) by auto
  note w = read_fits_weight [OF fine_okD(5) [OF i, of t] this]
  have "work (sv_weight (fn_server s) t) p < fn_work s t"
    using work_read [OF w, of p "fn_read s t"] ok by simp
  with r show ?thesis
    by (intro work_thread [of s' t]) (simp_all add: f_reads(1) read_step_def read_to_def put_loads_def)
next
  case (f_fetches r room st k q res)
  have run: "runnable (fn_pc s t)" using f_fetches(3) by simp
  note lg = load_step_group(3) [OF c shape_okD(1) [OF fine_okD(1) [OF i]] run, of "with_result res env"]
  have s': "fn_read s' = (fn_read s)(t := GIdle)"
      "fn_server s' = (fn_server s)\<lparr>sv_loads := load_step (with_result res env) ops t (sv_loads (fn_server s))\<rparr>"
    unfolding f_fetches(1) fetch_step_def read_to_def put_loads_def fetch_is_load_step [OF f_fetches(3), of _ env ops]
    by simp_all
  have le: "sv_weight (fn_server s') u \<le> sv_weight (fn_server s) u" for u
    unfolding s' using lg [of u] by (cases "fn_phase s u") auto
  have "sv_weight (fn_server s') t \<le> 5" "sv_weight (fn_server s) t = 6"
    unfolding s' using lg [of t] f_fetches(2,3) by simp_all
  with le show ?thesis
    by (intro work_thread [of s' t]) (simp_all add: s'(1) work_def f_fetches(4))
next
  case (f_answers r room st q res now)
  let ?sv = "finish (at_time now env) t r room st res (fn_server s)"
  obtain rw where "sv_phase ?sv t = Answered r room rw" using finish_answers by blast
  then have "sv_weight ?sv t < sv_weight (fn_server s) t" using f_answers(2) by simp
  from work_less [OF this] show ?thesis
    by (intro work_thread [of s' t]) (simp_all add: f_answers(1) finish_others)
next
  case (f_serves r room st q res k k' rd now)
  let ?sv = "finish (at_time now (with_result rd env)) t r room st res (fn_server s)"
  have s': "fn_read s' = (fn_read s)(t := GIdle)" "fn_server s' = ?sv"
    by (simp_all add: f_serves(1) read_to_def)
  obtain rw where "sv_phase ?sv t = Answered r room rw" using finish_answers by blast
  then have "sv_weight ?sv t = 0" by simp
  moreover have "sv_weight ?sv u \<le> sv_weight (fn_server s) u" if "u \<noteq> t" for u
    using finish_others [OF that, of "at_time now (with_result rd env)" r room st res "fn_server s"] by simp
  ultimately show ?thesis
    by (intro work_thread [of s' t]) (simp_all add: s' work_def f_serves(2,3))
qed

end

text \<open>If no thread can go on here, none can in \<open>ConcurrentGateway\<close>.\<close>

lemma fine_stuck:
  assumes i: "fine_ok exact ok leader waiting iv objs held env s" and stuck: "\<And>s'. \<not> fine_step g env ops s s'"
  shows "\<not> request_step env ops (fn_server s) x"
proof
  have no: "\<not> fine_turn g env ops t s s'" for t s' using stuck fine_stepI by blast
  have no_read: "\<not> reading (fn_read s t)" for t using f_reads no by blast
  have ends: "fn_read s t = GIdle \<or> (\<exists>k res. fn_read s t = GDone k res)" for t
    using no_read [of t] fine_okD(4) [OF i, of t] by (cases "fn_read s t") (auto simp: read_ok_def)
  assume "request_step env ops (fn_server s) x"
  then show False
  proof cases
    case (accepts t r room now)
    with f_accepts [of s t r room g env ops now] no show False by simp
  next
    case (loads t r room st)
    show False
    proof (cases "\<exists>k. fn_pc s t = LFetch k")
      case False
      with loads f_loads [of s t r room st g env ops] no show False by simp
    next
      case True
      then obtain k where k: "fn_pc s t = LFetch k" by blast
      from ends [of t] loads(2) k f_opens [of s t r room st k g env ops] f_fetches [of s t r room st k _ _ g env ops] no
      show False by auto
    qed
  next
    case (answers t r room st q res now)
    show False
    proof (cases "wanted (e_ParseTime env) r st res")
      case None
      with answers f_answers [of s t r room st q res env g ops now] no show False by simp
    next
      case (Some k)
      from ends [of t] answers(2,3) Some f_wants [of s t r room st q res env k g ops]
        f_serves [of s t r room st q res env k _ _ g ops now] no
      show False by auto
    qed
  qed
qed

text \<open>Where a server starts: with requests coming in, and no read going.\<close>

definition fine_start where
  "fine_start ok leader waiting s \<longleftrightarrow> server_start ok leader waiting (fn_server s) \<and> fn_read s = (\<lambda>_. GIdle)"

lemma fine_start_shape: "fine_start ok leader waiting s \<Longrightarrow> shape_ok ok leader waiting (fn_server s)"
  by (rule server_start_shape) (simp add: fine_start_def)

lemma fine_start_ok:
  assumes "fine_start ok leader waiting s" "store_invar iv objs (fn_store s)" "store_objs objs (fn_store s) = held"
  shows "fine_ok exact ok leader waiting iv objs held env s"
  using assms fine_start_shape [OF assms(1)] by (simp add: fine_start_def fine_ok_def)

lemma fine_ok_sweep:
  "fine_ok exact ok leader waiting iv objs held env s \<Longrightarrow> fine_ok exact ok leader waiting iv objs held env
     (put_loads ((sv_loads (fn_server s))\<lparr>ld_world := (sv_world (fn_server s))\<lparr>w_metrics := mt\<rparr>\<rparr>) s)"
  by (simp add: fine_ok_def put_loads_def sweep_shape)

context object_store
begin

lemma fine_run_ok:
  assumes run: "fine_run get env ops n s0 s" and c: "flight_contract ops ok leader waiting"
    and i: "fine_ok exact ok leader waiting invar objs held env s0"
    and inner: "\<forall>s k. invar s \<longrightarrow> read_truthful exact (objs s) k (fst (get k s))"
  shows "fine_ok exact ok leader waiting invar objs held env s \<and>
    (\<forall>u. sv_request (fn_server s) u = sv_request (fn_server s0) u) \<and>
    (finite A \<longrightarrow> {t. sv_request (fn_server s0) t \<noteq> None} \<subseteq> A \<longrightarrow>
      n + (\<Sum>t\<in>A. fn_work s t) \<le> (\<Sum>t\<in>A. fn_work s0 t))"
  using run i
proof (induction rule: fine_run.induct)
  case (f_step n s0 s t s')
  note IH = f_step.IH [OF f_step.prems]
  note ok = fine_turn_ok [OF c conjunct1 [OF IH] inner f_step.hyps(2)]
  have t: "fn_work s' u + (if u = t then 1 else 0) \<le> fn_work s u" for u
    by (rule fine_turn_work [OF c conjunct1 [OF IH] inner f_step.hyps(2)])
  have "Suc (\<Sum>t\<in>A. fn_work s' t) \<le> (\<Sum>t\<in>A. fn_work s t)"
    if A: "finite A" "{t. sv_request (fn_server s0) t \<noteq> None} \<subseteq> A"
  proof -
    have "sv_weight (fn_server s) t \<noteq> 0" using t [of t] by (auto simp: work_def split: if_splits)
    then have "sv_request (fn_server s) t \<noteq> None" by (cases "fn_phase s t") simp_all
    with A IH have "t \<in> A" by auto
    from sum_drop [OF t A(1) this] show ?thesis .
  qed
  with ok IH fine_turn_shape [OF c fine_okD(1) [OF conjunct1 [OF IH]] f_step.hyps(2)] show ?case by (auto intro: order_trans)
next
  case (f_sweep n s0 s visit now ttl)
  note IH = f_sweep.IH [OF f_sweep.prems]
  from IH fine_ok_sweep [OF conjunct1 [OF IH]] show ?case
    by (auto simp: put_loads_def)
qed simp

text \<open>Each step comes off the work of the thread that takes it.\<close>

lemma fine_trace_work:
  assumes run: "fine_trace get env ops ts s0 s" and c: "flight_contract ops ok leader waiting"
    and i: "fine_ok exact ok leader waiting invar objs held env s0"
    and inner: "\<forall>s k. invar s \<longrightarrow> read_truthful exact (objs s) k (fst (get k s))"
  shows "count_list ts u + fn_work s u \<le> fn_work s0 u"
  using run i
proof (induction rule: fine_trace.induct)
  case (t_turn ts s0 s t s')
  have "fine_ok exact ok leader waiting invar objs held env s"
    using fine_run_ok [OF fine_trace_run [OF t_turn.hyps(1)] c t_turn.prems inner] by blast
  from fine_turn_work [OF c this inner t_turn.hyps(2), of u] t_turn.IH [OF t_turn.prems] show ?case
    by (cases "u = t") auto
qed (simp_all add: put_loads_def)

lemma fine_start_work:
  assumes "fine_start ok leader waiting s"
  shows "fn_work s t \<le> (if fn_phase s t = Absent then 0 else 20)"
proof -
  have "fn_phase s t = Absent \<or> (\<exists>r room. fn_phase s t = Incoming r room)"
    using assms by (simp add: fine_start_def server_start_def)
  then show ?thesis using assms by (auto simp: fine_start_def work_def)
qed

lemma fine_trace_bound:
  assumes run: "fine_trace get env ops ts s0 s" and c: "flight_contract ops ok leader waiting"
    and s0: "fine_start ok leader waiting s0" "store_invar invar objs (fn_store s0)"
  shows "count_list ts t \<le> (if fn_phase s0 t = Absent then 0 else 20)"
proof -
  have "\<forall>s k. invar s \<longrightarrow> read_truthful False (objs s) k (fst (get k s))" using inner_truthful by blast
  from fine_trace_work [OF run c fine_start_ok [OF s0 refl] this, of t] fine_start_work [OF s0(1), of t] show ?thesis
    by linarith
qed

lemma fine_run_bound:
  assumes run: "fine_run get env ops n s0 s" and c: "flight_contract ops ok leader waiting"
    and s0: "fine_start ok leader waiting s0" "store_invar invar objs (fn_store s0)"
    and fin: "finite {t. fn_phase s0 t \<noteq> Absent}"
  shows "n \<le> 20 * card {t. fn_phase s0 t \<noteq> Absent}"
    "\<forall>s'. \<not> fine_step get env ops s s' \<Longrightarrow> fn_phase s0 t = Incoming r room \<Longrightarrow> \<exists>rw. fn_phase s t = Answered r room rw"
proof -
  let ?A = "{t. fn_phase s0 t \<noteq> Absent}"
  have A: "{t. sv_request (fn_server s0) t \<noteq> None} \<subseteq> ?A" by auto
  have "\<forall>s k. invar s \<longrightarrow> read_truthful False (objs s) k (fst (get k s))" using inner_truthful by blast
  note ok = fine_run_ok [OF run c fine_start_ok [OF s0 refl] this, of ?A]
  have "n \<le> (\<Sum>t\<in>?A. fn_work s0 t)" using ok fin A by simp
  moreover have "fn_work s0 t \<le> 20" for t
    using fine_start_work [OF s0(1), of t] by (auto split: if_splits)
  then have "(\<Sum>t\<in>?A. fn_work s0 t) \<le> card ?A * 20"
    using sum_bounded_above [of ?A "\<lambda>t. fn_work s0 t" 20] by simp
  ultimately show "n \<le> 20 * card ?A" by simp
  assume stuck: "\<forall>s'. \<not> fine_step get env ops s s'" and r: "fn_phase s0 t = Incoming r room"
  have no: "\<not> request_step env ops (fn_server s) x" for x
    by (rule fine_stuck [where g = get, OF conjunct1 [OF ok]]) (use stuck in simp)
  have "sv_request (fn_server s) t = Some (r, room)" using ok r by simp
  from serving_progress [OF fine_okD(1) [OF conjunct1 [OF ok]] no this] show "\<exists>rw. fn_phase s t = Answered r room rw" by simp
qed

lemma fine_completes:
  assumes c: "flight_contract ops ok leader waiting"
    and s0: "fine_start ok leader waiting s0" "store_invar invar objs (fn_store s0)"
    and fin: "finite {t. fn_phase s0 t \<noteq> Absent}"
  shows "\<exists>n s. (fine_step get env ops ^^ n) s0 s \<and>
    (\<forall>t r room. fn_phase s0 t = Incoming r room \<longrightarrow> (\<exists>rw. fn_phase s t = Answered r room rw))"
proof (rule ccontr)
  assume no: "\<not> ?thesis"
  have "\<exists>s. (fine_step get env ops ^^ n) s0 s" for n
  proof (induction n)
    case (Suc n)
    then obtain s where s: "(fine_step get env ops ^^ n) s0 s" by blast
    with no fine_run_bound(2) [OF fine_steps_run [OF s] c s0 fin] obtain s' where "fine_step get env ops s s'" by blast
    with s show ?case by auto
  qed simp
  then obtain s where "(fine_step get env ops ^^ Suc (20 * card {t. fn_phase s0 t \<noteq> Absent})) s0 s" by blast
  from fine_run_bound(1) [OF fine_steps_run [OF this] c s0 fin] show False by simp
qed

lemma fine_run_requests:
  assumes run: "fine_run get env ops n s0 s" and c: "flight_contract ops ok leader waiting"
    and s0: "fine_start ok leader waiting s0" "store_invar invar objs (fn_store s0)"
    and a: "fn_phase s t = Answered r room rw"
  shows "fn_phase s0 t = Incoming r room"
proof -
  have "\<forall>s k. invar s \<longrightarrow> read_truthful False (objs s) k (fst (get k s))" using inner_truthful by blast
  from fine_run_ok [OF run c fine_start_ok [OF s0 refl] this]
  have "sv_request (fn_server s) t = sv_request (fn_server s0) t" by blast
  moreover have "fn_phase s0 t = Absent \<or> (\<exists>r room. fn_phase s0 t = Incoming r room)"
    using s0(1) by (simp add: fine_start_def server_start_def)
  ultimately show ?thesis using a by auto
qed

text \<open>The store stays the store it was, with the byte budget it had.\<close>

lemma fine_run_budget:
  assumes run: "fine_run get env ops n s0 s" and c: "flight_contract ops ok leader waiting"
    and s0: "fine_start ok leader waiting s0" "store_invar invar objs (fn_store s0)"
  shows "store_invar invar objs (fn_store s) \<and> store_cap (fn_store s) = store_cap (fn_store s0)"
proof -
  have inner: "\<forall>s k. invar s \<longrightarrow> read_truthful False (objs s) k (fst (get k s))" using inner_truthful by blast
  have "fine_ok False ok leader waiting invar objs (store_objs objs (fn_store s0)) env s0"
    by (rule fine_start_ok [OF s0 refl])
  with run show ?thesis
  proof (induction rule: fine_run.induct)
    case (f_step n s0 s t s')
    note i = conjunct1 [OF fine_run_ok [OF f_step.hyps(1) c f_step.prems inner]]
    have "store_cap (fn_store s') = store_cap (fn_store s)"
      using fine_turn_store [OF f_step.hyps(2)]
    proof (elim disjE exE conjE)
      fix t assume t: "reading (fn_read s t)" "fn_store s' = snd (store_step get (fn_read s t, fn_store s))"
      obtain p st where "store_step get (fn_read s t, fn_store s) = (p, st)" by fastforce
      with store_step_ok [OF inner fine_okD(2,3) [OF i] fine_okD(4) [OF i, of t] t(1) this] t(2) show ?thesis by simp
    qed simp
    with f_step.IH [OF f_step.prems] fine_okD(2) [OF fine_turn_ok [OF c i inner f_step.hyps(2)]] show ?case by simp
  qed (simp_all add: put_loads_def fine_okD(2))
qed

end

text \<open>C3: liveness. Every request is answered, with every read split into its atomic steps: of any finite number
  of overlapping requests, with sweeps in between, over any store that keeps its contract, however it
  fails, each one takes at most twenty steps of its own, whatever the others do, and no other thread takes
  any; and as long as one request is unanswered some request can take a step.\<close>

theorem interleaved_requests_finish:
  assumes "object_store iv objs g" "store_invar iv objs (fn_store s0)" "flight_contract ops ok leader waiting"
    and "fine_start ok leader waiting s0" "finite {t. fn_phase s0 t \<noteq> Absent}" "fine_trace g env ops ts s0 s"
  shows "(\<forall>t. count_list ts t \<le> (if fn_phase s0 t = Absent then 0 else 20)) \<and>
    length ts \<le> 20 * card {t. fn_phase s0 t \<noteq> Absent} \<and>
    ((\<forall>t s'. \<not> fine_turn g env ops t s s') \<longrightarrow>
     (\<forall>t r room. fn_phase s0 t = Incoming r room \<longrightarrow> (\<exists>rw. fn_phase s t = Answered r room rw)))"
proof (intro conjI allI impI)
  fix t
  show "count_list ts t \<le> (if fn_phase s0 t = Absent then 0 else 20)"
    by (rule object_store.fine_trace_bound [OF assms(1,6,3,4,2)])
next
  note b = object_store.fine_run_bound [OF assms(1) fine_trace_run [OF assms(6)] assms(3,4,2,5)]
  show "length ts \<le> 20 * card {t. fn_phase s0 t \<noteq> Absent}" by (rule b(1))
  fix t r room
  assume "\<forall>t s'. \<not> fine_turn g env ops t s s'" "fn_phase s0 t = Incoming r room"
  with b(2) [of t r room] show "\<exists>rw. fn_phase s t = Answered r room rw" unfolding fine_step_def by blast
qed

text \<open>A server with some requests coming in.\<close>

definition demo_fine_of :: "string list \<Rightarrow> ('s Store, 'v) world \<Rightarrow> ('s, 'v, string \<rightharpoonup> thread \<times> thread list) fine" where
  "demo_fine_of ps w = \<lparr>fn_server = demo_server_of ps w, fn_read = (\<lambda>_. GIdle)\<rparr>"

lemma demo_fine_facts:
  "fine_start (\<lambda>_. True) map_leader map_waiting (demo_fine_of ps w)"
  "{t. fn_phase (demo_fine_of ps w) t \<noteq> Absent} = {..< length ps}" "sv_world (fn_server (demo_fine_of ps w)) = w"
  using demo_server_facts [of ps w] by (simp_all add: fine_start_def demo_fine_of_def)

lemma demo_fine_steps:
  assumes "object_store iv objs g" "store_invar iv objs (w_store w)"
  obtains n s where "(fine_step g env map_flight ^^ n) (demo_fine_of ps w) s"
    "\<And>t. t < length ps \<Longrightarrow> \<exists>rw. fn_phase s t = Answered (GET (ps ! t)) None rw"
proof -
  have "finite {t. fn_phase (demo_fine_of ps w) t \<noteq> Absent}" unfolding demo_fine_facts(2) by simp
  moreover have "store_invar iv objs (fn_store (demo_fine_of ps w))" using assms(2) by (simp add: demo_fine_facts(3))
  ultimately obtain n s where s: "(fine_step g env map_flight ^^ n) (demo_fine_of ps w) s"
      "\<And>t r room. fn_phase (demo_fine_of ps w) t = Incoming r room \<Longrightarrow> \<exists>rw. fn_phase s t = Answered r room rw"
    using object_store.fine_completes [OF assms(1) map_flight_contract demo_fine_facts(1)] by blast
  have "fn_phase (demo_fine_of ps w) t = Incoming (GET (ps ! t)) None" if "t < length ps" for t
    using that by (simp add: demo_fine_of_def demo_server_of_def)
  with s that show thesis by blast
qed

lemma demo_fine_runs:
  assumes "object_store iv objs g" "store_invar iv objs (w_store w)"
  obtains n s where "fine_run g env map_flight n (demo_fine_of ps w) s"
    "\<And>t. t < length ps \<Longrightarrow> \<exists>rw. fn_phase s t = Answered (GET (ps ! t)) None rw"
  using demo_fine_steps [OF assms, of env ps] fine_steps_run by metis

definition demo_fine_env :: "(Fake Store, siteKey \<rightharpoonup> int) env" where
  "demo_fine_env = \<lparr>e_Get = store_Get fake_Get, e_counters = map_ops, e_now = epoch_plus 0, e_decode = demo_dec,
     e_rng = in_order, e_ParseTime = (\<lambda>_. None), e_Do = (\<lambda>k f. f)\<rparr>"

definition demo_cached_world :: "(Fake Store, siteKey \<rightharpoonup> int) world" where
  "demo_cached_world = \<lparr>w_store = NewCachingStore demo_store 1000 100, w_cache = newManifestCache 1 0,
     w_metrics = new_metrics, w_log = []\<rparr>"

lemma demo_cached_invar: "store_invar (\<lambda>_. True) fake_objs (w_store demo_cached_world)"
  using NewCachingStore_invar [OF fake.object_store_axioms, of demo_store 1000 100] by (simp add: demo_cached_world_def)

lemma interleaved_requests_finish_witness:
  "\<exists>ts s. fine_trace fake_Get demo_fine_env map_flight ts
       (demo_fine_of [''/acme/docs/r1/'', ''/acme/docs/r1/'', ''/acme''] demo_cached_world) s \<and>
     count_list ts 1 \<le> 20 \<and> count_list ts 7 = 0 \<and> (\<exists>rw. fn_phase s 1 = Answered (GET ''/acme/docs/r1/'') None rw)"
proof -
  let ?ps = "[''/acme/docs/r1/'', ''/acme/docs/r1/'', ''/acme'']"
  let ?start = "demo_fine_of ?ps demo_cached_world"
  obtain n s where s: "fine_run fake_Get demo_fine_env map_flight n ?start s"
      "\<And>t. t < length ?ps \<Longrightarrow> \<exists>rw. fn_phase s t = Answered (GET (?ps ! t)) None rw"
    by (rule demo_fine_runs [OF fake.object_store_axioms demo_cached_invar, of demo_fine_env ?ps]) blast
  from fine_run_trace [OF s(1)] obtain ts where ts: "fine_trace fake_Get demo_fine_env map_flight ts ?start s" by blast
  have fin: "finite {t. fn_phase ?start t \<noteq> Absent}" unfolding demo_fine_facts(2) by simp
  have "store_invar (\<lambda>_. True) fake_objs (fn_store ?start)"
    using demo_cached_invar by (simp add: demo_fine_facts(3))
  from interleaved_requests_finish [OF fake.object_store_axioms this map_flight_contract demo_fine_facts(1) fin ts]
  have b: "\<forall>t. count_list ts t \<le> (if fn_phase ?start t = Absent then 0 else 20)" by blast
  have "7 \<notin> {t. fn_phase ?start t \<noteq> Absent}" unfolding demo_fine_facts(2) by simp
  then have "fn_phase ?start 7 = Absent" by simp
  with b [rule_format, of 1] b [rule_format, of 7] have "count_list ts 1 \<le> 20" "count_list ts 7 = 0"
    by (simp_all split: if_splits)
  with ts s(2) [of 1] show ?thesis by auto
qed

end
