(* ===== verification/InterleavedAnswers.thy ===== *)
theory InterleavedAnswers
  imports InterleavedGateway
begin

section \<open>The answers of interleaved requests\<close>

text \<open>
  Nothing of the interleaving in \<open>InterleavedGateway\<close> shows in an answer. Replace the caching store by one that
  returns, for each read, whatever result that read came to (\<open>truth_Get\<close>, over the objects held): then every
  step of a read is a stutter and every other step is a step of \<open>ConcurrentGateway\<close> over that store, a forward
  simulation. What is proved there of a step, over any store that keeps its contract or over any without
  failures, holds along every interleaved run.
\<close>

subsection \<open>The abstraction\<close>

text \<open>A store that answers a read with the result it carries, where that is truthful; \<open>exact\<close> as in \<open>CacheRace\<close>.\<close>

type_synonym told = "(string \<Rightarrow> bytes option) \<times> (store_error + reader)"

definition truth_Get :: "bool \<Rightarrow> string \<Rightarrow> told \<Rightarrow> (store_error + reader) \<times> told" where
  "truth_Get exact k a =
     ((if read_truthful exact (fst a) k (snd a) then snd a
       else (case fst a k of Some d \<Rightarrow> Inr (bytesReader d) | None \<Rightarrow> Inl (NotExist k))), a)"

interpretation truth: object_store "\<lambda>_. True" fst "truth_Get exact"
  by unfold_locales
    (auto simp: truth_Get_def read_truthful_def delivers_bytesReader split: option.splits sum.splits if_splits)

interpretation exact_truth: reliable_store "\<lambda>_. True" fst "truth_Get True"
  by unfold_locales (auto simp: truth_Get_def read_truthful_def bytesReader_def split: option.splits sum.splits)

definition abs_world :: "'t \<Rightarrow> ('s, 'v) world \<Rightarrow> ('t, 'v) world" where
  "abs_world a w = \<lparr>w_store = a, w_cache = w_cache w, w_metrics = w_metrics w, w_log = w_log w\<rparr>"

definition abs_loads :: "'t \<Rightarrow> ('s, 'v, 'g) loaders \<Rightarrow> ('t, 'v, 'g) loaders" where
  "abs_loads a l = \<lparr>ld_world = abs_world a (ld_world l), ld_group = ld_group l, ld_pc = ld_pc l\<rparr>"

definition abs_server :: "'t \<Rightarrow> ('s, 'v, 'g) server \<Rightarrow> ('t, 'v, 'g) server" where
  "abs_server a s = \<lparr>sv_loads = abs_loads a (sv_loads s), sv_phase = sv_phase s\<rparr>"

definition abs_env :: "(string \<Rightarrow> 't \<Rightarrow> (store_error + reader) \<times> 't) \<Rightarrow> ('s, 'v) env \<Rightarrow> ('t, 'v) env" where
  "abs_env get env = \<lparr>e_Get = get, e_counters = e_counters env, e_now = e_now env, e_decode = e_decode env,
     e_rng = e_rng env, e_ParseTime = e_ParseTime env, e_Do = (\<lambda>k f. f)\<rparr>"

lemma abs_simps [simp]:
  "w_store (abs_world a w) = a" "w_cache (abs_world a w) = w_cache w"
  "w_metrics (abs_world a w) = w_metrics w" "w_log (abs_world a w) = w_log w"
  "ld_world (abs_loads a l) = abs_world a (ld_world l)" "ld_group (abs_loads a l) = ld_group l"
  "ld_pc (abs_loads a l) = ld_pc l"
  "sv_loads (abs_server a s) = abs_loads a (sv_loads s)" "sv_phase (abs_server a s) = sv_phase s"
  "e_Get (abs_env get env) = get" "e_counters (abs_env get env) = e_counters env" "e_now (abs_env get env) = e_now env"
  "e_decode (abs_env get env) = e_decode env" "e_rng (abs_env get env) = e_rng env" "e_ParseTime (abs_env get env) = e_ParseTime env"
  by (simp_all add: abs_world_def abs_loads_def abs_server_def abs_env_def)

lemma abs_world_update [simp]:
  "abs_world a (w\<lparr>w_store := st\<rparr>) = abs_world a w"
  "abs_world a (w\<lparr>w_cache := c\<rparr>) = (abs_world a w)\<lparr>w_cache := c\<rparr>"
  "abs_world a (w\<lparr>w_metrics := mt\<rparr>) = (abs_world a w)\<lparr>w_metrics := mt\<rparr>"
  "abs_world a (w\<lparr>w_log := lg\<rparr>) = (abs_world a w)\<lparr>w_log := lg\<rparr>"
  "(abs_world a w)\<lparr>w_store := a\<rparr> = abs_world a w"
  by (simp_all add: abs_world_def)

lemma abs_loads_goto: "abs_loads a (goto t p w l) = goto t p (abs_world a w) (abs_loads a l)"
  by (simp add: abs_loads_def goto_def)

lemma abs_loads_update [simp]:
  "abs_loads a (l\<lparr>ld_world := w\<rparr>) = (abs_loads a l)\<lparr>ld_world := abs_world a w\<rparr>"
  "abs_loads a (l\<lparr>ld_group := gr\<rparr>) = (abs_loads a l)\<lparr>ld_group := gr\<rparr>"
  "abs_loads a (l\<lparr>ld_pc := p\<rparr>) = (abs_loads a l)\<lparr>ld_pc := p\<rparr>"
  "abs_loads a (l\<lparr>ld_group := gr, ld_pc := p\<rparr>) = (abs_loads a l)\<lparr>ld_group := gr, ld_pc := p\<rparr>"
  by (simp_all add: abs_loads_def)

lemma abs_server_update [simp]:
  "abs_server a (s\<lparr>sv_loads := l\<rparr>) = (abs_server a s)\<lparr>sv_loads := abs_loads a l\<rparr>"
  "abs_server a (move t p l s) = move t p (abs_loads a l) (abs_server a s)"
  by (simp_all add: abs_server_def move_def)

subsection \<open>Steps of the handler under the abstraction\<close>

lemma parsed_abs: "parsed (abs_env get env) rc = parsed env rc"
  by (simp add: parsed_def cong: sum.case_cong)

lemma load_step_abs:
  assumes "\<forall>k. ld_pc l t \<noteq> LFetch k"
  shows "load_step (abs_env get env) ops t (abs_loads a l) = abs_loads a (load_step env ops t l)"
proof (cases "\<exists>k res. ld_pc l t = LLeave k res")
  case True
  then obtain k res where p: "ld_pc l t = LLeave k res" by blast
  obtain ws g' where e: "fl_leave ops k t (ld_group l) = (ws, g')" by fastforce
  have "ld_pc (abs_loads a l) t = LLeave k res" "fl_leave ops k t (ld_group (abs_loads a l)) = (ws, g')"
    using p e by simp_all
  from load_steps(7) [OF this] load_steps(7) [OF p e] show ?thesis
    by (simp add: abs_loads_def cong: if_cong)
next
  case False
  with assms show ?thesis
    by (cases "ld_pc l t")
      (auto simp: load_step_def Let_def abs_loads_goto split: prod.split option.split sum.split)
qed

lemma fetch_abs:
  assumes "ld_pc l t = LFetch k" "get k a = (res, a)"
  shows "load_step (abs_env get env) ops t (abs_loads a l) =
    abs_loads a (goto t (case res of Inl err \<Rightarrow> LLeave k (Inl (StoreFailure err)) | Inr rc \<Rightarrow> LParse k rc) (ld_world l) l)"
  using assms by (auto simp: load_step_def Let_def abs_loads_goto split: sum.split)

lemma accept_abs: "accept (abs_env get env) t r room (abs_server a s) = abs_server a (accept env t r room s)"
  by (simp add: accept_def Let_def observe_def split: option.split)

lemma abs_env_updates [simp]:
  "abs_env get (at_time now env) = at_time now (abs_env get env)" "abs_env get (with_result rd env) = abs_env get env"
  by (simp_all add: abs_env_def at_time_def with_result_def)

lemma add_bytes_abs [simp]: "add_bytes (abs_env get env) s n (abs_world a w) = abs_world a (add_bytes env s n w)"
  by (simp add: add_bytes_def)

lemma log_event_abs [simp]: "abs_world a (log_event e w) = log_event e (abs_world a w)"
  by (simp add: log_event_def)

lemma streamBlob_abs:
  "streamBlob (abs_env get env) s k status rc (rw, abs_world a w) =
   map_prod id (abs_world a) (streamBlob env s k status rc (rw, w))"
  by (auto simp: streamBlob_def Let_def split: prod.split option.split)

lemma serveBlob_abs:
  assumes "\<forall>k. wanted_blob (e_ParseTime env) r s m entry status = Some k \<longrightarrow>
    get k a = (fst (e_Get env k (w_store w)), a)"
  shows "serveBlob (abs_env get env) r s m entry status (rw, abs_world a w) =
    map_prod id (abs_world a) (serveBlob env r s m entry status (rw, w))"
proof (cases "wanted_blob (e_ParseTime env) r s m entry status")
  case None
  then show ?thesis by (auto simp: serveBlob_def wanted_blob_def Let_def split: if_splits)
next
  case (Some k)
  then have k: "k = BlobKey (s_project s) (s_name s) (Blob entry)" "rq_Method r \<noteq> MethodHead"
      "\<not> (status = StatusOK \<and> conditionalNotModified (e_ParseTime env) r (ETag (Blob entry)) (ModTime m))"
    by (auto simp: wanted_blob_def split: if_splits)
  obtain rd st where g: "e_Get env k (w_store w) = (rd, st)" by fastforce
  with assms Some have h: "get k a = (rd, a)" by auto
  show ?thesis
    using k(2,3) g h streamBlob_abs [where w = "w\<lparr>w_store := st\<rparr>" and a = a and get = get] unfolding k(1)
    by (cases rd) (auto simp: serveBlob_def Let_def)
qed

lemma serveNotFound_abs:
  assumes "\<forall>k. (case Lookup m (NotFoundDoc m) of
      (entry, True) \<Rightarrow> wanted_blob (e_ParseTime env) r s m entry StatusNotFound | (_, False) \<Rightarrow> None) = Some k \<longrightarrow>
    get k a = (fst (e_Get env k (w_store w)), a)"
  shows "serveNotFound (abs_env get env) r s m (rw, abs_world a w) =
    map_prod id (abs_world a) (serveNotFound env r s m (rw, w))"
  using assms serveBlob_abs [of env r s m "fst (Lookup m (NotFoundDoc m))" StatusNotFound get a w rw]
  by (auto simp: serveNotFound_def Let_def split: prod.split bool.split)

lemma respond_abs:
  assumes "\<forall>k. wanted (e_ParseTime env) r s res = Some k \<longrightarrow> get k a = (fst (e_Get env k (w_store w)), a)"
  shows "respond (abs_env get env) r s res (rw, abs_world a w) = map_prod id (abs_world a) (respond env r s res (rw, w))"
proof (cases res)
  case (Inl err)
  then show ?thesis by (simp add: respond_def)
next
  case (Inr m)
  let ?kind = "Kind (Resolve (s_rest s) (\<lambda>p. snd (Lookup m p)) (SPA m))"
  show ?thesis
  proof (cases "?kind = NotFound")
    case True
    with Inr have w: "wanted (e_ParseTime env) r s res = (case Lookup m (NotFoundDoc m) of
        (entry, True) \<Rightarrow> wanted_blob (e_ParseTime env) r s m entry StatusNotFound | (_, False) \<Rightarrow> None)"
      by (simp only: wanted_def Let_def Kind.case sum.case)
    from serveNotFound_abs [where get = get and a = a, OF assms [unfolded w]] True Inr show ?thesis
      by (simp add: respond_def serveSite_def Let_def)
  next
    case False
    with assms Inr show ?thesis
      by (auto simp: respond_def serveSite_def wanted_def Let_def serveBlob_abs split: Kind.split)
  qed
qed

lemma finish_abs:
  assumes "\<forall>k. wanted (e_ParseTime env) r st res = Some k \<longrightarrow> get k a = (fst (e_Get env k (w_store (sv_world s))), a)"
  shows "finish (abs_env get env) t r room st res (abs_server a s) = abs_server a (finish env t r room st res s)"
  using respond_abs [where get = get and a = a, OF assms, of "newResponse r room"]
  by (simp add: finish_def split: prod.split)

lemma abs_shape [simp]: "shape_ok ok leader waiting (abs_server held sv) = shape_ok ok leader waiting sv"
  by (simp add: shape_ok_def)

lemma released_abs [simp]: "released (abs_env get env) = released env"
  by (intro ext) (unfold released_def abs_simps, rule refl)

lemma ideal_abs [simp]: "ideal (abs_env get env) = ideal env"
  by (intro ext) (unfold ideal_def ideal_site_def abs_simps released_abs, rule refl)

lemma abs_sweep:
  "abs_server a (fn_server (put_loads ((sv_loads (fn_server s))\<lparr>ld_world := (sv_world (fn_server s))\<lparr>w_metrics := mt\<rparr>\<rparr>) s)) =
   (abs_server a (fn_server s))\<lparr>sv_loads := (sv_loads (abs_server a (fn_server s)))\<lparr>ld_world :=
     (sv_world (abs_server a (fn_server s)))\<lparr>w_metrics := mt\<rparr>\<rparr>\<rparr>"
  by (simp add: put_loads_def)

lemma truth_Get_result: "read_truthful exact held k res \<Longrightarrow> truth_Get exact k (held, res) = (res, (held, res))"
  by (simp add: truth_Get_def)

context object_store
begin

text \<open>The simulation: a step of a read changes nothing abstract, any other is one of \<open>ConcurrentGateway\<close> over
  the store that answers with a result the read came to.\<close>

lemma fine_turn_simulates:
  assumes i: "fine_ok exact ok leader waiting invar objs held env s" and st: "fine_turn get env ops t s s'"
  shows "(\<forall>rd :: store_error + reader. abs_server (held, rd) (fn_server s') = abs_server (held, rd) (fn_server s)) \<or>
    (\<exists>rd. request_step (abs_env (truth_Get exact) env) ops (abs_server (held, rd) (fn_server s)) (abs_server (held, rd) (fn_server s')))"
  using st
proof cases
  case (f_accepts r room now)
  from accepts [of "abs_server (held, undefined) (fn_server s)" t r room "abs_env (truth_Get exact) env" ops now]
    accept_abs [of "truth_Get exact" "at_time now env" t r room "(held, undefined)" "fn_server s"] f_accepts(2)
  show ?thesis by (auto simp: f_accepts(1))
next
  case (f_loads r room st)
  from loads [of "abs_server (held, undefined) (fn_server s)" t r room st "abs_env (truth_Get exact) env" ops] f_loads(2-4)
  show ?thesis by (auto simp: f_loads(1) put_loads_def load_step_abs)
next
  case f_reads
  have "(abs_loads a l)\<lparr>ld_world := abs_world a (ld_world l)\<rparr> = abs_loads a l" for a :: told and l :: "('s Store, 'b, 'c) loaders"
    by (simp add: abs_loads_def)
  then show ?thesis
    by (simp add: f_reads(1) read_step_def read_to_def put_loads_def abs_server_def split: prod.split)
next
  case (f_fetches r room st k q res)
  have "q = k" using fine_okD(5) [OF i, of t] f_fetches(3,4) by (auto simp: read_fits_def)
  then have "read_truthful exact held k res" using fine_okD(4) [OF i, of t] f_fetches(4) by (simp add: read_ok_def)
  from fetch_abs [where get = "truth_Get exact" and a = "(held, res)", OF f_fetches(3) truth_Get_result [OF this], of env ops]
    loads [of "abs_server (held, res) (fn_server s)" t r room st "abs_env (truth_Get exact) env" ops] f_fetches(2,3)
  show ?thesis by (auto simp: f_fetches(1) fetch_step_def read_to_def put_loads_def)
next
  case (f_answers r room st q res now)
  from answers [of "abs_server (held, undefined) (fn_server s)" t r room st q res "abs_env (truth_Get exact) env" ops now]
    finish_abs [of "at_time now env" r st res "truth_Get exact" "(held, undefined)" "fn_server s"] f_answers(2-4)
  show ?thesis by (auto simp: f_answers(1))
next
  case (f_serves r room st q res k k' rd now)
  have "k' = k" using fine_okD(5) [OF i, of t] f_serves(2-5) by (auto simp: read_fits_def)
  then have "read_truthful exact held k rd" using fine_okD(4) [OF i, of t] f_serves(5) by (simp add: read_ok_def)
  with answers [of "abs_server (held, rd) (fn_server s)" t r room st q res "abs_env (truth_Get exact) env" ops now]
    finish_abs [of "at_time now (with_result rd env)" r st res "truth_Get exact" "(held, rd)" "fn_server s"] f_serves(2-4)
  show ?thesis by (auto simp: f_serves(1) read_to_def truth_Get_result)
qed (simp_all add: read_to_def)

text \<open>What every step of \<open>ConcurrentGateway\<close> keeps, whatever the result its store is to answer with, is kept.\<close>

lemma fine_run_keeps:
  fixes s0 s :: "('s, 'v, 'g) fine"
  assumes run: "fine_run get env ops n s0 s" and c: "flight_contract ops ok leader waiting"
    and i: "fine_ok exact ok leader waiting invar objs held env s0"
    and inner: "\<forall>s k. invar s \<longrightarrow> read_truthful exact (objs s) k (fst (get k s))"
    and start: "\<And>rd. Q (abs_server (held, rd) (fn_server s0))"
    and step: "\<And>s s'. shape_ok ok leader waiting s \<Longrightarrow> Q s \<Longrightarrow> request_step (abs_env (truth_Get exact) env) ops s s' \<Longrightarrow> Q s'"
    and any: "\<And>(s :: ('s Store, 'v, 'g) server) rd rd'. Q (abs_server (held, rd) s) \<Longrightarrow> Q (abs_server (held, rd') s)"
    and swept: "\<And>s mt. Q s \<Longrightarrow> Q (s\<lparr>sv_loads := (sv_loads s)\<lparr>ld_world := (sv_world s)\<lparr>w_metrics := mt\<rparr>\<rparr>\<rparr>)"
  shows "Q (abs_server (held, rd) (fn_server s))"
  using run i start
proof (induction arbitrary: rd rule: fine_run.induct)
  case (f_step n s0 s t s')
  note i = conjunct1 [OF fine_run_ok [OF f_step.hyps(1) c f_step.prems(1) inner]]
  note IH = f_step.IH [OF f_step.prems]
  have sh: "shape_ok ok leader waiting (abs_server a (fn_server s))" for a
    using fine_okD(1) [OF i] by simp
  from fine_turn_simulates [OF i f_step.hyps(2)] show ?case
  proof (elim disjE exE)
    assume "\<forall>rd :: store_error + reader. abs_server (held, rd) (fn_server s') = abs_server (held, rd) (fn_server s)"
    with IH show ?thesis by simp
  next
    fix rd' assume "request_step (abs_env (truth_Get exact) env) ops (abs_server (held, rd') (fn_server s))
      (abs_server (held, rd') (fn_server s'))"
    from any [OF step [OF sh IH this]] show ?thesis .
  qed
next
  case (f_sweep n s0 s visit now ttl)
  from swept [OF f_sweep.IH [OF f_sweep.prems]] show ?case unfolding abs_sweep .
qed

lemma server_inv_told:
  "server_inv P (abs_env get' env) (\<lambda>_. True) fst held (abs_server (held, rd) sv) \<Longrightarrow>
   server_inv P (abs_env get' env) (\<lambda>_. True) fst held (abs_server (held, rd') sv)"
  by (auto simp: server_inv_def loads_ok_def world_ok_def)

lemma fine_start_inv:
  assumes "fine_start ok leader waiting s0" "world_ok (store_invar invar objs) (store_objs objs) env (sv_world (fn_server s0))"
    "held = store_objs objs (fn_store s0)"
  shows "server_inv P (abs_env get' env) (\<lambda>_. True) fst held (abs_server (held, rd) (fn_server s0))"
proof -
  have "fn_phase s0 t \<noteq> Answered r room rw" for t r room rw
    using assms(1) by (auto simp: fine_start_def server_start_def dest: spec [of _ t])
  with assms show ?thesis
    by (auto simp: server_inv_def loads_ok_def world_ok_def fine_start_def server_start_def)
qed

text \<open>What an interleaved run sends as a 200 is authentic.\<close>

lemma fine_run_authentic:
  assumes run: "fine_run get env ops n s0 s" and c: "flight_contract ops ok leader waiting"
    and s0: "fine_start ok leader waiting s0" "world_ok (store_invar invar objs) (store_objs objs) env (sv_world (fn_server s0))"
    and a: "fn_phase s t = Answered r room rw"
  shows "authentic env (store_objs objs (fn_store s0)) r rw"
proof -
  let ?held = "store_objs objs (fn_store s0)"
  let ?env = "abs_env (truth_Get False) env"
  let ?Q = "server_inv (\<lambda>r _ rw. authentic ?env ?held r rw) ?env (\<lambda>_. True) fst ?held"
  have iv: "store_invar invar objs (fn_store s0)" using s0(2) by (simp add: world_ok_def)
  have inner: "\<forall>s k. invar s \<longrightarrow> read_truthful False (objs s) k (fst (get k s))" using inner_truthful by blast
  have "?Q (abs_server (?held, undefined) (fn_server s))"
    by (rule fine_run_keeps [where Q = ?Q, OF run c fine_start_ok [OF s0(1) iv refl] inner])
      (rule fine_start_inv [OF s0 refl] truth.request_step_authentic server_inv_told server_inv_metrics; simp)+
  with a show ?thesis by (simp add: server_inv_def authentic_def)
qed

end

context reliable_store
begin

text \<open>Over a store without failures it answers as the specification says.\<close>

lemma fine_run_answers:
  assumes run: "fine_run get env ops n s0 s" and c: "flight_contract ops ok leader waiting"
    and s0: "fine_start ok leader waiting s0" "world_ok (store_invar invar objs) (store_objs objs) env (sv_world (fn_server s0))"
    and a: "fn_phase s t = Answered r room rw"
  shows "answer_of rw = ideal env (store_objs objs (fn_store s0)) room r"
proof -
  let ?held = "store_objs objs (fn_store s0)"
  let ?env = "abs_env (truth_Get True) env"
  let ?Q = "server_ok ?env (\<lambda>_. True) fst ?held"
  have iv: "store_invar invar objs (fn_store s0)" using s0(2) by (simp add: world_ok_def)
  have inner: "\<forall>s k. invar s \<longrightarrow> read_truthful True (objs s) k (fst (get k s))" using inner_exact by blast
  have "?Q (abs_server (?held, undefined) (fn_server s))"
    by (rule fine_run_keeps [where Q = ?Q, OF run c fine_start_ok [OF s0(1) iv refl] inner])
      (rule fine_start_inv [OF s0 refl] exact_truth.request_step_ok server_inv_told server_inv_metrics; simp)+
  with a show ?thesis by (simp add: server_inv_def)
qed

end

end
