(* ===== verification/LoneRequest.thy ===== *)
theory LoneRequest
  imports InterleavedAnswers
begin

section \<open>A request alone\<close>

text \<open>
  The interleaved model and the model of a request as one step are two translations of the same handler. A
  request that meets no other does, by its own steps in \<open>InterleavedGateway\<close>, exactly what \<open>handle\<close> does: the same
  response, and the same store, caches, counters and log after it.
\<close>

subsection \<open>Reads\<close>

lemma store_step_idle: "\<not> reading p \<Longrightarrow> store_step g (p, st) = (p, st)"
  by (cases p; cases st) simp_all

lemma store_steps_caching:
  "(store_step g ^^ i) (p, Caching c) = (case (gstep g ^^ i) (p, c) of (p', c') \<Rightarrow> (p', Caching c'))"
  by (induction i) (simp_all split: prod.split)

text \<open>The store steps of a thread are its steps in the interleaved model, as far as it is reading.\<close>

abbreviation lone :: "thread \<Rightarrow> gpc \<Rightarrow> 's Store \<Rightarrow> ('s, 'v, 'g) fine \<Rightarrow> ('s, 'v, 'g) fine" where
  "lone t p st s \<equiv> read_to t p (put_loads ((sv_loads (fn_server s))\<lparr>ld_world := (sv_world (fn_server s))\<lparr>w_store := st\<rparr>\<rparr>) s)"

abbreviation fine_steps where
  "fine_steps g env ops \<equiv> rtranclp (fine_step g env ops)"

lemma fine_steps_read:
  "(store_step g ^^ i) (fn_read s t, fn_store s) = (p, st) \<Longrightarrow> fine_steps g env ops s (lone t p st s)"
proof (induction i arbitrary: s)
  case 0
  then have "lone t p st s = s" by (auto simp: read_to_def put_loads_def)
  then show ?case by simp
next
  case (Suc i)
  obtain q st' where st: "store_step g (fn_read s t, fn_store s) = (q, st')" by fastforce
  with Suc.prems have rest: "(store_step g ^^ i) (q, st') = (p, st)" by (simp add: funpow_swap1)
  show ?case
  proof (cases "reading (fn_read s t)")
    case False
    with st rest Suc.IH [of s] show ?thesis by (simp add: store_step_idle)
  next
    case True
    let ?s = "read_step g t s"
    have "(store_step g ^^ i) (fn_read ?s t, fn_store ?s) = (p, st)"
      using st rest by (simp add: read_step_def read_to_def put_loads_def)
    from Suc.IH [OF this] have "fine_steps g env ops ?s (lone t p st ?s)" .
    moreover have "lone t p st ?s = lone t p st s"
      using st by (simp add: read_step_def read_to_def put_loads_def)
    ultimately show ?thesis
      using fine_stepI [OF f_reads [OF True, of g env ops]] by (auto intro: converse_rtranclp_into_rtranclp)
  qed
qed

context object_store
begin

lemma store_steps_Get:
  assumes "store_invar invar objs st"
  shows "\<exists>i. (store_step get ^^ i) (GStart k, st) = (GDone k (fst (store_Get get k st)), snd (store_Get get k st))"
proof (cases st)
  case (Unwrapped s)
  then show ?thesis by (intro exI [of _ 1]) (simp split: prod.split)
next
  case (Caching c)
  with assms have "cs_invar invar objs c" by simp
  then obtain res c' where g: "CachingStore_Get get k c = Some (res, c')"
    by (rule caching_Get_cases [of c k]) blast
  with lone_read_is_Get [of get k c] obtain i where "(gstep get ^^ i) (GStart k, c) = (GDone k res, c')" by auto
  with g Caching show ?thesis
    by (intro exI [of _ i]) (simp add: store_steps_caching store_Get_def cs_Get_def)
qed

lemma fine_steps_Get:
  assumes "store_invar invar objs (fn_store s)" "fn_read s t = GStart k" "store_Get get k (fn_store s) = (res, st)"
  shows "fine_steps get env ops s (lone t (GDone k res) st s)"
proof -
  obtain i where "(store_step get ^^ i) (fn_read s t, fn_store s) = (GDone k res, st)"
    using store_steps_Get [OF assms(1), of k] assms(2,3) by auto
  then show ?thesis by (rule fine_steps_read)
qed

subsection \<open>Loads\<close>

lemma fine_steps_load:
  assumes env: "e_Get env = store_Get get" and iv: "store_invar invar objs (fn_store s)"
    and ph: "fn_phase s t = Loading r room st" "runnable (fn_pc s t)" and idle: "fn_read s t = GIdle"
  shows "fine_steps get env ops s (put_loads (load_step env ops t (sv_loads (fn_server s))) s)"
proof (cases "\<exists>k. fn_pc s t = LFetch k")
  case False
  with fine_stepI [OF f_loads [OF ph, of get env ops]] show ?thesis by auto
next
  case True
  then obtain k where k: "fn_pc s t = LFetch k" by blast
  obtain res st' where g: "store_Get get k (fn_store s) = (res, st')" by fastforce
  let ?a = "read_to t (GStart k) s"
  let ?b = "lone t (GDone k res) st' ?a"
  have a: "fine_step get env ops s ?a" by (rule fine_stepI [OF f_opens [OF ph(1) k idle]])
  have "fn_store ?a = fn_store s" "fn_read ?a t = GStart k" by (simp_all add: read_to_def)
  with fine_steps_Get [of ?a t k res st' env ops] iv g have b: "fine_steps get env ops ?a ?b" by simp
  have "fn_phase ?b t = Loading r room st" "fn_pc ?b t = LFetch k" "fn_read ?b t = GDone k res"
    using ph k by (simp_all add: read_to_def put_loads_def)
  from fine_stepI [OF f_fetches [OF this, of get env ops]] have c: "fine_step get env ops ?b (fetch_step t k res ?b)" .
  have "(fn_read s)(t := GIdle) = fn_read s" using idle by (simp add: fun_eq_iff)
  then have eq: "fetch_step t k res ?b = put_loads (load_step env ops t (sv_loads (fn_server s))) s"
    using load_steps(4) [OF k, of env res st' ops] env g
    by (simp add: fetch_step_def read_to_def put_loads_def goto_def)
  from rtranclp.rtrancl_into_rtrancl [OF converse_rtranclp_into_rtranclp [OF a b] c] show ?thesis
    unfolding eq .
qed

lemma fine_steps_loads:
  assumes env: "e_Get env = store_Get get"
  shows "store_invar invar objs (fn_store s) \<Longrightarrow> fn_phase s t = Loading r room st \<Longrightarrow> fn_read s t = GIdle \<Longrightarrow>
    fine_steps get env ops s (put_loads ((load_step env ops t ^^ i) (sv_loads (fn_server s))) s) \<and>
    store_invar invar objs (w_store (ld_world ((load_step env ops t ^^ i) (sv_loads (fn_server s)))))"
proof (induction i arbitrary: s)
  case 0
  then show ?case by (simp add: put_loads_def)
next
  case (Suc i)
  let ?l = "load_step env ops t (sv_loads (fn_server s))"
  show ?case
  proof (cases "runnable (fn_pc s t)")
    case False
    then have "?l = sv_loads (fn_server s)" by (cases "fn_pc s t") (simp_all add: load_step_def Let_def)
    with Suc show ?thesis by (simp add: funpow_swap1)
  next
    case True
    note st = fine_steps_load [OF env Suc.prems(1,2) True Suc.prems(3), of ops]
    let ?s = "put_loads ?l s"
    have "store_invar invar objs (fn_store ?s)"
    proof (cases "\<exists>k. fn_pc s t = LFetch k")
      case False
      with load_step_store [of "sv_loads (fn_server s)" t env ops] Suc.prems(1) show ?thesis by (simp add: put_loads_def)
    next
      case True
      then obtain k where k: "fn_pc s t = LFetch k" by blast
      obtain res st' where g: "store_Get get k (fn_store s) = (res, st')" by fastforce
      have "store_invar invar objs st'"
        using object_store.get_invar [OF store_Get_object_store [OF object_store_axioms] Suc.prems(1), of k] g by simp
      with load_steps(4) [OF k, of env res st' ops] env g show ?thesis by (simp add: put_loads_def)
    qed
    moreover have "fn_phase ?s t = Loading r room st" "fn_read ?s t = GIdle"
      using Suc.prems by (simp_all add: put_loads_def)
    ultimately have IH: "fine_steps get env ops ?s (put_loads ((load_step env ops t ^^ i) (sv_loads (fn_server ?s))) ?s)"
        "store_invar invar objs (w_store (ld_world ((load_step env ops t ^^ i) (sv_loads (fn_server ?s)))))"
      using Suc.IH [of ?s] by simp_all
    have l: "sv_loads (fn_server ?s) = ?l" "put_loads x ?s = put_loads x s" for x
      by (simp_all add: put_loads_def)
    have pow: "(load_step env ops t ^^ i) ?l = (load_step env ops t ^^ Suc i) (sv_loads (fn_server s))"
      by (simp add: funpow_swap1)
    from rtranclp_trans [OF st IH(1)] IH(2) show ?thesis unfolding l pow by (rule conjI)
  qed
qed

end

subsection \<open>The answer\<close>

lemma serveBlob_read:
  assumes "wanted_blob (e_ParseTime env) r s m e c = Some k"
  shows "w_store (snd (serveBlob env r s m e c (rw, w))) = snd (e_Get env k (w_store w))"
  using assms
  by (auto simp: serveBlob_def wanted_blob_def Let_def streamBlob_def add_bytes_def log_event_def
      split: if_splits prod.split sum.split option.split)

lemma respond_read:
  assumes "wanted (e_ParseTime env) r s res = Some k"
  shows "w_store (snd (respond env r s res (rw, w))) = snd (e_Get env k (w_store w))"
proof (cases res)
  case (Inl err)
  with assms show ?thesis by (simp add: wanted_def)
next
  case (Inr m)
  have n: "w_store (snd (serveNotFound env r s m (rw, w))) = snd (e_Get env k (w_store w))"
    if "(case Lookup m (NotFoundDoc m) of
      (entry, True) \<Rightarrow> wanted_blob (e_ParseTime env) r s m entry StatusNotFound | (_, False) \<Rightarrow> None) = Some k"
    using that by (auto simp: serveNotFound_def serveBlob_read split: prod.splits bool.splits)
  show ?thesis
  proof (cases "Kind (Resolve (s_rest s) (\<lambda>p. snd (Lookup m p)) (SPA m)) = NotFound")
    case True
    with Inr assms n show ?thesis
      by (simp only: wanted_def respond_def serveSite_def Let_def Kind.case sum.case case_prod_conv)
  next
    case False
    with Inr assms show ?thesis
      by (auto simp: respond_def serveSite_def wanted_def Let_def serveBlob_read split: Kind.splits)
  qed
qed

text \<open>With the result of its read at hand, and the store as the read left it, a request is answered the same.\<close>

lemma respond_with_result:
  assumes d: "do_runs env" and w: "wanted (e_ParseTime env) r s res = Some k" "e_Get env k (w_store w) = (rd, st)"
  shows "respond (with_result rd env) r s res (rw, w\<lparr>w_store := st\<rparr>) = respond env r s res (rw, w)"
proof -
  have env: "abs_env (\<lambda>_ x. (rd, x)) env = with_result rd env"
    using d by (simp add: abs_env_def with_result_def do_runs_def fun_eq_iff)
  have world: "abs_world st x = x\<lparr>w_store := st\<rparr>" for x :: "('a, 'b) world"
    by (simp add: abs_world_def)
  have "respond (with_result rd env) r s res (rw, w\<lparr>w_store := st\<rparr>) =
      map_prod id (\<lambda>x. x\<lparr>w_store := st\<rparr>) (respond env r s res (rw, w))"
    using respond_abs [where get = "\<lambda>_ x. (rd, x)" and a = st and env = env and r = r and s = s and res = res and w = w and rw = rw]
      w unfolding env world by simp
  also have "\<dots> = respond env r s res (rw, w)"
    using respond_read [OF w(1), of rw w] w(2) by (cases "respond env r s res (rw, w)") auto
  finally show ?thesis .
qed

context object_store
begin

lemma fine_steps_answer:
  assumes env: "e_Get env = store_Get get" "do_runs env" and iv: "store_invar invar objs (fn_store s)"
    and ph: "fn_phase s t = Loading r room st" "fn_pc s t = LDone q res" and idle: "fn_read s t = GIdle"
  shows "fine_steps get env ops s (s\<lparr>fn_server := finish (at_time now env) t r room st res (fn_server s)\<rparr>)"
proof (cases "wanted (e_ParseTime env) r st res")
  case None
  from fine_stepI [OF f_answers [OF ph None, of get ops now]] show ?thesis by blast
next
  case (Some k)
  obtain rd st' where g: "store_Get get k (fn_store s) = (rd, st')" by fastforce
  let ?a = "read_to t (GStart k) s"
  let ?b = "lone t (GDone k rd) st' ?a"
  have a: "fine_step get env ops s ?a" by (rule fine_stepI [OF f_wants [OF ph Some idle]])
  have "fn_store ?a = fn_store s" "fn_read ?a t = GStart k" by (simp_all add: read_to_def)
  with fine_steps_Get [of ?a t k rd st' env ops] iv g have b: "fine_steps get env ops ?a ?b" by simp
  have p: "fn_phase ?b t = Loading r room st" "fn_pc ?b t = LDone q res" "fn_read ?b t = GDone k rd"
    using ph by (simp_all add: read_to_def put_loads_def)
  from fine_stepI [OF f_serves [OF p(1,2) Some p(3), of get ops now]]
  have c: "fine_step get env ops ?b (read_to t GIdle
      (?b\<lparr>fn_server := finish (at_time now (with_result rd env)) t r room st res (fn_server ?b)\<rparr>))" .
  have "respond (at_time now (with_result rd env)) r st res (rw, w\<lparr>w_store := st'\<rparr>) = respond (at_time now env) r st res (rw, w)"
    if "w_store w = fn_store s" for rw w
  proof -
    have "at_time now (with_result rd env) = with_result rd (at_time now env)" by (simp add: at_time_def with_result_def)
    then show ?thesis
      using respond_with_result [of "at_time now env" r st res k w rd st' rw] env Some g that by simp
  qed
  moreover have "(fn_read s)(t := GIdle) = fn_read s" using idle by (simp add: fun_eq_iff)
  ultimately have eq: "read_to t GIdle (?b\<lparr>fn_server := finish (at_time now (with_result rd env)) t r room st res (fn_server ?b)\<rparr>) =
      s\<lparr>fn_server := finish (at_time now env) t r room st res (fn_server s)\<rparr>"
    by (simp add: finish_def read_to_def put_loads_def move_def split: prod.split)
  have "fine_steps get env ops s ?b" using a b by (rule converse_rtranclp_into_rtranclp)
  from rtranclp.rtrancl_into_rtrancl [where r = "fine_step get env ops", OF this c [unfolded eq]] show ?thesis .
qed

end

subsection \<open>The whole request\<close>

lemma at_time_loadManifest: "loadManifest (at_time now env) st w = loadManifest env st w"
proof -
  have once: "loadOnce (at_time now env) = loadOnce env" by (intro ext) (unfold loadOnce_def at_time_simps, rule refl)
  show ?thesis by (unfold loadManifest_def at_time_simps once, rule refl)
qed

text \<open>A request that meets no other, on a server with no load in flight, can run to its answer, and the answer and
  the state it leaves are those of \<open>handle\<close> at the same clock reading.\<close>

theorem lone_request_is_handle:
  fixes s :: "('s, 'v, 'g) fine"
  assumes st: "object_store iv objs g" and env: "e_Get env = store_Get g" "do_runs env"
    and c: "flight_contract ops ok leader waiting" and iv: "store_invar iv objs (fn_store s)"
    and free: "ok (ld_group (sv_loads (fn_server s)))" "leader (ld_group (sv_loads (fn_server s))) = Map.empty"
      "waiting (ld_group (sv_loads (fn_server s))) = (\<lambda>_. {})"
    and t: "fn_phase s t = Incoming r room" "fn_read s t = GIdle"
  shows "\<exists>s'. fine_steps g env ops s s' \<and>
    (case handle (at_time now env) room r (sv_world (fn_server s)) of (rw, w) \<Rightarrow>
       fn_phase s' t = Answered r room rw \<and> sv_world (fn_server s') = w)"
proof -
  let ?env = "at_time now env"
  let ?s1 = "s\<lparr>fn_server := accept ?env t r room (fn_server s)\<rparr>"
  have a: "fine_step g env ops s ?s1" by (rule fine_stepI [OF f_accepts [OF t(1)]])
  show ?thesis
  proof (cases "(rq_Method r = MethodGet \<or> rq_Method r = MethodHead) \<and> parseSite (rq_Path r) \<noteq> None")
    case False
    then have "case handle ?env room r (sv_world (fn_server s)) of (rw, w) \<Rightarrow>
        fn_phase ?s1 t = Answered r room rw \<and> sv_world (fn_server ?s1) = w"
      by (auto simp: handle_def ServeHTTP_def accept_def Let_def)
    from conjI [OF r_into_rtranclp [of "fine_step g env ops", OF a] this] show ?thesis by (rule exI)
  next
    case True
    then obtain st where p: "parseSite (rq_Path r) = Some st" by blast
    let ?w1 = "observe ?env st (sv_world (fn_server s))" and ?l1 = "sv_loads (fn_server ?s1)"
    have s1: "fn_phase ?s1 t = Loading r room st" "ld_world ?l1 = ?w1" "ld_pc ?l1 t = LStart (site_key st)"
        "ld_group ?l1 = ld_group (sv_loads (fn_server s))" "fn_read ?s1 t = GIdle"
      using True p t(2) by (auto simp: accept_def Let_def)
    obtain res w2 where lm: "loadManifest env st ?w1 = (res, w2)" by fastforce
    have f: "ok (ld_group ?l1)" "leader (ld_group ?l1) (site_key st) = None" "waiting (ld_group ?l1) (site_key st) = {}"
      using free unfolding s1(4) by simp_all
    let ?loaded = "\<lambda>i. case loadManifest env st (ld_world ?l1) of (res, w) \<Rightarrow>
        (let s' = (load_step env ops t ^^ i) ?l1 in ld_world s' = w \<and> ld_pc s' = (ld_pc ?l1)(t := LDone (site_key st) res) \<and>
           leader (ld_group s') = leader (ld_group ?l1))"
    have "\<exists>i \<le> 7. ?loaded i" by (rule lone_load_is_loadManifest [OF env(2) c f refl s1(3)])
    then obtain i where i: "?loaded i" by (elim exE conjE)
    define l2 where "l2 = (load_step env ops t ^^ i) ?l1"
    have l2: "ld_world l2 = w2" "ld_pc l2 t = LDone (site_key st) res"
      using i unfolding s1(2) lm prod.case Let_def l2_def by simp_all
    have "store_invar iv objs (fn_store ?s1)" using iv by (simp add: accept_store)
    from object_store.fine_steps_loads [OF st env(1) this s1(1,5), of ops i]
    have b: "fine_steps g env ops ?s1 (put_loads l2 ?s1)" and iv2: "store_invar iv objs (w_store (ld_world l2))"
      unfolding l2_def by blast+
    let ?s2 = "put_loads l2 ?s1"
    have s2: "fn_phase ?s2 t = Loading r room st" "fn_pc ?s2 t = LDone (site_key st) res" "fn_read ?s2 t = GIdle"
        "sv_world (fn_server ?s2) = w2" "store_invar iv objs (fn_store ?s2)"
      using s1 l2 iv2 t(2) by (simp_all add: put_loads_def)
    let ?s3 = "?s2\<lparr>fn_server := finish ?env t r room st res (fn_server ?s2)\<rparr>"
    have d: "fine_steps g env ops ?s2 ?s3"
      by (rule object_store.fine_steps_answer [OF st env s2(5,1,2,3)])
    have "handle ?env room r (sv_world (fn_server s)) = respond ?env r st res (newResponse r room, w2)"
      using ServeHTTP_respond [of r st ?env "newResponse r room" "sv_world (fn_server s)"] True p lm
      by (simp add: handle_def at_time_loadManifest)
    then have e: "case handle ?env room r (sv_world (fn_server s)) of (rw, w) \<Rightarrow>
        fn_phase ?s3 t = Answered r room rw \<and> sv_world (fn_server ?s3) = w"
      using s2(4) by (simp add: finish_def split: prod.split)
    have "fine_steps g env ops s ?s2" using a b by (rule converse_rtranclp_into_rtranclp)
    then have "fine_steps g env ops s ?s3" using d by (rule rtranclp_trans)
    from conjI [OF this e] show ?thesis by (rule exI)
  qed
qed

end
