(* ===== verification/ConcurrentAccounting.thy ===== *)
theory ConcurrentAccounting
  imports InterleavedGateway
begin

section \<open>Accounting under overlapping requests\<close>

text \<open>
  What the two counters of a site say after any number of interleaved requests and sweeps, when no sweep
  finds the site idle: the request counter has grown by the number of requests accepted for the site,
  finished or not, and the byte counter by at least the bodies of its 200 responses and at most all the
  bodies sent for it. The requests of other sites, rejected requests, and which caller of a coalesced
  load did the work make no difference.
\<close>

subsection \<open>What a request owes to its site\<close>

definition request_site :: "request \<Rightarrow> siteKey option" where
  "request_site r =
     (if rq_Method r = MethodGet \<or> rq_Method r = MethodHead then
        map_option (\<lambda>s. (s_project s, s_name s)) (parseSite (rq_Path r))
      else None)"

text \<open>The site a thread's request has been counted for.\<close>

fun counted_site :: "phase \<Rightarrow> siteKey option" where
  "counted_site (Loading r room st) = request_site r"
| "counted_site (Answered r room rw) = request_site r"
| "counted_site _ = None"

text \<open>The body bytes sent for a site by a thread, and those of a 200.\<close>

fun sent_for :: "siteKey \<Rightarrow> phase \<Rightarrow> nat" where
  "sent_for k (Answered r room rw) = (if request_site r = Some k then length (rs_Body rw) else 0)"
| "sent_for k _ = 0"

fun delivered_for :: "siteKey \<Rightarrow> phase \<Rightarrow> nat" where
  "delivered_for k (Answered r room rw) =
     (if request_site r = Some k \<and> rs_Status rw = Some 200 then length (rs_Body rw) else 0)"
| "delivered_for k _ = 0"

subsection \<open>Runs in which a site is awake\<close>

inductive awake_run :: "siteKey \<Rightarrow> (string \<Rightarrow> 's \<Rightarrow> (store_error + reader) \<times> 's) \<Rightarrow> ('s Store, 'v) env \<Rightarrow> 'g flight_ops \<Rightarrow>
   nat \<Rightarrow> ('s, 'v, 'g) fine \<Rightarrow> ('s, 'v, 'g) fine \<Rightarrow> bool" for k g env ops where
  awake_start: "awake_run k g env ops 0 s s"
| awake_step: "awake_run k g env ops n s s' \<Longrightarrow> fine_turn g env ops t s' s'' \<Longrightarrow> awake_run k g env ops (Suc n) s s''"
| awake_sweep: "awake_run k g env ops n s s' \<Longrightarrow> \<not> idle (UnixNano now - ttl) k (w_metrics (sv_world (fn_server s'))) \<Longrightarrow>
    awake_run k g env ops n s (put_loads ((sv_loads (fn_server s'))\<lparr>ld_world := (sv_world (fn_server s'))\<lparr>w_metrics :=
      evictIdle (e_counters env) visit now ttl (w_metrics (sv_world (fn_server s')))\<rparr>\<rparr>) s')"

lemma awake_run_fine: "awake_run k g env ops n s s' \<Longrightarrow> fine_run g env ops n s s'"
  by (induction rule: awake_run.induct) (auto intro: fine_run.intros)

subsection \<open>Steps\<close>

text \<open>The counters of one site.\<close>

definition requests_at :: "('v \<Rightarrow> siteKey \<Rightarrow> int option) \<Rightarrow> siteKey \<Rightarrow> 'v metrics \<Rightarrow> int" where
  "requests_at val k mt = series val (m_Requests mt) k"

definition bytes_at :: "('v \<Rightarrow> siteKey \<Rightarrow> int option) \<Rightarrow> siteKey \<Rightarrow> 'v metrics \<Rightarrow> int" where
  "bytes_at val k mt = series val (m_ResponseBytes mt) k"

lemma view_counters:
  "site_view val k mt = site_view val k mt' \<Longrightarrow>
   requests_at val k mt = requests_at val k mt' \<and> bytes_at val k mt = bytes_at val k mt'"
  by (simp add: site_view_def requests_at_def bytes_at_def series_def)

lemma counters_Observe:
  assumes "counter_laws ops val"
  shows "requests_at val k (ObserveRequest ops t p n mt) = requests_at val k mt + (if k = (p, n) then 1 else 0)"
    "bytes_at val k (ObserveRequest ops t p n mt) = bytes_at val k mt"
  by (simp_all add: requests_at_def bytes_at_def series_def counter_lawsD [OF assms])

lemma counters_Bytes:
  assumes "counter_laws ops val"
  shows "requests_at val k (AddResponseBytes ops t p n (int b) mt) = requests_at val k mt"
    "bytes_at val k (AddResponseBytes ops t p n (int b) mt) = bytes_at val k mt + (if k = (p, n) then int b else 0)"
  by (auto simp: requests_at_def bytes_at_def series_def counter_lawsD [OF assms])

text \<open>What one step adds, thread by thread.\<close>

definition step_counts :: "('v \<Rightarrow> siteKey \<Rightarrow> int option) \<Rightarrow> siteKey \<Rightarrow> ('s, 'v, 'g) server \<Rightarrow> ('s, 'v, 'g) server \<Rightarrow> thread \<Rightarrow> bool" where
  "step_counts val k s s' t \<longleftrightarrow>
     (\<forall>u. u \<noteq> t \<longrightarrow> sv_phase s' u = sv_phase s u) \<and> sv_phase s t \<noteq> Absent \<and>
     requests_at val k (w_metrics (sv_world s')) = requests_at val k (w_metrics (sv_world s)) +
       of_bool (counted_site (sv_phase s' t) = Some k) - of_bool (counted_site (sv_phase s t) = Some k) \<and>
     (\<exists>d. bytes_at val k (w_metrics (sv_world s')) = bytes_at val k (w_metrics (sv_world s)) + int d \<and>
        delivered_for k (sv_phase s' t) \<le> delivered_for k (sv_phase s t) + d \<and>
        sent_for k (sv_phase s t) + d \<le> sent_for k (sv_phase s' t))"

lemma request_step_counts:
  assumes laws: "counter_laws (e_counters env) val" and sh: "shape_ok ok leader waiting s"
    and st: "request_step env ops s s'"
  shows "\<exists>t. step_counts val k s s' t"
  using st
proof cases
  case (accepts t r room now)
  have "step_counts val k s s' t"
  proof (cases "request_site r")
    case None
    then have "w_metrics (sv_world s') = w_metrics (sv_world s)"
      "\<exists>rw. sv_phase s' = (sv_phase s)(t := Answered r room rw)"
      using accepts(1) by (auto simp: accept_def Let_def request_site_def split: if_splits option.splits)
    with None accepts(2) show ?thesis by (auto simp: step_counts_def)
  next
    case (Some q)
    then obtain st where st: "parseSite (rq_Path r) = Some st" "q = (s_project st, s_name st)"
      "rq_Method r = MethodGet \<or> rq_Method r = MethodHead"
      by (auto simp: request_site_def split: if_splits)
    then have "sv_phase s' = (sv_phase s)(t := Loading r room st)"
      "w_metrics (sv_world s') = ObserveRequest (e_counters env) now (s_project st) (s_name st) (w_metrics (sv_world s))"
      using accepts(1) by (auto simp: accept_def Let_def observe_def)
    with Some accepts(2) st(2) show ?thesis
      by (auto simp: step_counts_def counters_Observe [OF laws])
  qed
  then show ?thesis ..
next
  case (loads t r room st)
  then have "step_counts val k s s' t" by (simp add: step_counts_def load_step_metrics)
  then show ?thesis ..
next
  case (answers t r room st j res now)
  let ?env = "at_time now env"
  obtain rw w' where r: "respond ?env r st res (newResponse r room, sv_world s) = (rw, w')" by fastforce
  have site: "request_site r = Some (s_project st, s_name st)"
    using shape_okD(2) [OF sh, of t] answers(2) by (simp add: request_site_def)
  have s': "sv_phase s' = (sv_phase s)(t := Answered r room rw)" "w_metrics (sv_world s') = w_metrics w'"
    using answers(1) r by (simp_all add: finish_def)
  from respond_counts [OF r] obtain n where
    "w_metrics w' = AddResponseBytes (e_counters env) now (s_project st) (s_name st) (int n) (w_metrics (sv_world s))"
    "n \<le> length (rs_Body rw)" "rs_Status rw = Some 200 \<Longrightarrow> n = length (rs_Body rw)"
    by (auto simp: counts_body_def split: if_splits)
  with s' site answers(2) have "step_counts val k s s' t"
    by (auto simp: step_counts_def counters_Bytes [OF laws] intro!: exI [of _ "if k = (s_project st, s_name st) then n else 0"])
  then show ?thesis ..
qed

lemma sum_point:
  fixes f :: "'a \<Rightarrow> int"
  assumes "finite A" "t \<in> A" "\<And>u. u \<noteq> t \<Longrightarrow> f' u = f u"
  shows "sum f' A = sum f A - f t + f' t"
proof -
  have "sum f' (A - {t}) = sum f (A - {t})" using assms(3) by (intro sum.cong) auto
  then show ?thesis using assms(1,2) by (simp add: sum.remove [of A t])
qed

text \<open>What holds of the counters of \<open>k\<close> over a run from \<open>s0\<close> whose requests are the threads of \<open>A\<close>.\<close>

definition accounted :: "('v \<Rightarrow> siteKey \<Rightarrow> int option) \<Rightarrow> siteKey \<Rightarrow> thread set \<Rightarrow> ('s, 'v, 'g) server \<Rightarrow> ('s, 'v, 'g) server \<Rightarrow> bool" where
  "accounted val k A s0 s \<longleftrightarrow>
     requests_at val k (w_metrics (sv_world s)) =
       requests_at val k (w_metrics (sv_world s0)) + (\<Sum>t\<in>A. of_bool (counted_site (sv_phase s t) = Some k)) \<and>
     bytes_at val k (w_metrics (sv_world s0)) + (\<Sum>t\<in>A. int (delivered_for k (sv_phase s t))) \<le>
       bytes_at val k (w_metrics (sv_world s)) \<and>
     bytes_at val k (w_metrics (sv_world s)) \<le>
       bytes_at val k (w_metrics (sv_world s0)) + (\<Sum>t\<in>A. int (sent_for k (sv_phase s t)))"

lemma accounted_step:
  assumes acc: "accounted val k A s0 s" and st: "step_counts val k s s' t" and A: "finite A" "t \<in> A"
  shows "accounted val k A s0 s'"
proof -
  have same: "\<And>u. u \<noteq> t \<Longrightarrow> sv_phase s' u = sv_phase s u" using st by (simp add: step_counts_def)
  have sums: "(\<Sum>u\<in>A. g (sv_phase s' u)) = (\<Sum>u\<in>A. g (sv_phase s u)) - g (sv_phase s t) + g (sv_phase s' t)"
    for g :: "phase \<Rightarrow> int"
    using same by (intro sum_point A) simp
  obtain d where d: "bytes_at val k (w_metrics (sv_world s')) = bytes_at val k (w_metrics (sv_world s)) + int d"
    "delivered_for k (sv_phase s' t) \<le> delivered_for k (sv_phase s t) + d"
    "sent_for k (sv_phase s t) + d \<le> sent_for k (sv_phase s' t)"
    using st by (auto simp: step_counts_def)
  have r: "requests_at val k (w_metrics (sv_world s')) = requests_at val k (w_metrics (sv_world s)) +
       of_bool (counted_site (sv_phase s' t) = Some k) - of_bool (counted_site (sv_phase s t) = Some k)"
    using st by (simp add: step_counts_def)
  note eqs = sums [of "\<lambda>p. of_bool (counted_site p = Some k)"] sums [of "\<lambda>p. int (delivered_for k p)"]
    sums [of "\<lambda>p. int (sent_for k p)"]
  have "requests_at val k (w_metrics (sv_world s')) = requests_at val k (w_metrics (sv_world s0)) +
      (\<Sum>u\<in>A. of_bool (counted_site (sv_phase s' u) = Some k))"
    using acc r unfolding accounted_def eqs(1) by linarith
  moreover have "bytes_at val k (w_metrics (sv_world s0)) + (\<Sum>u\<in>A. int (delivered_for k (sv_phase s' u))) \<le>
      bytes_at val k (w_metrics (sv_world s'))"
    using acc d unfolding accounted_def eqs(2) by linarith
  moreover have "bytes_at val k (w_metrics (sv_world s')) \<le>
      bytes_at val k (w_metrics (sv_world s0)) + (\<Sum>u\<in>A. int (sent_for k (sv_phase s' u)))"
    using acc d unfolding accounted_def eqs(3) by linarith
  ultimately show ?thesis by (simp add: accounted_def)
qed

text \<open>A step of a read is neutral, every other step counts as one of \<open>ConcurrentGateway\<close>.\<close>

lemma awake_accounted:
  assumes run: "awake_run k g env ops n s0 s" and laws: "counter_laws (e_counters env) val"
    and c: "flight_contract ops ok leader waiting" and s0: "fine_start ok leader waiting s0"
    and A: "finite A" "{t. fn_phase s0 t \<noteq> Absent} \<subseteq> A"
  shows "accounted val k A (fn_server s0) (fn_server s)"
  using run s0 A(2)
proof (induction rule: awake_run.induct)
  case (awake_start s)
  have "counted_site (fn_phase s t) = None \<and> delivered_for k (fn_phase s t) = 0 \<and> sent_for k (fn_phase s t) = 0" for t
  proof -
    from awake_start have "fn_phase s t = Absent \<or> (\<exists>r room. fn_phase s t = Incoming r room)"
      by (simp add: fine_start_def server_start_def)
    then show ?thesis by auto
  qed
  then show ?case by (simp add: accounted_def)
next
  case (awake_step n s0 s t s')
  note IH = awake_step.IH [OF awake_step.prems]
  note sh = fine_run_shape [OF awake_run_fine [OF awake_step.hyps(1)] c fine_start_shape [OF awake_step.prems(1)]]
  from fine_turn_projects [OF awake_step.hyps(2)] show ?case
  proof (elim disjE exE conjE)
    fix env' assume e: "e_counters env' = e_counters env" and st: "request_step env' ops (fn_server s) (fn_server s')"
    obtain t where t: "step_counts val k (fn_server s) (fn_server s') t"
      using request_step_counts [OF _ conjunct1 [OF sh] st, of val k] laws e by auto
    have "sv_request (fn_server s) t \<noteq> None" using t by (cases "fn_phase s t") (simp_all add: step_counts_def)
    with conjunct2 [OF sh] have "fn_phase s0 t \<noteq> Absent" by auto
    with awake_step.prems(2) have "t \<in> A" by blast
    from accounted_step [OF IH t A(1) this] show ?thesis .
  next
    fix st assume "fn_server s' = with_store st (fn_server s)"
    with IH show ?thesis by (simp add: accounted_def with_store_def)
  qed
next
  case (awake_sweep n s0 s now ttl visit)
  let ?m = "w_metrics (sv_world (fn_server s))"
  have "site_view val k (evictIdle (e_counters env) visit now ttl ?m) = site_view val k ?m"
    using awake_sweep.hyps(2) by (simp add: evictIdle_view [OF laws])
  from view_counters [OF this] awake_sweep.IH [OF awake_sweep.prems] show ?case
    by (simp add: accounted_def put_loads_def)
qed

subsection \<open>The account\<close>

text \<open>C19: invariant. Overlapping requests are accounted for: as long as no sweep finds a site idle, after
  any interleaving, step by step, of any finite number of requests, over any store at all, the site's request
  counter has grown by exactly the number of requests accepted for it, and its byte counter by no less than the
  bodies of its 200 responses and no more than all the bodies sent for it.\<close>

theorem interleaved_requests_accounted:
  assumes laws: "counter_laws (e_counters env) val" and c: "flight_contract ops ok leader waiting"
    and s0: "fine_start ok leader waiting s0" and fin: "finite {t. fn_phase s0 t \<noteq> Absent}"
    and run: "awake_run k g env ops n s0 s"
    and w: "w0 = w_metrics (sv_world (fn_server s0))" "w = w_metrics (sv_world (fn_server s))"
  shows "requests_at val k w = requests_at val k w0 + int (card {t. counted_site (fn_phase s t) = Some k}) \<and>
    bytes_at val k w0 + (\<Sum>t | fn_phase s0 t \<noteq> Absent. int (delivered_for k (fn_phase s t))) \<le> bytes_at val k w \<and>
    bytes_at val k w \<le> bytes_at val k w0 + (\<Sum>t | fn_phase s0 t \<noteq> Absent. int (sent_for k (fn_phase s t)))"
proof -
  let ?A = "{t. fn_phase s0 t \<noteq> Absent}"
  note rq = conjunct2 [OF fine_run_shape [OF awake_run_fine [OF run] c fine_start_shape [OF s0]]]
  have "{t. counted_site (fn_phase s t) = Some k} \<subseteq> ?A"
  proof
    fix t assume "t \<in> {t. counted_site (fn_phase s t) = Some k}"
    then have "sv_request (fn_server s) t \<noteq> None" by (cases "fn_phase s t") simp_all
    with rq show "t \<in> ?A" by auto
  qed
  then have "?A \<inter> {t. counted_site (fn_phase s t) = Some k} = {t. counted_site (fn_phase s t) = Some k}" by blast
  then have "(\<Sum>t\<in>?A. of_bool (counted_site (fn_phase s t) = Some k)) = int (card {t. counted_site (fn_phase s t) = Some k})"
    using fin by (simp add: of_bool_def sum.If_cases)
  with awake_accounted [OF run laws c s0 fin order.refl] show ?thesis by (simp only: accounted_def w)
qed

lemma fine_steps_awake: "(fine_step g env ops ^^ n) s0 s \<Longrightarrow> awake_run k g env ops n s0 s"
proof (induction n arbitrary: s)
  case 0
  then show ?case by (simp add: awake_run.awake_start)
next
  case (Suc n)
  then obtain a where a: "(fine_step g env ops ^^ n) s0 a" "fine_step g env ops a s" by auto
  from a(2) obtain t where "fine_turn g env ops t a s" unfolding fine_step_def by blast
  with awake_run.awake_step [OF Suc.IH [OF a(1)]] show ?case by blast
qed

lemma interleaved_requests_accounted_witness:
  "\<exists>n s. awake_run (''acme'', ''docs'') fake_Get demo_fine_env map_flight n
      (demo_fine_of [''/acme/docs/r1/'', ''/acme/docs/r1/'', ''/acme''] demo_cached_world) s \<and>
     requests_at id (''acme'', ''docs'') (w_metrics (sv_world (fn_server s))) = 2"
proof -
  let ?k = "(''acme'', ''docs'')" and ?ps = "[''/acme/docs/r1/'', ''/acme/docs/r1/'', ''/acme'']"
  let ?start = "demo_fine_of ?ps demo_cached_world"
  obtain n s where s: "(fine_step fake_Get demo_fine_env map_flight ^^ n) ?start s"
      "\<And>t. t < length ?ps \<Longrightarrow> \<exists>rw. fn_phase s t = Answered (GET (?ps ! t)) None rw"
    by (rule demo_fine_steps [OF fake.object_store_axioms demo_cached_invar, of demo_fine_env ?ps]) blast
  note run = fine_steps_awake [OF s(1), of ?k]
  have fin: "finite {t. fn_phase ?start t \<noteq> Absent}" unfolding demo_fine_facts(2) by simp
  have laws: "counter_laws (e_counters demo_fine_env) id"
    using map_ops_laws by (simp add: demo_fine_env_def)
  have site: "request_site (GET ''/acme/docs/r1/'') = Some ?k" "request_site (GET ''/acme'') = None"
    by code_simp+
  have "counted_site (fn_phase s t) = Some ?k \<longleftrightarrow> t \<in> {0, 1}" for t
  proof (cases "t < length ?ps")
    case True
    with s(2) [OF True] consider "t = 0" | "t = 1" | "t = 2" by fastforce
    then show ?thesis using s(2) [of t] site by cases auto
  next
    case False
    have "sv_request (fn_server s) t = sv_request (fn_server ?start) t"
      using fine_run_shape [OF awake_run_fine [OF run] map_flight_contract fine_start_shape [OF demo_fine_facts(1)]]
      by blast
    with False have "sv_request (fn_server s) t = None" by (simp add: demo_fine_of_def demo_server_of_def)
    then have "counted_site (fn_phase s t) = None" by (cases "fn_phase s t") simp_all
    with False show ?thesis by auto
  qed
  then have "{t. counted_site (fn_phase s t) = Some ?k} = {0, 1}" by blast
  with interleaved_requests_accounted [OF laws map_flight_contract demo_fine_facts(1) fin run refl refl]
  have "requests_at id ?k (w_metrics (sv_world (fn_server s))) = requests_at id ?k (w_metrics (sv_world (fn_server ?start))) + 2"
    by simp
  moreover have "requests_at id ?k (w_metrics (sv_world (fn_server ?start))) = 0"
    by (simp add: requests_at_def series_def demo_fine_facts(3) demo_cached_world_def new_metrics_def)
  ultimately show ?thesis using run by auto
qed

subsection \<open>With requests that read the store in one step\<close>

text \<open>The same over the runs of \<open>ConcurrentGateway\<close>.\<close>

inductive serves_awake :: "siteKey \<Rightarrow> ('s, 'v) env \<Rightarrow> 'g flight_ops \<Rightarrow> nat \<Rightarrow> ('s, 'v, 'g) server \<Rightarrow> ('s, 'v, 'g) server \<Rightarrow> bool"
  for k env ops where
  start: "serves_awake k env ops 0 s s"
| request: "serves_awake k env ops n s s' \<Longrightarrow> request_step env ops s' s'' \<Longrightarrow> serves_awake k env ops (Suc n) s s''"
| sweep: "serves_awake k env ops n s s' \<Longrightarrow> \<not> idle (UnixNano now - ttl) k (w_metrics (sv_world s')) \<Longrightarrow>
    serves_awake k env ops n s (s'\<lparr>sv_loads := (sv_loads s')\<lparr>ld_world :=
      (sv_world s')\<lparr>w_metrics := evictIdle (e_counters env) visit now ttl (w_metrics (sv_world s'))\<rparr>\<rparr>\<rparr>)"

lemma serves_awake_serves: "serves_awake k env ops n s s' \<Longrightarrow> serves env ops n s s'"
  by (induction rule: serves_awake.induct) (auto intro: serves.intros)

lemma steps_serve_awake: "(request_step env ops ^^ n) s0 s \<Longrightarrow> serves_awake k env ops n s0 s"
  by (induction n arbitrary: s) (auto intro: serves_awake.intros)

lemma serves_accounted:
  assumes run: "serves_awake k env ops n s0 s" and laws: "counter_laws (e_counters env) val"
    and c: "flight_contract ops ok leader waiting" and s0: "server_start ok leader waiting s0"
    and A: "finite A" "{t. sv_phase s0 t \<noteq> Absent} \<subseteq> A"
  shows "accounted val k A s0 s"
  using run s0 A(2)
proof (induction rule: serves_awake.induct)
  case (start s)
  have "counted_site (sv_phase s t) = None \<and> delivered_for k (sv_phase s t) = 0 \<and> sent_for k (sv_phase s t) = 0" for t
  proof -
    from start have "sv_phase s t = Absent \<or> (\<exists>r room. sv_phase s t = Incoming r room)"
      by (simp add: server_start_def)
    then show ?thesis by auto
  qed
  then show ?case by (simp add: accounted_def)
next
  case (request n s0 s s')
  note sh = serves_shape [OF serves_awake_serves [OF request.hyps(1)] c server_start_shape [OF request.prems(1)]]
  obtain t where t: "step_counts val k s s' t"
    using request_step_counts [OF laws conjunct1 [OF sh] request.hyps(2)] ..
  have "sv_request s t \<noteq> None" using t by (cases "sv_phase s t") (simp_all add: step_counts_def)
  moreover have "sv_request s t = sv_request s0 t" by (rule spec [OF conjunct1 [OF conjunct2 [OF sh]]])
  ultimately have "sv_phase s0 t \<noteq> Absent" by auto
  with request.prems(2) have "t \<in> A" by blast
  from accounted_step [OF request.IH [OF request.prems] t A(1) this] show ?case .
next
  case (sweep n s0 s now ttl visit)
  let ?m = "w_metrics (sv_world s)"
  have "site_view val k (evictIdle (e_counters env) visit now ttl ?m) = site_view val k ?m"
    using sweep.hyps(2) by (simp add: evictIdle_view [OF laws])
  from view_counters [OF this] sweep.IH [OF sweep.prems] show ?case by (simp add: accounted_def)
qed

text \<open>The account of a run whose requests read the store in one step each.\<close>

theorem overlapping_requests_accounted:
  assumes laws: "counter_laws (e_counters env) val" and c: "flight_contract ops ok leader waiting"
    and s0: "server_start ok leader waiting s0" and fin: "finite {t. sv_phase s0 t \<noteq> Absent}"
    and run: "serves_awake k env ops n s0 s"
  shows "requests_at val k (w_metrics (sv_world s)) =
      requests_at val k (w_metrics (sv_world s0)) + int (card {t. counted_site (sv_phase s t) = Some k}) \<and>
    bytes_at val k (w_metrics (sv_world s0)) + (\<Sum>t | sv_phase s0 t \<noteq> Absent. int (delivered_for k (sv_phase s t))) \<le>
      bytes_at val k (w_metrics (sv_world s)) \<and>
    bytes_at val k (w_metrics (sv_world s)) \<le>
      bytes_at val k (w_metrics (sv_world s0)) + (\<Sum>t | sv_phase s0 t \<noteq> Absent. int (sent_for k (sv_phase s t)))"
proof -
  let ?A = "{t. sv_phase s0 t \<noteq> Absent}"
  have rq: "\<And>u. sv_request s u = sv_request s0 u"
    using serves_shape [OF serves_awake_serves [OF run] c server_start_shape [OF s0]] by blast
  have "{t. counted_site (sv_phase s t) = Some k} \<subseteq> ?A"
  proof
    fix t assume "t \<in> {t. counted_site (sv_phase s t) = Some k}"
    then have "sv_request s t \<noteq> None" by (cases "sv_phase s t") simp_all
    with rq [of t] show "t \<in> ?A" by auto
  qed
  then have "?A \<inter> {t. counted_site (sv_phase s t) = Some k} = {t. counted_site (sv_phase s t) = Some k}" by blast
  then have "(\<Sum>t\<in>?A. of_bool (counted_site (sv_phase s t) = Some k)) = int (card {t. counted_site (sv_phase s t) = Some k})"
    using fin by (simp add: of_bool_def sum.If_cases)
  with serves_accounted [OF run laws c s0 fin order.refl] show ?thesis by (simp only: accounted_def)
qed

lemma overlapping_requests_accounted_witness:
  "\<exists>n s. serves_awake (''acme'', ''docs'') demo_logged_env map_flight n
      (demo_server_of [''/acme/docs/r1/'', ''/acme/docs/r1/'', ''/acme''] demo_logged_world) s \<and>
     requests_at id (''acme'', ''docs'') (w_metrics (sv_world s)) = 2"
proof -
  let ?k = "(''acme'', ''docs'')" and ?ps = "[''/acme/docs/r1/'', ''/acme/docs/r1/'', ''/acme'']"
  let ?s0 = "demo_server_of ?ps demo_logged_world"
  obtain n s where s: "(request_step demo_logged_env map_flight ^^ n) ?s0 s"
      "\<And>t. t < length ?ps \<Longrightarrow> \<exists>rw. sv_phase s t = Answered (GET (?ps ! t)) None rw"
    by (rule demo_server_steps [of demo_logged_env ?ps demo_logged_world]) blast
  note run = steps_serve_awake [OF s(1), of ?k]
  have fin: "finite {t. sv_phase ?s0 t \<noteq> Absent}" unfolding demo_server_facts(2) by simp
  have laws: "counter_laws (e_counters demo_logged_env) id"
    using map_ops_laws by (simp add: demo_logged_env_def)
  have site: "request_site (GET ''/acme/docs/r1/'') = Some ?k" "request_site (GET ''/acme'') = None"
    by code_simp+
  have "counted_site (sv_phase s t) = Some ?k \<longleftrightarrow> t \<in> {0, 1}" for t
  proof (cases "t < length ?ps")
    case True
    with s(2) [OF True] consider "t = 0" | "t = 1" | "t = 2" by fastforce
    then show ?thesis using s(2) [of t] site by cases auto
  next
    case False
    have "sv_request s t = sv_request ?s0 t"
      using serves_shape [OF steps_serve [OF s(1)] map_flight_contract server_start_shape [OF demo_server_facts(1)]]
      by blast
    with False have "sv_request s t = None" by (simp add: demo_server_of_def)
    then have "counted_site (sv_phase s t) = None" by (cases "sv_phase s t") simp_all
    with False show ?thesis by auto
  qed
  then have "{t. counted_site (sv_phase s t) = Some ?k} = {0, 1}" by blast
  with overlapping_requests_accounted [OF laws map_flight_contract demo_server_facts(1) fin run] run
  have "requests_at id ?k (w_metrics (sv_world s)) = requests_at id ?k (w_metrics (sv_world ?s0)) + 2"
    by simp
  moreover have "requests_at id ?k (w_metrics (sv_world ?s0)) = 0"
    by (simp add: requests_at_def series_def demo_server_facts(3) demo_logged_world_def new_metrics_def)
  ultimately show ?thesis using run by auto
qed

end
