(* ===== verification/MetricsRace.thy ===== *)
theory MetricsRace
  imports Metrics
begin

section \<open>internal/metrics: requests racing with the sweep\<close>

text \<open>
  \<^verbatim>\<open>metrics.go\<close> again, at the grain at which goroutines interleave. \<^verbatim>\<open>lastSeen\<close> maps a site to the address
  of an atomic integer, and the integers live in a heap: a \<^verbatim>\<open>Store\<close> through an address read earlier reaches
  the integer even when the site has left the map. A step is one operation of a counter vector, of the
  map or of an integer, or a reading of the clock; each of these is atomic, their sequence is not. An operation
  of a counter vector is \<^verbatim>\<open>WithLabelValues(..).Inc()\<close>, \<^verbatim>\<open>WithLabelValues(..).Add(..)\<close> or \<^verbatim>\<open>DeleteLabelValues(..)\<close>:
  that a vector looks the series up before it counts, and that a deletion may fall between the two, is inside
  the vector and is not modelled. The other theories take \<^verbatim>\<open>ObserveRequest\<close>, \<^verbatim>\<open>AddResponseBytes\<close> and a whole
  sweep as single steps.
\<close>

subsection \<open>Shared state and program points\<close>

record 'v shared =
  sh_Requests :: 'v
  sh_ResponseBytes :: 'v
  sh_lastSeen :: "siteKey \<rightharpoonup> nat"
  sh_stamp :: "nat \<Rightarrow> int"
  sh_next :: nat

text \<open>\<open>MInc\<close> starts \<^verbatim>\<open>ObserveRequest\<close>, \<open>MAdd\<close> starts \<^verbatim>\<open>AddResponseBytes\<close>, \<open>MSweep\<close> starts \<^verbatim>\<open>evictIdle\<close> with the
  order in which \<^verbatim>\<open>Range\<close> will visit the sites. \<open>MTouch\<close> to \<open>MInsert\<close> are \<^verbatim>\<open>touch\<close>, \<open>SVisit\<close> to \<open>SSeen\<close> the sweep.\<close>

datatype mpc =
  MInc siteKey
| MAdd siteKey int
| MTouch siteKey
| MLoad siteKey int
| MStore nat int
| MInsert siteKey int
| MSweep "siteKey list" int
| SVisit "siteKey list" int
| SCheck siteKey nat "siteKey list" int
| SReq siteKey "siteKey list" int
| SBytes siteKey "siteKey list" int
| SSeen siteKey "siteKey list" int
| MDone

fun mstep :: "'v counter_ops \<Rightarrow> gotime \<Rightarrow> mpc \<times> 'v shared \<Rightarrow> mpc \<times> 'v shared" where
  "mstep ops now (MInc k, sh) = (MTouch k, sh\<lparr>sh_Requests := cv_Inc ops k (sh_Requests sh)\<rparr>)"
| "mstep ops now (MAdd k n, sh) =
     (if n \<le> 0 then (MDone, sh) else (MTouch k, sh\<lparr>sh_ResponseBytes := cv_Add ops k n (sh_ResponseBytes sh)\<rparr>))"
| "mstep ops now (MTouch k, sh) = (MLoad k (UnixNano now), sh)"
| "mstep ops now (MLoad k n, sh) =
     (case sh_lastSeen sh k of Some a \<Rightarrow> (MStore a n, sh) | None \<Rightarrow> (MInsert k n, sh))"
| "mstep ops now (MStore a n, sh) = (MDone, sh\<lparr>sh_stamp := (sh_stamp sh)(a := n)\<rparr>)"
| "mstep ops now (MInsert k n, sh) =
     (case sh_lastSeen sh k of
        Some a \<Rightarrow> (MStore a n, sh)
      | None \<Rightarrow> (MDone, sh\<lparr>sh_lastSeen := (sh_lastSeen sh)(k \<mapsto> sh_next sh),
          sh_stamp := (sh_stamp sh)(sh_next sh := n), sh_next := Suc (sh_next sh)\<rparr>))"
| "mstep ops now (MSweep ks ttl, sh) = (SVisit ks (UnixNano (AddNanos now (- ttl))), sh)"
| "mstep ops now (SVisit [] c, sh) = (MDone, sh)"
| "mstep ops now (SVisit (k # ks) c, sh) =
     (case sh_lastSeen sh k of Some a \<Rightarrow> (SCheck k a ks c, sh) | None \<Rightarrow> (SVisit ks c, sh))"
| "mstep ops now (SCheck k a ks c, sh) = (if sh_stamp sh a < c then (SReq k ks c, sh) else (SVisit ks c, sh))"
| "mstep ops now (SReq k ks c, sh) = (SBytes k ks c, sh\<lparr>sh_Requests := cv_Delete ops k (sh_Requests sh)\<rparr>)"
| "mstep ops now (SBytes k ks c, sh) = (SSeen k ks c, sh\<lparr>sh_ResponseBytes := cv_Delete ops k (sh_ResponseBytes sh)\<rparr>)"
| "mstep ops now (SSeen k ks c, sh) = (SVisit ks c, sh\<lparr>sh_lastSeen := (sh_lastSeen sh)(k := None)\<rparr>)"
| "mstep ops now (MDone, sh) = (MDone, sh)"

text \<open>Threads interleave freely; \<open>clock\<close> bounds the clock readings of the run.\<close>

type_synonym 'v racing = "(nat \<Rightarrow> mpc) \<times> 'v shared"

definition mstep_thread :: "'v counter_ops \<Rightarrow> gotime \<Rightarrow> nat \<Rightarrow> 'v racing \<Rightarrow> 'v racing" where
  "mstep_thread ops now t s = (case mstep ops now (fst s t, snd s) of (p, sh) \<Rightarrow> ((fst s)(t := p), sh))"

inductive race :: "'v counter_ops \<Rightarrow> (gotime \<Rightarrow> bool) \<Rightarrow> 'v racing \<Rightarrow> 'v racing \<Rightarrow> bool" for ops clock where
  race_start: "race ops clock s s"
| race_step: "race ops clock s s' \<Longrightarrow> clock now \<Longrightarrow> race ops clock s (mstep_thread ops now t s')"

subsection \<open>One goroutine alone\<close>

definition shared_metrics :: "'v shared \<Rightarrow> 'v metrics" where
  "shared_metrics sh = \<lparr>m_Requests = sh_Requests sh, m_ResponseBytes = sh_ResponseBytes sh,
     m_lastSeen = (\<lambda>k. map_option (sh_stamp sh) (sh_lastSeen sh k))\<rparr>"

text \<open>No two sites share an integer, and the next address is fresh.\<close>

definition heap_ok :: "'v shared \<Rightarrow> bool" where
  "heap_ok sh \<longleftrightarrow> (\<forall>k a. sh_lastSeen sh k = Some a \<longrightarrow> a < sh_next sh) \<and>
     (\<forall>k q a. sh_lastSeen sh k = Some a \<longrightarrow> sh_lastSeen sh q = Some a \<longrightarrow> k = q)"

lemma heap_okD:
  assumes "heap_ok sh"
  shows "sh_lastSeen sh k = Some a \<Longrightarrow> a < sh_next sh"
    "sh_lastSeen sh k = Some a \<Longrightarrow> sh_lastSeen sh q = Some a \<Longrightarrow> k = q"
  using assms unfolding heap_ok_def by blast+

text \<open>What a goroutine does when no other runs: from a program point to the end.\<close>

definition ends where
  "ends ops now p sh sh' \<longleftrightarrow> (\<exists>i. (mstep ops now ^^ i) (p, sh) = (MDone, sh'))"

lemma ends_step: "mstep ops now (p, sh) = (q, sh1) \<Longrightarrow> ends ops now q sh1 sh' \<Longrightarrow> ends ops now p sh sh'"
  unfolding ends_def by (metis comp_apply funpow_Suc_right)

lemma ends_done: "ends ops now MDone sh sh"
  unfolding ends_def by (metis funpow_0)

lemma stamp_store:
  assumes ok: "heap_ok sh" and k: "sh_lastSeen sh k = Some a"
  shows "(\<lambda>q. map_option ((sh_stamp sh)(a := x)) (sh_lastSeen sh q)) =
     (\<lambda>q. map_option (sh_stamp sh) (sh_lastSeen sh q))(k \<mapsto> x)"
proof (rule ext)
  fix q
  show "map_option ((sh_stamp sh)(a := x)) (sh_lastSeen sh q) =
     ((\<lambda>q. map_option (sh_stamp sh) (sh_lastSeen sh q))(k \<mapsto> x)) q"
  proof (cases "sh_lastSeen sh q")
    case None
    then have "q \<noteq> k" using k by auto
    with None show ?thesis by simp
  next
    case (Some b)
    have "b = a \<longleftrightarrow> q = k" using heap_okD(2) [OF ok Some, of k] k Some by auto
    with Some show ?thesis by simp
  qed
qed

lemma stamp_insert:
  assumes ok: "heap_ok sh"
  shows "(\<lambda>q. map_option ((sh_stamp sh)(sh_next sh := x)) (((sh_lastSeen sh)(k \<mapsto> sh_next sh)) q)) =
     (\<lambda>q. map_option (sh_stamp sh) (sh_lastSeen sh q))(k \<mapsto> x)"
proof (rule ext)
  fix q
  show "map_option ((sh_stamp sh)(sh_next sh := x)) (((sh_lastSeen sh)(k \<mapsto> sh_next sh)) q) =
     ((\<lambda>q. map_option (sh_stamp sh) (sh_lastSeen sh q))(k \<mapsto> x)) q"
  proof (cases "sh_lastSeen sh q")
    case (Some b)
    with heap_okD(1) [OF ok Some] show ?thesis by simp
  qed simp
qed

lemma heap_ok_insert:
  assumes ok: "heap_ok sh"
  shows "heap_ok (sh\<lparr>sh_lastSeen := (sh_lastSeen sh)(k \<mapsto> sh_next sh), sh_stamp := st, sh_next := Suc (sh_next sh)\<rparr>)"
proof -
  have "a < sh_next sh" if "sh_lastSeen sh q = Some a" for q a
    using heap_okD(1) [OF ok that] .
  then have "a < Suc (sh_next sh)" "a \<noteq> sh_next sh" if "sh_lastSeen sh q = Some a" for q a
    using that by fastforce+
  moreover have "q = r" if "sh_lastSeen sh q = Some a" "sh_lastSeen sh r = Some a" for q r a
    using heap_okD(2) [OF ok that] .
  ultimately show ?thesis
    unfolding heap_ok_def shared.simps fun_upd_apply
    by (intro conjI allI impI) (simp split: if_splits, (simp split: if_splits; blast))
qed

lemma touch_metrics:
  "shared_metrics sh' = shared_metrics sh\<lparr>m_lastSeen := (m_lastSeen (shared_metrics sh))((p, n) \<mapsto> UnixNano now)\<rparr> \<Longrightarrow>
   shared_metrics sh' = touch now p n (shared_metrics sh)"
  by (simp add: touch_def Let_def split: option.split)

lemma heap_ok_stamp: "heap_ok (sh\<lparr>sh_stamp := st\<rparr>) = heap_ok sh"
  by (simp add: heap_ok_def)

lemma touch_alone:
  assumes "heap_ok sh"
  shows "\<exists>sh'. ends ops now (MTouch (p, n)) sh sh' \<and> shared_metrics sh' = touch now p n (shared_metrics sh) \<and> heap_ok sh'"
proof (cases "sh_lastSeen sh (p, n)")
  case (Some a)
  have "ends ops now (MTouch (p, n)) sh (sh\<lparr>sh_stamp := (sh_stamp sh)(a := UnixNano now)\<rparr>)"
    by (rule ends_step, simp, rule ends_step, simp add: Some, rule ends_step, simp, rule ends_done)
  moreover have "shared_metrics (sh\<lparr>sh_stamp := (sh_stamp sh)(a := UnixNano now)\<rparr>) = touch now p n (shared_metrics sh)"
    using stamp_store [OF assms Some, of "UnixNano now"] by (intro touch_metrics) (simp add: shared_metrics_def)
  ultimately show ?thesis using assms heap_ok_stamp by blast
next
  case None
  have "ends ops now (MTouch (p, n)) sh (sh\<lparr>sh_lastSeen := (sh_lastSeen sh)((p, n) \<mapsto> sh_next sh),
      sh_stamp := (sh_stamp sh)(sh_next sh := UnixNano now), sh_next := Suc (sh_next sh)\<rparr>)"
    by (rule ends_step, simp, rule ends_step, simp add: None, rule ends_step, simp add: None, rule ends_done)
  moreover have "shared_metrics (sh\<lparr>sh_lastSeen := (sh_lastSeen sh)((p, n) \<mapsto> sh_next sh),
      sh_stamp := (sh_stamp sh)(sh_next sh := UnixNano now), sh_next := Suc (sh_next sh)\<rparr>) = touch now p n (shared_metrics sh)"
    using stamp_insert [OF assms, of "UnixNano now" "(p, n)"] by (intro touch_metrics) (simp add: shared_metrics_def)
  ultimately show ?thesis using heap_ok_insert [OF assms] by blast
qed

lemma sweep_alone:
  "heap_ok sh \<Longrightarrow> \<exists>sh'. ends ops now (SVisit ks c) sh sh' \<and>
     shared_metrics sh' = fold (evict_site ops c) ks (shared_metrics sh) \<and> heap_ok sh'"
proof (induction ks arbitrary: sh)
  case Nil
  have "ends ops now (SVisit [] c) sh sh" by (rule ends_step, simp, rule ends_done)
  with Nil show ?case by auto
next
  case (Cons k ks)
  show ?case
  proof (cases "\<exists>a. sh_lastSeen sh k = Some a \<and> sh_stamp sh a < c")
    case True
    then obtain a where a: "sh_lastSeen sh k = Some a" "sh_stamp sh a < c" by blast
    let ?sh = "sh\<lparr>sh_Requests := cv_Delete ops k (sh_Requests sh),
      sh_ResponseBytes := cv_Delete ops k (sh_ResponseBytes sh), sh_lastSeen := (sh_lastSeen sh)(k := None)\<rparr>"
    have "heap_ok ?sh" using Cons.prems unfolding heap_ok_def by simp
    from Cons.IH [OF this] obtain sh' where sh': "ends ops now (SVisit ks c) ?sh sh'"
      "shared_metrics sh' = fold (evict_site ops c) ks (shared_metrics ?sh)" "heap_ok sh'" by blast
    have "evict_site ops c k (shared_metrics sh) = shared_metrics ?sh"
      using a by (simp add: evict_site_def shared_metrics_def fun_eq_iff)
    moreover have "ends ops now (SVisit (k # ks) c) sh sh'"
      by (rule ends_step, simp add: a(1), rule ends_step, simp add: a(2), rule ends_step, simp,
          rule ends_step, simp, rule ends_step, simp, rule sh'(1))
    ultimately show ?thesis using sh' by auto
  next
    case False
    from Cons.IH [OF Cons.prems] obtain sh' where sh': "ends ops now (SVisit ks c) sh sh'"
      "shared_metrics sh' = fold (evict_site ops c) ks (shared_metrics sh)" "heap_ok sh'" by blast
    have "evict_site ops c k (shared_metrics sh) = shared_metrics sh"
      using False by (auto simp: evict_site_def shared_metrics_def split: option.split)
    moreover have "ends ops now (SVisit (k # ks) c) sh sh'"
    proof (cases "sh_lastSeen sh k")
      case None
      show ?thesis by (rule ends_step, simp add: None, rule sh'(1))
    next
      case (Some a)
      with False have "\<not> sh_stamp sh a < c" by blast
      then show ?thesis by (intro ends_step [OF _ ends_step [OF _ sh'(1)]]) (auto simp: Some)
    qed
    ultimately show ?thesis using sh' by auto
  qed
qed

lemma request_alone:
  assumes "heap_ok sh"
  shows "\<exists>sh'. ends ops now (MInc (p, n)) sh sh' \<and> shared_metrics sh' = ObserveRequest ops now p n (shared_metrics sh)"
proof -
  let ?sh = "sh\<lparr>sh_Requests := cv_Inc ops (p, n) (sh_Requests sh)\<rparr>"
  have "heap_ok ?sh" using assms by (simp add: heap_ok_def)
  from touch_alone [OF this] obtain sh' where sh': "ends ops now (MTouch (p, n)) ?sh sh'"
    "shared_metrics sh' = touch now p n (shared_metrics ?sh)" by blast
  have "ends ops now (MInc (p, n)) sh sh'" by (rule ends_step [OF _ sh'(1)]) simp
  moreover have "shared_metrics sh' = ObserveRequest ops now p n (shared_metrics sh)"
    unfolding sh'(2) ObserveRequest_def by (simp add: shared_metrics_def)
  ultimately show ?thesis by blast
qed

lemma bytes_alone:
  assumes "heap_ok sh"
  shows "\<exists>sh'. ends ops now (MAdd (p, n) b) sh sh' \<and> shared_metrics sh' = AddResponseBytes ops now p n b (shared_metrics sh)"
proof (cases "b \<le> 0")
  case True
  have "ends ops now (MAdd (p, n) b) sh sh" by (rule ends_step [OF _ ends_done]) (simp add: True)
  with True show ?thesis by (auto simp: AddResponseBytes_def)
next
  case False
  let ?sh = "sh\<lparr>sh_ResponseBytes := cv_Add ops (p, n) b (sh_ResponseBytes sh)\<rparr>"
  have "heap_ok ?sh" using assms by (simp add: heap_ok_def)
  from touch_alone [OF this] obtain sh' where sh': "ends ops now (MTouch (p, n)) ?sh sh'"
    "shared_metrics sh' = touch now p n (shared_metrics ?sh)" by blast
  have "ends ops now (MAdd (p, n) b) sh sh'" by (rule ends_step [OF _ sh'(1)]) (simp add: False)
  moreover have "shared_metrics sh' = AddResponseBytes ops now p n b (shared_metrics sh)"
    unfolding sh'(2) AddResponseBytes_def using False by (simp add: shared_metrics_def)
  ultimately show ?thesis by blast
qed

lemma evict_alone:
  assumes "heap_ok sh"
  shows "\<exists>sh'. ends ops now (MSweep visit ttl) sh sh' \<and> shared_metrics sh' = evictIdle ops visit now ttl (shared_metrics sh)"
proof -
  from sweep_alone [OF assms] obtain sh' where sh':
    "ends ops now (SVisit visit (UnixNano (AddNanos now (- ttl)))) sh sh'"
    "shared_metrics sh' = fold (evict_site ops (UnixNano (AddNanos now (- ttl)))) visit (shared_metrics sh)" by blast
  have "ends ops now (MSweep visit ttl) sh sh'" by (rule ends_step [OF _ sh'(1)]) simp
  then show ?thesis using sh'(2) by (auto simp: evictIdle_def Let_def)
qed

text \<open>Each operation on the metrics, run by a goroutine that meets no other, does in its
  atomic steps what the operation does in one: counting a request, adding body bytes, and a sweep in
  whatever order it visits the sites.\<close>

theorem metrics_operations_alone:
  assumes "heap_ok sh"
  shows "(\<exists>sh'. ends ops now (MInc (p, n)) sh sh' \<and> shared_metrics sh' = ObserveRequest ops now p n (shared_metrics sh)) \<and>
    (\<exists>sh'. ends ops now (MAdd (p, n) b) sh sh' \<and> shared_metrics sh' = AddResponseBytes ops now p n b (shared_metrics sh)) \<and>
    (\<exists>sh'. ends ops now (MSweep visit ttl) sh sh' \<and> shared_metrics sh' = evictIdle ops visit now ttl (shared_metrics sh))"
  using request_alone [OF assms] bytes_alone [OF assms] evict_alone [OF assms] by (intro conjI)

subsection \<open>An active site loses nothing\<close>

text \<open>Requests and bytes a goroutine is still to count for a site.\<close>

fun owed_requests :: "siteKey \<Rightarrow> mpc \<Rightarrow> int" where
  "owed_requests k (MInc q) = (if q = k then 1 else 0)"
| "owed_requests k _ = 0"

fun owed_bytes :: "siteKey \<Rightarrow> mpc \<Rightarrow> int" where
  "owed_bytes k (MAdd q n) = (if q = k \<and> 0 < n then n else 0)"
| "owed_bytes k _ = 0"

text \<open>Program points that leave a site alone whose integer, at \<open>a\<close>, stays at or above \<open>c\<close>.\<close>

fun calm :: "siteKey \<Rightarrow> nat \<Rightarrow> int \<Rightarrow> int \<Rightarrow> mpc \<Rightarrow> bool" where
  "calm k a c T (MLoad q n) = (c \<le> n)"
| "calm k a c T (MStore b n) = (c \<le> n)"
| "calm k a c T (MInsert q n) = (c \<le> n)"
| "calm k a c T (MSweep ks ttl) = (T \<le> ttl)"
| "calm k a c T (SVisit ks lim) = (lim \<le> c)"
| "calm k a c T (SCheck q b ks lim) = (lim \<le> c \<and> (q = k \<longrightarrow> b = a))"
| "calm k a c T (SReq q ks lim) = (lim \<le> c \<and> q \<noteq> k)"
| "calm k a c T (SBytes q ks lim) = (lim \<le> c \<and> q \<noteq> k)"
| "calm k a c T (SSeen q ks lim) = (lim \<le> c \<and> q \<noteq> k)"
| "calm k a c T _ = True"

text \<open>Goroutines that have not begun: requests, responses, and sweeps with a time to live of at least \<open>T\<close>.\<close>

fun fresh :: "int \<Rightarrow> mpc \<Rightarrow> bool" where
  "fresh T (MInc k) = True"
| "fresh T (MAdd k n) = True"
| "fresh T (MSweep ks ttl) = (T \<le> ttl)"
| "fresh T MDone = True"
| "fresh T _ = False"

lemma fresh_calm: "fresh T p \<Longrightarrow> calm k a c T p"
  by (cases p) simp_all

lemma series_laws:
  assumes "counter_laws ops val"
  shows "series val (cv_Inc ops q v) k = series val v k + (if q = k then 1 else 0)"
    "0 \<le> n \<Longrightarrow> series val (cv_Add ops q n v) k = series val v k + (if q = k then n else 0)"
    "q \<noteq> k \<Longrightarrow> series val (cv_Delete ops q v) k = series val v k"
  by (simp_all add: series_def counter_lawsD [OF assms])

text \<open>What is counted for a site and its record, beside what one goroutine owes it.\<close>

definition site_kept where
  "site_kept val k a c sh r b \<longleftrightarrow>
     sh_lastSeen sh k = Some a \<and> c \<le> sh_stamp sh a \<and>
     series val (sh_Requests sh) k = r \<and> series val (sh_ResponseBytes sh) k = b"

lemma mstep_keeps:
  assumes laws: "counter_laws ops val" and now: "c \<le> UnixNano now" "UnixNano now \<le> c + T"
    and p: "calm k a c T p" and k: "site_kept val k a c sh r b" and st: "mstep ops now (p, sh) = (p', sh')"
  shows "calm k a c T p' \<and>
    site_kept val k a c sh' (r + owed_requests k p - owed_requests k p') (b + owed_bytes k p - owed_bytes k p')"
proof (cases p)
  case (SVisit ks lim)
  with p k st show ?thesis by (cases ks) (auto simp: site_kept_def split: option.splits)
qed (use p k st now in \<open>auto simp: site_kept_def series_laws [OF laws] UnixNano_Add split: option.splits if_splits\<close>)

lemma race_keeps:
  assumes laws: "counter_laws ops val" and now: "\<And>now. clock now \<Longrightarrow> c \<le> UnixNano now \<and> UnixNano now \<le> c + T"
    and fin: "finite A" and run: "race ops clock s0 s"
    and start: "\<And>t. calm k a c T (fst s0 t)" "\<And>t. t \<notin> A \<Longrightarrow> fst s0 t = MDone"
    and k: "site_kept val k a c (snd s0) r b"
  shows "(\<forall>t. calm k a c T (fst s t)) \<and> (\<forall>t. t \<notin> A \<longrightarrow> fst s t = MDone) \<and>
    site_kept val k a c (snd s)
      (r + (\<Sum>t\<in>A. owed_requests k (fst s0 t)) - (\<Sum>t\<in>A. owed_requests k (fst s t)))
      (b + (\<Sum>t\<in>A. owed_bytes k (fst s0 t)) - (\<Sum>t\<in>A. owed_bytes k (fst s t)))"
  using run start k
proof (induction rule: race.induct)
  case (race_step s0 s now t)
  note IH = race_step.IH [OF race_step.prems]
  obtain p sh where m: "mstep ops now (fst s t, snd s) = (p, sh)" by (meson surj_pair)
  then have s': "mstep_thread ops now t s = ((fst s)(t := p), sh)" by (simp add: mstep_thread_def)
  have "calm k a c T (fst s t)" using IH by blast
  note st = mstep_keeps [OF laws conjunct1 [OF assms(2)] conjunct2 [OF assms(2)] this conjunct2 [OF conjunct2 [OF IH]] m,
      OF race_step.hyps(2) race_step.hyps(2)]
  have sum: "(\<Sum>u\<in>A. f (((fst s)(t := p)) u)) = (\<Sum>u\<in>A. f (fst s u)) - f (fst s t) + f p" if "t \<in> A" for f :: "mpc \<Rightarrow> int"
  proof -
    have "(\<Sum>u\<in>A. f (((fst s)(t := p)) u)) = f p + (\<Sum>u\<in>A - {t}. f (fst s u))"
      using sum.remove [OF fin that, of "\<lambda>u. f (((fst s)(t := p)) u)"] by simp
    with sum.remove [OF fin that, of "\<lambda>u. f (fst s u)"] show ?thesis by simp
  qed
  show ?case
  proof (cases "t \<in> A")
    case True
    have "\<forall>u. calm k a c T (((fst s)(t := p)) u)" "\<forall>u. u \<notin> A \<longrightarrow> ((fst s)(t := p)) u = MDone"
      using IH st True by auto
    with st show ?thesis unfolding s' fst_conv snd_conv sum [OF True] by (simp add: algebra_simps)
  next
    case False
    then have "fst s t = MDone" using IH by blast
    with m have "p = fst s t" "sh = snd s" by simp_all
    with IH show ?thesis unfolding s' by simp
  qed
qed simp

text \<open>C7: safety. An active site loses nothing to a race: if its last activity is recorded at or after some
  instant, then however requests, responses and sweeps interleave within one time to live of it, at most
  the goroutines that have not yet counted are missing from its series, and its record stays.\<close>

theorem active_site_loses_nothing:
  assumes laws: "counter_laws ops val" and now: "\<forall>now. clock now \<longrightarrow> c \<le> UnixNano now \<and> UnixNano now \<le> c + T"
    and start: "finite {t. pcs0 t \<noteq> MDone}" "\<forall>t. fresh T (pcs0 t)"
    and k: "m_lastSeen (shared_metrics sh0) k = Some seen" "c \<le> seen"
    and run: "race ops clock (pcs0, sh0) (pcs, sh)"
  shows "series val (sh_Requests sh) k + (\<Sum>t | pcs0 t \<noteq> MDone. owed_requests k (pcs t)) =
      series val (sh_Requests sh0) k + (\<Sum>t | pcs0 t \<noteq> MDone. owed_requests k (pcs0 t)) \<and>
    series val (sh_ResponseBytes sh) k + (\<Sum>t | pcs0 t \<noteq> MDone. owed_bytes k (pcs t)) =
      series val (sh_ResponseBytes sh0) k + (\<Sum>t | pcs0 t \<noteq> MDone. owed_bytes k (pcs0 t)) \<and>
    (\<exists>seen'. m_lastSeen (shared_metrics sh) k = Some seen' \<and> c \<le> seen')"
proof -
  obtain a where a: "sh_lastSeen sh0 k = Some a" "seen = sh_stamp sh0 a"
    using k(1) by (auto simp: shared_metrics_def)
  have "site_kept val k a c sh0 (series val (sh_Requests sh0) k) (series val (sh_ResponseBytes sh0) k)"
    using a k(2) by (simp add: site_kept_def)
  then have "site_kept val k a c (snd (pcs0, sh0)) (series val (sh_Requests sh0) k) (series val (sh_ResponseBytes sh0) k)"
    by simp
  from race_keeps [where c = c and T = T and k = k and a = a, OF laws _ start(1) run _ _ this] now start(2) fresh_calm
  show ?thesis by (simp add: site_kept_def shared_metrics_def)
qed

subsection \<open>No series without a record\<close>

text \<open>A count for the site that falls between a sweep's deletion of its series and that of its record. The runs
  in which none does are \<open>untorn_race\<close>; everything else may interleave freely in them.\<close>

fun lands_between :: "siteKey \<Rightarrow> mpc \<Rightarrow> mpc \<Rightarrow> bool" where
  "lands_between k (MInc q) (SBytes r ks c) = (q = k \<and> r = k)"
| "lands_between k (MInc q) (SSeen r ks c) = (q = k \<and> r = k)"
| "lands_between k (MAdd q n) (SSeen r ks c) = (q = k \<and> r = k)"
| "lands_between k _ _ = False"

inductive untorn_race :: "siteKey \<Rightarrow> 'v counter_ops \<Rightarrow> (gotime \<Rightarrow> bool) \<Rightarrow> 'v racing \<Rightarrow> 'v racing \<Rightarrow> bool"
  for k ops clock where
  untorn_start: "untorn_race k ops clock s s"
| untorn_step: "untorn_race k ops clock s s' \<Longrightarrow> clock now \<Longrightarrow> \<forall>u. \<not> lands_between k (fst s' t) (fst s' u) \<Longrightarrow>
    untorn_race k ops clock s (mstep_thread ops now t s')"

lemma untorn_is_race: "untorn_race k ops clock s s' \<Longrightarrow> race ops clock s s'"
  by (induction rule: untorn_race.induct) (auto intro: race.intros)

text \<open>A goroutine that has counted for the site and has still to record it.\<close>

fun touching :: "siteKey \<Rightarrow> mpc \<Rightarrow> bool" where
  "touching k (MTouch q) = (q = k)"
| "touching k (MLoad q n) = (q = k)"
| "touching k (MInsert q n) = (q = k)"
| "touching k _ = False"

text \<open>What a sweep that is deleting the site has deleted so far.\<close>

fun swept_so_far :: "('v \<Rightarrow> siteKey \<Rightarrow> int option) \<Rightarrow> siteKey \<Rightarrow> 'v shared \<Rightarrow> mpc \<Rightarrow> bool" where
  "swept_so_far val k sh (SBytes q ks c) = (q = k \<longrightarrow> val (sh_Requests sh) k = None)"
| "swept_so_far val k sh (SSeen q ks c) = (q = k \<longrightarrow> val (sh_Requests sh) k = None \<and> val (sh_ResponseBytes sh) k = None)"
| "swept_so_far val k sh _ = True"

definition has_series :: "('v \<Rightarrow> siteKey \<Rightarrow> int option) \<Rightarrow> siteKey \<Rightarrow> 'v shared \<Rightarrow> bool" where
  "has_series val k sh \<longleftrightarrow> val (sh_Requests sh) k \<noteq> None \<or> val (sh_ResponseBytes sh) k \<noteq> None"

definition backed where
  "backed val k s \<longleftrightarrow> (\<forall>t. swept_so_far val k (snd s) (fst s t)) \<and>
     (has_series val k (snd s) \<longrightarrow> sh_lastSeen (snd s) k \<noteq> None \<or> (\<exists>t. touching k (fst s t)))"

text \<open>A step seen from the goroutine that takes it, and from any other.\<close>

lemma mstep_backed:
  assumes laws: "counter_laws ops val" and p: "swept_so_far val k sh p" and st: "mstep ops now (p, sh) = (p', sh')"
    and b: "has_series val k sh \<Longrightarrow> sh_lastSeen sh k \<noteq> None \<or> touching k p \<or> other"
  shows "swept_so_far val k sh' p' \<and> (has_series val k sh' \<longrightarrow> sh_lastSeen sh' k \<noteq> None \<or> touching k p' \<or> other)"
proof (cases p)
  case (SVisit ks lim)
  with st b show ?thesis by (cases ks) (auto split: option.splits)
qed (use p st b in \<open>auto simp: has_series_def counter_lawsD [OF laws] split: option.splits if_splits\<close>)

lemma mstep_series:
  assumes laws: "counter_laws ops val" and st: "mstep ops now (p, sh) = (p', sh')"
  shows "p = MInc k \<or> val (sh_Requests sh') k = None \<or> val (sh_Requests sh') k = val (sh_Requests sh) k"
    "(\<exists>n. p = MAdd k n) \<or> val (sh_ResponseBytes sh') k = None \<or> val (sh_ResponseBytes sh') k = val (sh_ResponseBytes sh) k"
proof -
  have "(p = MInc k \<or> val (sh_Requests sh') k = None \<or> val (sh_Requests sh') k = val (sh_Requests sh) k) \<and>
    ((\<exists>n. p = MAdd k n) \<or> val (sh_ResponseBytes sh') k = None \<or> val (sh_ResponseBytes sh') k = val (sh_ResponseBytes sh) k)"
  proof (cases p)
    case (SVisit ks lim)
    with st show ?thesis by (cases ks) (auto split: option.splits)
  qed (use st in \<open>auto simp: counter_lawsD [OF laws] split: option.splits if_splits\<close>)
  then show "p = MInc k \<or> val (sh_Requests sh') k = None \<or> val (sh_Requests sh') k = val (sh_Requests sh) k"
    "(\<exists>n. p = MAdd k n) \<or> val (sh_ResponseBytes sh') k = None \<or> val (sh_ResponseBytes sh') k = val (sh_ResponseBytes sh) k"
    by blast+
qed

lemma mstep_others:
  assumes laws: "counter_laws ops val" and st: "mstep ops now (p, sh) = (p', sh')"
    and q: "swept_so_far val k sh q" "\<not> lands_between k p q"
  shows "swept_so_far val k sh' q"
  using q mstep_series [OF laws st, of k] by (cases q) auto

lemma untorn_backed:
  assumes laws: "counter_laws ops val" and run: "untorn_race k ops clock s0 s" and start: "backed val k s0"
  shows "backed val k s"
  using run start
proof (induction rule: untorn_race.induct)
  case (untorn_step s0 s now t)
  note IH = untorn_step.IH [OF untorn_step.prems, unfolded backed_def]
  obtain p sh where m: "mstep ops now (fst s t, snd s) = (p, sh)" by (meson surj_pair)
  then have s': "mstep_thread ops now t s = ((fst s)(t := p), sh)" by (simp add: mstep_thread_def)
  let ?other = "\<exists>u. u \<noteq> t \<and> touching k (fst s u)"
  have t: "swept_so_far val k sh p \<and> (has_series val k sh \<longrightarrow> sh_lastSeen sh k \<noteq> None \<or> touching k p \<or> ?other)"
    using IH by (intro mstep_backed [OF laws _ m]) metis+
  moreover have "swept_so_far val k sh (((fst s)(t := p)) u)" for u
    using t IH untorn_step.hyps(3) mstep_others [OF laws m, of k "fst s u"] by simp
  moreover have "\<exists>u. touching k (((fst s)(t := p)) u)" if "touching k p \<or> ?other"
    using that by (metis fun_upd_other fun_upd_same)
  ultimately show ?case unfolding s' backed_def fst_conv snd_conv by blast
qed

lemma fresh_backed:
  assumes "\<forall>t. fresh T (pcs t)" "has_series val k sh \<longrightarrow> sh_lastSeen sh k \<noteq> None"
  shows "backed val k (pcs, sh)"
proof -
  have "swept_so_far val k sh (pcs t)" for t
    using assms(1) [rule_format, of t] by (cases "pcs t") simp_all
  with assms(2) show ?thesis by (simp add: backed_def)
qed

text \<open>C12: invariant. Metric cardinality under races: a site's series never outlive its activity record, which is
  what a sweep finds them by. However requests, responses and any sweeps interleave, step by step, while
  a series of the site exists there is a record of it or a goroutine about to write one; once all are
  done, one sweep that visits every record leaves the site no series unless it was active within the time
  to live. The one schedule excluded is a count for the site that falls between a sweep's deletion of its
  series and that of its record.\<close>

theorem series_have_records:
  assumes laws: "counter_laws ops val" and start: "\<forall>t. fresh T (pcs0 t)" "has_series val k sh0 \<longrightarrow> sh_lastSeen sh0 k \<noteq> None"
    and run: "untorn_race k ops clock (pcs0, sh0) (pcs, sh)"
  shows "(has_series val k sh \<longrightarrow> sh_lastSeen sh k \<noteq> None \<or> (\<exists>t. touching k (pcs t))) \<and>
    ((\<forall>t. pcs t = MDone) \<longrightarrow> dom (sh_lastSeen sh) \<subseteq> set visit \<longrightarrow>
      (case site_view val k (evictIdle ops visit now ttl (shared_metrics sh)) of
         (None, requests, bytes) \<Rightarrow> requests = None \<and> bytes = None
       | (Some seen, _) \<Rightarrow> UnixNano now - ttl \<le> seen))"
proof -
  have b: "has_series val k sh \<longrightarrow> sh_lastSeen sh k \<noteq> None \<or> (\<exists>t. touching k (pcs t))"
    using untorn_backed [OF laws run fresh_backed [OF start]] by (simp add: backed_def)
  have "case site_view val k (evictIdle ops visit now ttl (shared_metrics sh)) of
       (None, requests, bytes) \<Rightarrow> requests = None \<and> bytes = None | (Some seen, _) \<Rightarrow> UnixNano now - ttl \<le> seen"
    if over: "\<forall>t. pcs t = MDone" and visit: "dom (sh_lastSeen sh) \<subseteq> set visit"
  proof -
    from b over have h: "has_series val k sh \<longrightarrow> sh_lastSeen sh k \<noteq> None" by simp
    note v = evictIdle_view [OF laws, of k visit now ttl "shared_metrics sh"]
    have m: "site_view val k (shared_metrics sh) =
        (map_option (sh_stamp sh) (sh_lastSeen sh k), val (sh_Requests sh) k, val (sh_ResponseBytes sh) k)"
      "idle lim k (shared_metrics sh) \<longleftrightarrow> (\<exists>a. sh_lastSeen sh k = Some a \<and> sh_stamp sh a < lim)" for lim
      by (auto simp: site_view_def idle_def shared_metrics_def split: option.split)
    show ?thesis
    proof (cases "sh_lastSeen sh k")
      case None
      with h show ?thesis by (simp add: v m has_series_def)
    next
      case (Some a)
      with visit have "k \<in> set visit" by blast
      with Some show ?thesis by (simp add: v m)
    qed
  qed
  with b show ?thesis by blast
qed

subsection \<open>An idle site that wakes during a sweep\<close>

lemma race_schedule: "clock now \<Longrightarrow> race ops clock s0 s \<Longrightarrow> race ops clock s0 (fold (mstep_thread ops now) ts s)"
proof (induction ts arbitrary: s)
  case (Cons t ts)
  from Cons.IH [OF Cons.prems(1) race_step [OF Cons.prems(2,1)]] show ?case by simp
qed simp

text \<open>C8: safety. What the races can cost a site that has been idle for longer than the time to live, when
  its first request meets the sweep. Its request series can come back after the sweep has dropped it and
  before the sweep drops the record, and is then found by no later sweep, until the site is used again;
  and body bytes counted after the sweep has judged the site idle can be dropped with the series.\<close>

theorem sweep_races_with_waking_site:
  assumes laws: "counter_laws ops val" and k: "m_lastSeen (shared_metrics sh0) k = Some seen"
    and idle: "seen < UnixNano now - ttl" and n: "0 < n"
  shows "(\<exists>pcs sh. race ops ((=) now) ((\<lambda>_. MDone)(0 := MInc k, 1 := MSweep [k] ttl), sh0) (pcs, sh) \<and>
      (\<forall>t. pcs t = MDone) \<and> val (sh_Requests sh) k = Some 1 \<and>
      (\<forall>visit later ttl'. val (m_Requests (evictIdle ops visit later ttl' (shared_metrics sh))) k = Some 1)) \<and>
    (\<exists>pcs sh. race ops ((=) now) ((\<lambda>_. MDone)(0 := MAdd k n, 1 := MSweep [k] ttl), sh0) (pcs, sh) \<and>
      (\<forall>t. pcs t = MDone) \<and> val (sh_ResponseBytes sh) k = None)"
proof
  obtain a where a: "sh_lastSeen sh0 k = Some a" "sh_stamp sh0 a < UnixNano now - ttl"
    using k idle by (auto simp: shared_metrics_def)
  let ?s = "\<lambda>p. ((\<lambda>_. MDone)(0 := p, 1 := MSweep [k] ttl), sh0)"
  let ?r = "fold (mstep_thread ops now) [1, 1, 1, 1, 0, 0, 0, 0, 1, 1, 1] (?s (MInc k))"
  have r: "fst ?r t = MDone" "val (sh_Requests (snd ?r)) k = Some 1" "sh_lastSeen (snd ?r) k = None" for t
    using a by (simp_all add: mstep_thread_def UnixNano_Add counter_lawsD [OF laws] series_def)
  have "site_view val k (evictIdle ops visit later ttl' (shared_metrics (snd ?r))) = site_view val k (shared_metrics (snd ?r))"
    for visit later ttl'
    using r(3) by (simp add: evictIdle_view [OF laws] idle_def shared_metrics_def)
  then have "val (m_Requests (evictIdle ops visit later ttl' (shared_metrics (snd ?r)))) k = Some 1" for visit later ttl'
    using r(2) by (simp add: site_view_def) (simp add: shared_metrics_def)
  moreover have "race ops ((=) now) (?s (MInc k)) ?r" by (intro race_schedule race_start) simp
  ultimately show "\<exists>pcs sh. race ops ((=) now) (?s (MInc k)) (pcs, sh) \<and>
      (\<forall>t. pcs t = MDone) \<and> val (sh_Requests sh) k = Some 1 \<and>
      (\<forall>visit later ttl'. val (m_Requests (evictIdle ops visit later ttl' (shared_metrics sh))) k = Some 1)"
    using r(1,2) by (metis prod.collapse)
  let ?q = "fold (mstep_thread ops now) [1, 1, 1, 0, 0, 0, 0, 1, 1, 1, 1] (?s (MAdd k n))"
  have "fst ?q t = MDone" "val (sh_ResponseBytes (snd ?q)) k = None" for t
    using a n by (simp_all add: mstep_thread_def UnixNano_Add counter_lawsD [OF laws])
  moreover have "race ops ((=) now) (?s (MAdd k n)) ?q" by (intro race_schedule race_start) simp
  ultimately show "\<exists>pcs sh. race ops ((=) now) (?s (MAdd k n)) (pcs, sh) \<and>
      (\<forall>t. pcs t = MDone) \<and> val (sh_ResponseBytes sh) k = None"
    by (metis prod.collapse)
qed

subsection \<open>Witnesses\<close>

text \<open>One site, last active at the epoch, nothing counted.\<close>

definition demo_shared :: "(siteKey \<rightharpoonup> int) shared" where
  "demo_shared = \<lparr>sh_Requests = Map.empty, sh_ResponseBytes = Map.empty, sh_lastSeen = [(''a'', ''b'') \<mapsto> 0],
     sh_stamp = (\<lambda>_. 0), sh_next = 1\<rparr>"

definition demo_start :: "nat \<Rightarrow> mpc" where
  "demo_start = (\<lambda>_. MDone)(0 := MInc (''a'', ''b''), 1 := MAdd (''a'', ''b'') 7, 2 := MSweep [(''a'', ''b'')] hour)"

definition demo_race :: "(siteKey \<rightharpoonup> int) racing" where
  "demo_race = fold (mstep_thread map_ops (GoTime 62135596800 0)) [2, 0, 2, 1, 0, 2, 1, 0, 1, 2, 0, 1] (demo_start, demo_shared)"

lemma demo_race_run: "race map_ops ((=) (GoTime 62135596800 0)) (demo_start, demo_shared) (fst demo_race, snd demo_race)"
  unfolding prod.collapse demo_race_def by (intro race_schedule race_start refl)

lemma demo_race_end: "fst demo_race 0 = MDone" "fst demo_race 1 = MDone" "fst demo_race 2 = MDone"
  by code_simp+

lemma metrics_operations_alone_witness:
  "\<exists>sh'. ends map_ops (GoTime 62135596800 0) (MInc (''a'', ''b'')) demo_shared sh' \<and>
     m_Requests (shared_metrics sh') (''a'', ''b'') = Some 1"
proof -
  have "heap_ok demo_shared" by (simp add: heap_ok_def demo_shared_def)
  from metrics_operations_alone [OF this, of map_ops "GoTime 62135596800 0" "''a''" "''b''"]
  obtain sh' where "ends map_ops (GoTime 62135596800 0) (MInc (''a'', ''b'')) demo_shared sh'"
    "shared_metrics sh' = ObserveRequest map_ops (GoTime 62135596800 0) ''a'' ''b'' (shared_metrics demo_shared)" by blast
  then show ?thesis
    by (intro exI [of _ sh']) (simp add: map_ops_def shared_metrics_def demo_shared_def series_def)
qed

lemma active_site_loses_nothing_witness:
  "race map_ops ((=) (GoTime 62135596800 0)) (demo_start, demo_shared) (fst demo_race, snd demo_race) \<and>
   series id (sh_Requests (snd demo_race)) (''a'', ''b'') = 1 \<and>
   series id (sh_ResponseBytes (snd demo_race)) (''a'', ''b'') = 7"
proof -
  have threads: "{t. demo_start t \<noteq> MDone} = {0, 1, 2}" by (auto simp: demo_start_def)
  have "\<forall>now. GoTime 62135596800 0 = now \<longrightarrow> 0 \<le> UnixNano now \<and> UnixNano now \<le> 0 + hour"
    by (auto simp: UnixNano_def hour_def)
  moreover have "\<forall>t. fresh hour (demo_start t)" "finite {t. demo_start t \<noteq> MDone}"
    unfolding threads by (simp_all add: demo_start_def)
  moreover have "m_lastSeen (shared_metrics demo_shared) (''a'', ''b'') = Some 0"
    by (simp add: shared_metrics_def demo_shared_def)
  ultimately have "series id (sh_Requests (snd demo_race)) (''a'', ''b'') + (\<Sum>t\<in>{0, 1, 2}. owed_requests (''a'', ''b'') (fst demo_race t)) =
      series id (sh_Requests demo_shared) (''a'', ''b'') + (\<Sum>t\<in>{0, 1, 2}. owed_requests (''a'', ''b'') (demo_start t)) \<and>
    series id (sh_ResponseBytes (snd demo_race)) (''a'', ''b'') + (\<Sum>t\<in>{0, 1, 2}. owed_bytes (''a'', ''b'') (fst demo_race t)) =
      series id (sh_ResponseBytes demo_shared) (''a'', ''b'') + (\<Sum>t\<in>{0, 1, 2}. owed_bytes (''a'', ''b'') (demo_start t))"
    using active_site_loses_nothing [OF map_ops_laws _ _ _ _ _ demo_race_run, of 0 hour "(''a'', ''b'')" 0]
    unfolding threads by simp
  then show ?thesis
    using demo_race_run by (simp add: demo_race_end demo_race_end(2) [unfolded One_nat_def])
      (simp add: demo_start_def demo_shared_def series_def)
qed

lemma sweep_races_with_waking_site_witness:
  "\<exists>pcs sh. race map_ops ((=) (GoTime 62135596801 0)) ((\<lambda>_. MDone)(0 := MInc (''a'', ''b''), 1 := MSweep [(''a'', ''b'')] 1000), demo_shared) (pcs, sh) \<and>
     (\<forall>t. pcs t = MDone) \<and> sh_Requests sh (''a'', ''b'') = Some 1"
proof -
  have "m_lastSeen (shared_metrics demo_shared) (''a'', ''b'') = Some 0"
    by (simp add: shared_metrics_def demo_shared_def)
  moreover have "0 < UnixNano (GoTime 62135596801 0) - 1000" by (simp add: UnixNano_def)
  moreover have "(0::int) < 7" by simp
  ultimately show ?thesis
    using sweep_races_with_waking_site [OF map_ops_laws, of demo_shared "(''a'', ''b'')" 0] by fastforce
qed

text \<open>A request and a response meet a sweep that finds their site idle: the request is counted just before the
  sweep deletes the series, and recorded after it deleted the record.\<close>

fun untorn_path :: "nat list \<Rightarrow> siteKey \<Rightarrow> 'v counter_ops \<Rightarrow> gotime \<Rightarrow> nat list \<Rightarrow> 'v racing \<Rightarrow> bool" where
  "untorn_path us k ops now [] s = True"
| "untorn_path us k ops now (t # ts) s =
     (list_all (\<lambda>u. \<not> lands_between k (fst s t) (fst s u)) us \<and> untorn_path us k ops now ts (mstep_thread ops now t s))"

lemma lands_between_done: "\<not> lands_between k p MDone" "\<not> lands_between k MDone p"
  by (cases p; simp)+

lemma mstep_thread_done:
  assumes "\<forall>u. u \<notin> A \<longrightarrow> fst s u = MDone"
  shows "\<forall>u. u \<notin> A \<longrightarrow> fst (mstep_thread ops now t s) u = MDone"
proof (cases "t \<in> A")
  case True
  with assms show ?thesis by (auto simp: mstep_thread_def split: prod.split)
next
  case False
  with assms have "fst s t = MDone" by blast
  with assms show ?thesis by (simp add: mstep_thread_def)
qed

lemma untorn_schedule:
  "clock now \<Longrightarrow> untorn_race k ops clock s0 s \<Longrightarrow> \<forall>u. u \<notin> set us \<longrightarrow> fst s u = MDone \<Longrightarrow> untorn_path us k ops now ts s \<Longrightarrow>
   untorn_race k ops clock s0 (fold (mstep_thread ops now) ts s) \<and>
   (\<forall>u. u \<notin> set us \<longrightarrow> fst (fold (mstep_thread ops now) ts s) u = MDone)"
proof (induction ts arbitrary: s)
  case (Cons t ts)
  have "\<not> lands_between k (fst s t) (fst s u)" for u
    using Cons.prems(3,4) by (cases "u \<in> set us") (auto simp: list_all_iff lands_between_done)
  then have "untorn_race k ops clock s0 (mstep_thread ops now t s)"
    using untorn_step [OF Cons.prems(2,1)] by blast
  from Cons.IH [OF Cons.prems(1) this mstep_thread_done [OF Cons.prems(3)]] Cons.prems(4) show ?case by simp
qed simp

definition late :: gotime where
  "late = GoTime 62135607600 0"

definition demo_meeting :: "(siteKey \<rightharpoonup> int) racing" where
  "demo_meeting = fold (mstep_thread map_ops late) [2, 2, 2, 0, 2, 2, 2, 0, 0, 0, 2, 1, 1, 1, 1] (demo_start, demo_shared)"

lemma series_have_records_witness:
  "untorn_race (''a'', ''b'') map_ops ((=) late) (demo_start, demo_shared) (fst demo_meeting, snd demo_meeting) \<and>
   has_series id (''a'', ''b'') (snd demo_meeting) \<and> sh_lastSeen (snd demo_meeting) (''a'', ''b'') = Some 1 \<and>
   site_view id (''a'', ''b'') (evictIdle map_ops [(''a'', ''b'')] late 0 (shared_metrics (snd demo_meeting))) \<noteq> (None, None, None)"
proof -
  let ?k = "(''a'', ''b'')"
  have others: "\<forall>u. u \<notin> set [0, 1, 2] \<longrightarrow> fst (demo_start, demo_shared) u = MDone" by (simp add: demo_start_def)
  have "untorn_path [0, 1, 2] ?k map_ops late [2, 2, 2, 0, 2, 2, 2, 0, 0, 0, 2, 1, 1, 1, 1] (demo_start, demo_shared)"
    by code_simp
  from untorn_schedule [where clock = "(=) late", OF refl untorn_start others this]
  have run: "untorn_race ?k map_ops ((=) late) (demo_start, demo_shared) (fst demo_meeting, snd demo_meeting)"
    and rest: "\<forall>u. u \<notin> set [0, 1, 2] \<longrightarrow> fst demo_meeting u = MDone"
    unfolding prod.collapse by (simp_all add: demo_meeting_def)
  have three: "fst demo_meeting 0 = MDone" "fst demo_meeting 1 = MDone" "fst demo_meeting 2 = MDone" by code_simp+
  have over: "\<forall>t. fst demo_meeting t = MDone"
    using rest three by (metis empty_iff empty_set insert_iff list.simps(15))
  have "\<forall>t. fresh hour (demo_start t)" by (simp add: demo_start_def)
  moreover have "has_series id ?k demo_shared \<longrightarrow> sh_lastSeen demo_shared ?k \<noteq> None"
    by (simp add: has_series_def demo_shared_def)
  moreover have s: "has_series id ?k (snd demo_meeting)" by code_simp
  ultimately have "sh_lastSeen (snd demo_meeting) ?k \<noteq> None"
    using series_have_records [OF map_ops_laws _ _ run] over by auto
  moreover have "sh_lastSeen (snd demo_meeting) ?k = Some 1"
    "site_view id ?k (evictIdle map_ops [?k] late 0 (shared_metrics (snd demo_meeting))) \<noteq> (None, None, None)" by code_simp+
  ultimately show ?thesis using run s by blast
qed

end
