(* ===== verification/StreamCopy.thy ===== *)
theory StreamCopy
  imports HTTP
begin

section \<open>Streaming through pooled buffers\<close>

text \<open>
  \<^verbatim>\<open>serveBlob\<close> copies a blob to its response through a buffer of \<^verbatim>\<open>copyBufPool\<close>, which all requests
  share. \<open>HTTP\<close> gives \<^verbatim>\<open>io.CopyBuffer\<close> as one write of the whole body; here it is the loop it is: take a
  buffer from the pool, read a piece into it, write that piece from it, and so on, then put the buffer
  back. Streams interleave at each read and write, on a heap of buffers whose contents survive from one
  use to the next. The pool is \<^verbatim>\<open>sync.Pool\<close> as documented: a get removes some buffer the pool holds or makes
  a new one, and the pool may forget buffers at any time. A read delivers at least one byte, at most what
  the buffer takes, until the source ends. (\<^verbatim>\<open>io.CopyBuffer\<close> bypasses the buffer for a response writer that is
  an \<^verbatim>\<open>io.ReaderFrom\<close>; \<^verbatim>\<open>readerOnly\<close> keeps it from bypassing it for the reader.)
\<close>

subsection \<open>Streams and buffers\<close>

definition copyBufSize :: nat where
  "copyBufSize = 65536"

text \<open>The program points: before the pool, in the loop before a read and before a write, before the
  buffer goes back, and done. A stream carries its reader, its response and the count of bytes written.\<close>

datatype spc =
  SIdle
| SOpen reader response
| SRead nat reader response nat
| SWrite nat nat reader response nat
| SPut nat nat "copy_error option" response
| SDone nat "copy_error option" response

record streams =
  sm_heap :: "nat \<rightharpoonup> bytes"
  sm_pool :: "nat set"
  sm_pc :: "nat \<Rightarrow> spc"

definition at_pc :: "nat \<Rightarrow> spc \<Rightarrow> streams \<Rightarrow> streams" where
  "at_pc t p s = s\<lparr>sm_pc := (sm_pc s)(t := p)\<rparr>"

text \<open>A read overwrites the front of the buffer and leaves the rest of it as it was.\<close>

definition fill :: "nat \<Rightarrow> bytes \<Rightarrow> bytes \<Rightarrow> bytes" where
  "fill m data buf = take m data @ drop m buf"

definition copy_write :: "nat \<Rightarrow> nat \<Rightarrow> bytes \<Rightarrow> reader \<Rightarrow> response \<Rightarrow> nat \<Rightarrow> spc" where
  "copy_write a m buf rc w n =
     (case WriteBody (take m buf) w of
        (k, failed, w') \<Rightarrow> if failed then SPut a (n + k) (Some WriteFailed) w' else SRead a rc w' (n + k))"

inductive stream_step :: "nat \<Rightarrow> streams \<Rightarrow> streams \<Rightarrow> bool" for t where
  get_pooled: "sm_pc s t = SOpen rc w \<Longrightarrow> a \<in> sm_pool s \<Longrightarrow>
    stream_step t s (at_pc t (SRead a rc w 0) (s\<lparr>sm_pool := sm_pool s - {a}\<rparr>))"
| get_new: "sm_pc s t = SOpen rc w \<Longrightarrow> sm_heap s a = None \<Longrightarrow>
    stream_step t s (at_pc t (SRead a rc w 0) (s\<lparr>sm_heap := (sm_heap s)(a \<mapsto> replicate copyBufSize CHR 0x00)\<rparr>))"
| reads: "sm_pc s t = SRead a rc w n \<Longrightarrow> sm_heap s a = Some buf \<Longrightarrow>
    0 < m \<Longrightarrow> m \<le> length buf \<Longrightarrow> m \<le> length (rd_data rc) \<Longrightarrow>
    stream_step t s (at_pc t (SWrite a m (rc\<lparr>rd_data := drop m (rd_data rc)\<rparr>) w n)
      (s\<lparr>sm_heap := (sm_heap s)(a \<mapsto> fill m (rd_data rc) buf)\<rparr>))"
| source_ends: "sm_pc s t = SRead a rc w n \<Longrightarrow> rd_data rc = [] \<Longrightarrow>
    stream_step t s (at_pc t (SPut a n (map_option SourceFailed (rd_err rc)) w) s)"
| writes: "sm_pc s t = SWrite a m rc w n \<Longrightarrow> sm_heap s a = Some buf \<Longrightarrow>
    stream_step t s (at_pc t (copy_write a m buf rc w n) s)"
| puts: "sm_pc s t = SPut a n err w \<Longrightarrow>
    stream_step t s (at_pc t (SDone n err w) (s\<lparr>sm_pool := insert a (sm_pool s)\<rparr>))"

inductive streams_run :: "streams \<Rightarrow> streams \<Rightarrow> bool" where
  none: "streams_run s s"
| step: "streams_run s s' \<Longrightarrow> stream_step t s' s'' \<Longrightarrow> streams_run s s''"
| forget: "streams_run s s' \<Longrightarrow> P \<subseteq> sm_pool s' \<Longrightarrow> streams_run s (s'\<lparr>sm_pool := P\<rparr>)"

subsection \<open>Ownership\<close>

fun owns :: "spc \<Rightarrow> nat option" where
  "owns (SRead a _ _ _) = Some a"
| "owns (SWrite a _ _ _ _) = Some a"
| "owns (SPut a _ _ _) = Some a"
| "owns _ = None"

fun piece_fits :: "spc \<Rightarrow> bool" where
  "piece_fits (SWrite _ m _ _ _) = (m \<le> copyBufSize)"
| "piece_fits _ = True"

definition pool_ok :: "streams \<Rightarrow> bool" where
  "pool_ok s \<longleftrightarrow>
     finite (dom (sm_heap s)) \<and> (\<forall>a buf. sm_heap s a = Some buf \<longrightarrow> length buf = copyBufSize) \<and>
     sm_pool s \<subseteq> dom (sm_heap s) \<and>
     (\<forall>t a. owns (sm_pc s t) = Some a \<longrightarrow> a \<in> dom (sm_heap s) - sm_pool s) \<and>
     (\<forall>t u a. owns (sm_pc s t) = Some a \<longrightarrow> owns (sm_pc s u) = Some a \<longrightarrow> t = u) \<and>
     (\<forall>t. piece_fits (sm_pc s t))"

text \<open>What a stream will have answered when it is done, from where it stands and what its buffer holds.\<close>

definition counted :: "nat \<Rightarrow> nat \<times> copy_error option \<times> response \<Rightarrow> nat \<times> copy_error option \<times> response" where
  "counted n = (\<lambda>(k, r). (n + k, r))"

fun outcome :: "(nat \<rightharpoonup> bytes) \<Rightarrow> spc \<Rightarrow> (nat \<times> copy_error option \<times> response) option" where
  "outcome h SIdle = None"
| "outcome h (SOpen rc w) = Some (CopyBuffer rc w)"
| "outcome h (SRead a rc w n) = Some (counted n (CopyBuffer rc w))"
| "outcome h (SWrite a m rc w n) =
     Some (counted n (CopyBuffer (rc\<lparr>rd_data := take m (case h a of Some buf \<Rightarrow> buf | None \<Rightarrow> []) @ rd_data rc\<rparr>) w))"
| "outcome h (SPut a n err w) = Some (n, err, w)"
| "outcome h (SDone n err w) = Some (n, err, w)"

lemma WriteBody_Nil: "WriteBody [] w = (0, False, w)"
  by (simp add: WriteBody_def split: option.split)

lemma WriteBody_append:
  "WriteBody (c @ d) w =
     (case WriteBody c w of
        (k, failed, w') \<Rightarrow>
          if failed then (k, True, w') else (case WriteBody d w' of (j, f, w'') \<Rightarrow> (k + j, f, w'')))"
  by (auto simp: WriteBody_def Let_def min_def split: option.split)

lemma CopyBuffer_end: "rd_data rc = [] \<Longrightarrow> CopyBuffer rc w = (0, map_option SourceFailed (rd_err rc), w)"
  by (simp add: CopyBuffer_def WriteBody_Nil)

lemma CopyBuffer_piece:
  "CopyBuffer (rc\<lparr>rd_data := c @ d\<rparr>) w =
     (case WriteBody c w of
        (k, failed, w') \<Rightarrow>
          if failed then (k, Some WriteFailed, w') else counted k (CopyBuffer (rc\<lparr>rd_data := d\<rparr>) w'))"
  by (simp add: CopyBuffer_def WriteBody_append counted_def split: prod.split)

lemma counted_counted: "counted n (counted k r) = counted (n + k) r"
  by (simp add: counted_def split: prod.split)

lemma at_pc_simps [simp]:
  "sm_pc (at_pc t p s) = (sm_pc s)(t := p)" "sm_heap (at_pc t p s) = sm_heap s" "sm_pool (at_pc t p s) = sm_pool s"
  by (simp_all add: at_pc_def)

lemma pool_okD:
  assumes "pool_ok s"
  shows "finite (dom (sm_heap s))" "sm_heap s a = Some buf \<Longrightarrow> length buf = copyBufSize"
    "a \<in> sm_pool s \<Longrightarrow> a \<in> dom (sm_heap s)"
    "owns (sm_pc s t) = Some a \<Longrightarrow> a \<in> dom (sm_heap s) \<and> a \<notin> sm_pool s"
    "owns (sm_pc s t) = Some a \<Longrightarrow> owns (sm_pc s u) = Some a \<Longrightarrow> t = u" "piece_fits (sm_pc s t)"
  using assms unfolding pool_ok_def by blast+

lemma copy_write_owns: "owns (copy_write a m buf rc w n) = Some a" "piece_fits (copy_write a m buf rc w n)"
  by (simp_all add: copy_write_def split: prod.split)

lemma length_fill: "m \<le> length buf \<Longrightarrow> m \<le> length d \<Longrightarrow> length (fill m d buf) = length buf"
  by (simp add: fill_def)

text \<open>Ownership is kept: the pool never holds a buffer in use, nor two streams one buffer.\<close>

lemma pool_ok_step:
  assumes ok: "pool_ok s" and st: "stream_step t s s'"
  shows "pool_ok s'"
  using st
proof cases
  case (get_pooled rc w a)
  have "a \<noteq> b" if "owns (sm_pc s u) = Some b" for u b
    using pool_okD(4) [OF ok that] get_pooled(3) by auto
  with ok get_pooled show ?thesis by (auto simp: pool_ok_def)
next
  case (get_new rc w a)
  have "a \<notin> sm_pool s" using pool_okD(3) [OF ok, of a] get_new(3) by auto
  moreover have "a \<noteq> b" if "owns (sm_pc s u) = Some b" for u b
    using pool_okD(4) [OF ok that] get_new(3) by auto
  ultimately show ?thesis using ok get_new by (auto simp: pool_ok_def)
next
  case (reads a rc w n buf m)
  have "a \<notin> sm_pool s" using pool_okD(4) [OF ok, of t a] reads(2) by simp
  moreover have "m \<le> copyBufSize" using pool_okD(2) [OF ok reads(3)] reads(5) by simp
  ultimately show ?thesis using ok reads by (auto simp: pool_ok_def length_fill)
next
  case (source_ends a rc w n)
  have "a \<in> dom (sm_heap s)" "a \<notin> sm_pool s" using pool_okD(4) [OF ok, of t a] source_ends(2) by simp_all
  moreover have "a \<noteq> b" if "owns (sm_pc s u) = Some b" "u \<noteq> t" for u b
    using pool_okD(5) [OF ok, of u b t] that source_ends(2) by auto
  ultimately show ?thesis using ok source_ends(1) by (auto simp: pool_ok_def)
next
  case (writes a m rc w n buf)
  have "a \<in> dom (sm_heap s)" "a \<notin> sm_pool s" using pool_okD(4) [OF ok, of t a] writes(2) by simp_all
  moreover have "a \<noteq> b" if "owns (sm_pc s u) = Some b" "u \<noteq> t" for u b
    using pool_okD(5) [OF ok, of u b t] that writes(2) by auto
  ultimately show ?thesis using ok writes(1) by (auto simp: pool_ok_def copy_write_owns)
next
  case (puts a n err w)
  have a: "a \<in> dom (sm_heap s)" using pool_okD(4) [OF ok, of t a] puts(2) by simp
  have "a \<noteq> b" if "owns (sm_pc s u) = Some b" "u \<noteq> t" for u b
    using pool_okD(5) [OF ok, of u b t] that puts(2) by auto
  with ok a puts(1) show ?thesis by (auto simp: pool_ok_def)
qed

text \<open>No step changes what any stream will have answered: its own step does the next part of it, the steps
  of others do not touch its buffer.\<close>

lemma outcome_heap:
  "(\<And>a. owns p = Some a \<Longrightarrow> h' a = h a) \<Longrightarrow> outcome h' p = outcome h p"
  by (cases p) auto

lemma outcome_step:
  assumes ok: "pool_ok s" and st: "stream_step t s s'"
  shows "outcome (sm_heap s') (sm_pc s' u) = outcome (sm_heap s) (sm_pc s u)"
  using st
proof cases
  case (get_new rc w a)
  have "a \<noteq> b" if "owns (sm_pc s u) = Some b" for b
    using pool_okD(4) [OF ok that] get_new(3) by auto
  then show ?thesis
    using get_new(1,2) by (auto simp: counted_def intro!: outcome_heap split: prod.split)
next
  case (reads a rc w n buf m)
  show ?thesis
  proof (cases "u = t")
    case True
    have "take m (fill m (rd_data rc) buf) @ drop m (rd_data rc) = rd_data rc"
      using reads(6) by (simp add: fill_def)
    with True reads(1,2) show ?thesis by simp
  next
    case False
    have "a \<noteq> b" if "owns (sm_pc s u) = Some b" for b
      using pool_okD(5) [OF ok that, of t] reads(2) False by auto
    with False reads(1) show ?thesis by (auto intro!: outcome_heap)
  qed
next
  case (writes a m rc w n buf)
  have "outcome (sm_heap s) (copy_write a m buf rc w n) = outcome (sm_heap s) (SWrite a m rc w n)"
    using writes(3) CopyBuffer_piece [where rc = rc and c = "take m buf" and d = "rd_data rc" and w = w]
    by (auto simp: copy_write_def counted_counted counted_def split: prod.split)
  with writes(1,2) show ?thesis by auto
qed (auto simp: counted_def CopyBuffer_end split: prod.split)

lemma streams_run_ok:
  assumes "streams_run s0 s" "pool_ok s0"
  shows "pool_ok s \<and> (\<forall>t. outcome (sm_heap s) (sm_pc s t) = outcome (sm_heap s0) (sm_pc s0 t))"
  using assms
proof (induction rule: streams_run.induct)
  case (step s s' t s'')
  from step.IH [OF step.prems] have IH: "pool_ok s'" "\<And>u. outcome (sm_heap s') (sm_pc s' u) = outcome (sm_heap s) (sm_pc s u)"
    by simp_all
  show ?case using pool_ok_step [OF IH(1) step.hyps(2)] outcome_step [OF IH(1) step.hyps(2)] IH(2) by simp
next
  case (forget s s' P)
  from forget.IH [OF forget.prems] forget.hyps(2) show ?case by (auto simp: pool_ok_def)
qed simp

subsection \<open>No stream waits for another\<close>

fun work :: "spc \<Rightarrow> nat" where
  "work (SOpen rc w) = 2 * length (rd_data rc) + 3"
| "work (SRead a rc w n) = 2 * length (rd_data rc) + 2"
| "work (SWrite a m rc w n) = 2 * length (rd_data rc) + 3"
| "work (SPut a n err w) = 1"
| "work _ = 0"

lemma work_step:
  assumes "stream_step t s s'"
  shows "work (sm_pc s' t) < work (sm_pc s t)" "u \<noteq> t \<Longrightarrow> sm_pc s' u = sm_pc s u"
  using assms by (cases; auto simp: copy_write_def split: prod.split)+

lemma can_step:
  assumes ok: "pool_ok s" and w: "0 < work (sm_pc s t)"
  shows "\<exists>s'. stream_step t s s'"
proof (cases "sm_pc s t")
  case (SOpen rc rw)
  obtain a where "a \<notin> dom (sm_heap s)"
    using ex_new_if_finite [OF infinite_UNIV_nat pool_okD(1) [OF ok]] by blast
  then have "sm_heap s a = None" by auto
  from get_new [OF SOpen this] show ?thesis by blast
next
  case (SRead a rc rw n)
  obtain buf where buf: "sm_heap s a = Some buf" using pool_okD(4) [OF ok, of t a] SRead by auto
  show ?thesis
  proof (cases "rd_data rc")
    case Nil
    from source_ends [OF SRead this] show ?thesis by blast
  next
    case (Cons c d)
    have "1 \<le> length buf" using pool_okD(2) [OF ok buf] by (simp add: copyBufSize_def)
    with reads [OF SRead buf, of 1] Cons show ?thesis by auto
  qed
next
  case (SWrite a m rc rw n)
  obtain buf where buf: "sm_heap s a = Some buf" using pool_okD(4) [OF ok, of t a] SWrite by auto
  from writes [OF SWrite buf] show ?thesis by blast
next
  case (SPut a n err rw)
  from puts [OF SPut] show ?thesis by blast
qed (use w in simp_all)

lemma finishes_alone:
  assumes "pool_ok s" "outcome (sm_heap s) (sm_pc s t) \<noteq> None"
  shows "\<exists>k s' n err w. k \<le> work (sm_pc s t) \<and> (stream_step t ^^ k) s s' \<and> sm_pc s' t = SDone n err w"
  using assms
proof (induction "work (sm_pc s t)" arbitrary: s rule: less_induct)
  case less
  show ?case
  proof (cases "0 < work (sm_pc s t)")
    case True
    then obtain s1 where s1: "stream_step t s s1" using can_step [OF less.prems(1)] by blast
    have "outcome (sm_heap s1) (sm_pc s1 t) \<noteq> None"
      using outcome_step [OF less.prems(1) s1] less.prems(2) by simp
    from less.hyps [OF work_step(1) [OF s1] pool_ok_step [OF less.prems(1) s1] this]
    obtain k s' n err w where k: "k \<le> work (sm_pc s1 t)" "(stream_step t ^^ k) s1 s'" "sm_pc s' t = SDone n err w"
      by blast
    from s1 k(2) have "(stream_step t ^^ Suc k) s s'" by (rule relpowp_Suc_I2)
    with k(1,3) work_step(1) [OF s1] show ?thesis by (intro exI [of _ "Suc k"]) auto
  next
    case False
    with less.prems(2) obtain n err w where "sm_pc s t = SDone n err w" by (cases "sm_pc s t") auto
    with relpowp_0_I [of "stream_step t" s] show ?thesis by blast
  qed
qed

lemma work_run: "streams_run s0 s \<Longrightarrow> work (sm_pc s t) \<le> work (sm_pc s0 t)"
proof (induction rule: streams_run.induct)
  case (step s s' u s'')
  with work_step [OF step.hyps(2)] show ?case by (cases "t = u") (auto dest: le_trans)
qed simp_all

subsection \<open>The streams of a server\<close>

text \<open>Before any stream takes a buffer; the buffers of the pool may hold anything.\<close>

definition streams_start :: "streams \<Rightarrow> bool" where
  "streams_start s \<longleftrightarrow>
     finite (dom (sm_heap s)) \<and> (\<forall>a buf. sm_heap s a = Some buf \<longrightarrow> length buf = copyBufSize) \<and>
     sm_pool s \<subseteq> dom (sm_heap s) \<and> (\<forall>t. sm_pc s t = SIdle \<or> (\<exists>rc w. sm_pc s t = SOpen rc w))"

lemma streams_start_pool_ok:
  assumes "streams_start s"
  shows "pool_ok s"
proof -
  have "owns (sm_pc s t) = None \<and> piece_fits (sm_pc s t)" for t
  proof -
    from assms have "sm_pc s t = SIdle \<or> (\<exists>rc w. sm_pc s t = SOpen rc w)" by (simp add: streams_start_def)
    then show ?thesis by auto
  qed
  with assms show ?thesis by (simp add: streams_start_def pool_ok_def)
qed

text \<open>C6: safety. Streams that share the buffer pool do not mix: under every interleaving of their reads
  and writes, whatever earlier streams left in the buffers and whatever the pool forgets, a stream that is
  done has sent what copying its source in one piece would have sent, with the same count and error; and
  from every state it can finish on its own, in at most two steps for each byte of its source and three
  more.\<close>

theorem pooled_streams_separate:
  assumes start: "streams_start s0" and run: "streams_run s0 s" and t: "sm_pc s0 t = SOpen rc w"
  shows "(\<forall>n err w'. sm_pc s t = SDone n err w' \<longrightarrow> (n, err, w') = CopyBuffer rc w) \<and>
    (\<exists>k s' n err w'. k \<le> 2 * length (rd_data rc) + 3 \<and> (stream_step t ^^ k) s s' \<and> sm_pc s' t = SDone n err w')"
proof
  from streams_run_ok [OF run streams_start_pool_ok [OF start]] t
  have ok: "pool_ok s" and o: "outcome (sm_heap s) (sm_pc s t) = Some (CopyBuffer rc w)" by simp_all
  then show "\<forall>n err w'. sm_pc s t = SDone n err w' \<longrightarrow> (n, err, w') = CopyBuffer rc w" by auto
  from o have "outcome (sm_heap s) (sm_pc s t) \<noteq> None" by simp
  from finishes_alone [OF ok this] obtain k s' n err w' where
    "k \<le> work (sm_pc s t)" "(stream_step t ^^ k) s s'" "sm_pc s' t = SDone n err w'" by blast
  moreover have "work (sm_pc s t) \<le> 2 * length (rd_data rc) + 3" using work_run [OF run, of t] t by simp
  ultimately show "\<exists>k s' n err w'. k \<le> 2 * length (rd_data rc) + 3 \<and> (stream_step t ^^ k) s s' \<and> sm_pc s' t = SDone n err w'"
    by (meson le_trans)
qed

text \<open>Two streams and a pool with one used buffer.\<close>

definition demo_streams :: streams where
  "demo_streams = \<lparr>sm_heap = [0 \<mapsto> replicate copyBufSize CHR ''x''], sm_pool = {0},
     sm_pc = (\<lambda>t. if t < 2 then SOpen (bytesReader (if t = 0 then ''<html>'' else ''about'')) (newResponse \<lparr>rq_Method = ''GET'', rq_Path = [], rq_Header = Map.empty\<rparr> None) else SIdle)\<rparr>"

lemma steps_run: "(stream_step t ^^ k) s0 s \<Longrightarrow> streams_run s0 s"
  by (induction k arbitrary: s) (auto intro: streams_run.intros)

lemma pooled_streams_separate_witness:
  "\<exists>s n err w. streams_run demo_streams s \<and> sm_pc s 1 = SDone n err w \<and> rs_Body w = ''about'' \<and> n = 5"
proof -
  let ?w = "newResponse \<lparr>rq_Method = ''GET'', rq_Path = [], rq_Header = Map.empty\<rparr> None"
  have st: "streams_start demo_streams" by (auto simp: streams_start_def demo_streams_def)
  have t: "sm_pc demo_streams 1 = SOpen (bytesReader ''about'') ?w" by (simp add: demo_streams_def)
  obtain k s n err w where "(stream_step 1 ^^ k) demo_streams s" and d: "sm_pc s 1 = SDone n err w"
    using pooled_streams_separate [OF st streams_run.none t] by blast
  then have run: "streams_run demo_streams s" by (blast intro: steps_run)
  have "(n, err, w) = CopyBuffer (bytesReader ''about'') ?w"
    using pooled_streams_separate [OF st run t] d by blast
  then have "rs_Body w = ''about''" "n = 5"
    by (simp_all add: CopyBuffer_def WriteBody_def bytesReader_def newResponse_def MethodHead_def)
  with run d show ?thesis by blast
qed

end
