(* ===== verification/Spec2Isabelle.thy ===== *)
theory Spec2Isabelle
  imports Resolve CacheHeader ContentType ReleaseManifest ReleaseCanonical ServerDates GatewayRun LoneRequest ConcurrentAccounting
  MetricsRace StreamCopy
begin

text \<open>
  A verification library for \<^verbatim>\<open>static-gateway\<close>, the in-cluster origin that serves immutable releases of
  static sites from object storage.

  \<^bold>\<open>The program.\<close> \<^verbatim>\<open>main.go\<close> reads the process environment, opens the bucket, wraps it with a blob cache,
  builds the handler, starts the metrics sweep and serves. A request
  \<^verbatim>\<open>/<project>/<name>/<release-sha>/<rest>\<close> is counted for its site, the release's manifest is fetched
  (cache, then storage through singleflight), the rest of the path is resolved to a document of the
  manifest, and the document's blob is streamed with its headers, or a 304, a not-found page or an error
  is answered.

  \<^bold>\<open>Go's library.\<close> \<open>GoStrings\<close> (package strings), \<open>GoPath\<close> (path.Clean, Join, Ext), \<open>GoStrconv\<close>
  (FormatInt, ParseInt), \<open>GoDuration\<close> (time.ParseDuration), \<open>GoTime\<close> (instants, RFC 3339 parsing, HTTP
  dates), \<open>GoHTTPTime\<close> (http.ParseTime, and that it reads back every HTTP date of a four-digit year), \<open>GoList\<close> (container/list with element identities and the index invariant the two caches share),
  \<open>GoJson\<close> (UTF-8, JSON strings and tokens), \<open>Sha256\<close> (the digest and its hexadecimal form),
  \<open>HTTP\<close> (headers, the response writer with a connection that may break, http.Error, io.CopyBuffer).
  Strings and bodies are lists of bytes. \<open>Prelude\<close> holds shared lemmas on lists, options and maps.

  \<^bold>\<open>Theories and code\<close> (under \<^verbatim>\<open>src/internal\<close> unless said otherwise).
  \<^item> \<open>Resolve\<close>: \<^verbatim>\<open>resolve/resolve.go\<close>. \<open>candidates\<close> is the reference: the documents a path may name, in order.
  \<^item> \<open>CacheHeader\<close>, \<open>ContentType\<close>: \<^verbatim>\<open>cacheheader/cacheheader.go\<close>, \<^verbatim>\<open>contenttype/contenttype.go\<close>.
  \<^item> \<open>ReleaseManifest\<close>: \<^verbatim>\<open>manifest/manifest.go\<close>. A Go map is an association list, its iteration order an
    argument (\<open>rng\<close>: which permutation the n-th loop of a function visits); the JSON decoder is an argument.
  \<^item> \<open>ReleaseCanonical\<close>: the same file's JSON form and digest, and a decoder that instantiates that argument.
  \<^item> \<open>LRU\<close>: the reference for both caches, a list of entries, and the locale \<open>lru_cache\<close> their clients
    rely on (a hit is coherent with any function the adds were coherent with). \<open>ManifestCache\<close>
    (\<^verbatim>\<open>server/cache.go\<close>) and \<open>BlobCache\<close> (\<^verbatim>\<open>blobstore/cache.go\<close>) interpret it.
  \<^item> \<open>BlobStore\<close>: \<^verbatim>\<open>blobstore/blobstore.go\<close>, \<^verbatim>\<open>fake.go\<close>, \<^verbatim>\<open>gcs.go\<close>. The interface \<^verbatim>\<open>Store\<close> is the locale
    \<open>object_store\<close> (what a read delivers is what is stored, whatever fails) and its extension
    \<open>reliable_store\<close> (nothing fails). The fake interprets it; the bucket-backed store keeps it over any
    bucket that keeps \<open>bucket_contract\<close>; the caching store keeps it over any store that does.
  \<^item> \<open>Metrics\<close>: \<^verbatim>\<open>metrics/metrics.go\<close>; Prometheus' vectors are an argument with \<open>counter_laws\<close>.
  \<^item> \<open>Server\<close>: \<^verbatim>\<open>server/server.go\<close>, one definition per function. \<open>world\<close> is the state, \<open>env\<close> what the code
    takes from elsewhere: the store, the clock, the decoder, iteration orders, http.ParseTime, singleflight.
  \<^item> \<open>ServerSpec\<close>: \<open>ideal\<close>, the specification of a response from the stored objects and the request alone, and
    the simulation. \<open>ServerProps\<close>, \<open>ServerClient\<close>, \<open>ServerDates\<close>: the handler's properties; the last with
    http.ParseTime instantiated by \<open>http_ParseTime\<close>.
  \<^item> \<open>Gateway\<close>: \<^verbatim>\<open>src/main.go\<close>, from the environment variables to the log and the exit code, the goroutine that
    serves the metrics beside it. \<open>GatewayRun\<close>: the assembled
    program as a step relation (requests, sweeps, the evictor's stop) and its invariants.
  \<^item> Concurrency. The theories above run each function as one step; these split it at the operations the
    code makes atomic, and interleave. \<open>Coalescing\<close>: \<^verbatim>\<open>loadManifest\<close> for any number of callers, its singleflight
    group an argument with \<open>flight_contract\<close>: truthful results, one read per burst, no waiting for ever, and
    agreement with \<open>loadManifest\<close> for a caller alone. \<open>CacheRace\<close>: \<^verbatim>\<open>CachingStore.Get\<close> of many goroutines.
    \<open>ConcurrentGateway\<close>: whole requests as threads over the steps of \<open>Coalescing\<close>, each read of the store one
    step. \<open>InterleavedGateway\<close>: the same with every read split into the steps of \<open>CacheRace\<close>: each request is
    answered, and the caches keep their bounds. \<open>InterleavedAnswers\<close>: a forward simulation of
    it by \<open>ConcurrentGateway\<close>, along which every answer is \<open>ideal\<close> or, over a failing store, authentic.
    \<open>LoneRequest\<close>: a request alone does there what \<open>handle\<close> does in one step. \<open>ConcurrentAccounting\<close>: what the
    counters of a site say after such a run, its counts and its sweeps being single steps.
    \<open>StreamCopy\<close>: the copy of a blob to its response, through the shared buffer pool, with \<^verbatim>\<open>io.CopyBuffer\<close> as
    its loop. \<open>MetricsRace\<close>: the metrics operations over a heap of atomic integers, racing with the sweep:
    what an active site keeps, that a site's series never outlive its record unless a count falls between a
    sweep's deletions, and what that schedule can cost a waking site.
  \<^item> This theory: what holds of the program as \<^verbatim>\<open>main\<close> assembles it, in every state it reaches, and under
    overlapping requests.

  \<^bold>\<open>Bounds and loops.\<close> No fuel is used. The eviction loop of the blob cache, which evicts nothing from an
  empty list and so could spin, is a \<^theory_text>\<open>partial_function\<close>, and that every read returns is proved from the
  cache invariant, under interleaving too; the other loops have measures. A request takes at most twenty
  steps of its own in \<open>InterleavedGateway\<close>, by a weight that each step of its thread lowers and no step of
  another raises; in \<open>ConcurrentGateway\<close> all requests together take at most ten for each.
  \<^verbatim>\<open>int64\<close> quantities that come from outside (budgets, durations) are range-checked where the code parses
  them; sizes of objects in memory are unbounded integers.

  \<^bold>\<open>Not modelled.\<close> The time zone table of the host, an argument of \<open>http_ParseTime\<close>; the texts of
  JSON and storage errors. In \<open>Server\<close>, \<open>GatewayRun\<close> and the theorems on single requests a request is one
  step that reads the clock once, and singleflight is used at its contract for a caller alone
  (\<open>do_runs\<close>). In \<open>ConcurrentGateway\<close> and \<open>InterleavedGateway\<close> what a request sends once its blob is open,
  \<^verbatim>\<open>ObserveRequest\<close>, \<^verbatim>\<open>AddResponseBytes\<close> and a whole sweep are still single steps, so no agreement of series
  and records is claimed of them; \<open>StreamCopy\<close> and \<open>MetricsRace\<close> split these, each for its own component.
  \<open>MetricsRace\<close> takes \<^verbatim>\<open>WithLabelValues(..).Inc()\<close> and \<^verbatim>\<open>.Add(..)\<close> as one operation of Prometheus' vector. Of the
  log, \<open>Gateway\<close> has the records of \<^verbatim>\<open>main.go\<close>, those of the metrics goroutine interleaved, and \<open>Server\<close> those of
  the handler; how these two mix is not modelled. Go's
  memory model is taken as sequentially consistent, as it is for the mutexes, \<^verbatim>\<open>sync.Map\<close> and atomic integers the code shares state through. Contexts, deadlines and the load timeout
  appear only as failures of the store. The listeners, the health check and the request logger are
  third-party code.
\<close>

section \<open>The whole gateway\<close>

subsection \<open>The assembled program\<close>

text \<open>The environment of a running gateway: its store operation is the wrapped bucket's, and the bucket
  that opens holds the objects \<open>stored\<close>.\<close>

definition wired :: "('b Store, 'v) env \<Rightarrow> ('b, 'e) bucket_ops \<Rightarrow> ('e \<Rightarrow> string \<Rightarrow> store_error) \<Rightarrow> bool" where
  "wired env bk mapE \<longleftrightarrow> e_Get env = store_Get (gcs_Get bk mapE) \<and> do_runs env"

definition opens :: "('cr, 'cl, 'b) gcs_env \<Rightarrow> ('b \<Rightarrow> bool) \<Rightarrow> ('b \<Rightarrow> string \<Rightarrow> bytes option) \<Rightarrow> (string \<Rightarrow> bytes option) \<Rightarrow> bool" where
  "opens genv iv objs stored \<longleftrightarrow>
     (\<forall>client n b. env_OpenBucket genv client n = Inr b \<longrightarrow> iv b \<and> objs b = stored)"

definition launched :: "('b, 'v) gateway \<Rightarrow> ('b Store, 'v) running" where
  "launched gw = (gw_world gw, gw_evictor gw)"

lemma wiredD: "wired env bk mapE \<Longrightarrow> e_Get env = store_Get (gcs_Get bk mapE)" "wired env bk mapE \<Longrightarrow> do_runs env"
  by (simp_all add: wired_def)

text \<open>What \<^verbatim>\<open>main\<close> launches is a good state over the stored objects.\<close>

lemma launched_ok:
  assumes st: "object_store iv objs g" and op: "opens genv iv objs stored"
    and gw: "main_setup os genv mt = (logs, Inr gw)"
  shows "world_ok (store_invar iv objs) (store_objs objs) env (fst (launched gw)) \<and>
    store_objs objs (w_store (fst (launched gw))) = stored \<and> w_metrics (fst (launched gw)) = mt"
proof -
  obtain st0 where b: "OpenGCS genv (os ''SITE_BUCKET'') = Inr st0" "gw = assembled os st0 mt"
    by (rule main_setup_gateway [OF gw])
  then have o: "iv st0" "objs st0 = stored"
    using OpenGCS_opens [OF b(1)] op by (auto simp: opens_def)
  let ?store = "NewCachingStore st0 (fst (getenvInt64 os ''BLOB_CACHE_BYTES'' defaultBlobCacheBytes))
    DefaultMaxCacheableBlobBytes"
  have s: "store_invar iv objs ?store" "store_objs objs ?store = stored"
    using NewCachingStore_invar [OF st o(1)] o(2) by blast+
  have w: "fst (launched gw) = configured_world os st0 mt"
    by (simp add: launched_def b(2) assembled_def)
  have "world_ok (store_invar iv objs) (store_objs objs) env (configured_world os st0 mt)"
    using New_ok(1) [where iv = "store_invar iv objs" and objs = "store_objs objs" and env = env and st = ?store,
        OF New_configured [of st0 os mt]] s(1) by simp
  with w s(2) show ?thesis by (simp add: configured_world_def)
qed

lemma running_ok:
  assumes st: "object_store iv objs (gcs_Get bk mapE)" and env: "wired env bk mapE" and op: "opens genv iv objs stored"
    and gw: "main_setup os genv mt = (logs, Inr gw)" and r: "reachable env (launched gw) (w, e)"
  shows "world_ok (store_invar iv objs) (store_objs objs) env w \<and> store_objs objs (w_store w) = stored"
  using object_store.reachable_ok [OF store_Get_object_store [OF st] r wiredD [OF env]]
    launched_ok [OF st op gw, of env] by simp

lemma running_answer:
  assumes st: "reliable_store iv objs (gcs_Get bk mapE)" and env: "wired env bk mapE" and op: "opens genv iv objs stored"
    and gw: "main_setup os genv mt = (logs, Inr gw)" and r: "reachable env (launched gw) (w, e)"
  shows "answer_of (fst (handle (at_time t env) room rq w)) = ideal env stored room rq"
proof -
  note ok = running_ok [OF reliable_store.axioms(1) [OF st] env op gw r]
  have "world_ok (store_invar iv objs) (store_objs objs) (at_time t env) w" using ok by simp
  from reliable_store.handle_answer [OF store_Get_reliable_store [OF st] this, of room rq] ok env
  show ?thesis by (simp add: wired_def)
qed

text \<open>The same of interleaved requests.\<close>

lemma interleaved_answer:
  assumes st: "reliable_store iv objs (gcs_Get bk mapE)" and op: "opens genv iv objs stored"
    and gw: "main_setup os genv mt = (logs, Inr gw)" and fl: "flight_contract ops ok leader waiting"
    and s0: "fine_start ok leader waiting s0" "sv_world (fn_server s0) = fst (launched gw)"
    and run: "fine_run (gcs_Get bk mapE) env ops n s0 s" "fn_phase s t = Answered rq room rw"
  shows "fn_phase s0 t = Incoming rq room \<and> answer_of rw = ideal env stored room rq"
proof -
  note os = reliable_store.axioms(1) [OF st]
  note ok = launched_ok [OF os op gw, of env, folded s0(2)]
  have iv: "store_invar iv objs (fn_store s0)" using ok by (simp add: world_ok_def)
  from object_store.fine_run_requests [OF os run(1) fl s0(1) iv run(2)]
    reliable_store.fine_run_answers [OF st run(1) fl s0(1) conjunct1 [OF ok] run(2)] ok
  show ?thesis by simp
qed

subsection \<open>A running gateway for the witnesses\<close>

definition plain_bucket :: "(string \<rightharpoonup> bytes, string) bucket_ops" where
  "plain_bucket =
     \<lparr>bk_NewReader = (\<lambda>k b. (case b k of None \<Rightarrow> Inl ''NotFound'' | Some d \<Rightarrow> Inr (bytesReader d), b)),
      bk_Attributes = (\<lambda>k b. (Inl ''Unimplemented'', b)), bk_Exists = (\<lambda>k b. (Inr (b k \<noteq> None), b))\<rparr>"

definition plain_mapErr :: "string \<Rightarrow> string \<Rightarrow> store_error" where
  "plain_mapErr = mapErr (\<lambda>e. e) ''NotFound'' (\<lambda>e. e)"

definition demo_gw_env :: "((string \<rightharpoonup> bytes) Store, siteKey \<rightharpoonup> int) env" where
  "demo_gw_env = \<lparr>e_Get = store_Get (gcs_Get plain_bucket plain_mapErr), e_counters = map_ops, e_now = epoch_plus 0,
     e_decode = demo_dec, e_rng = in_order, e_ParseTime = (\<lambda>_. None), e_Do = (\<lambda>k f. f)\<rparr>"

lemma plain_reliable: "reliable_store (\<lambda>_. True) (\<lambda>b. b) (gcs_Get plain_bucket plain_mapErr)"
  by unfold_locales
    (auto simp: gcs_Get_def plain_bucket_def plain_mapErr_def mapErr_def bytesReader_def delivers_def split: option.splits)

lemma demo_wired: "wired demo_gw_env plain_bucket plain_mapErr"
  by (simp add: wired_def demo_gw_env_def do_runs_def)

lemma demo_opens: "opens demo_genv (\<lambda>_. True) (\<lambda>b. b) (fake_objs demo_store)"
  by (simp add: opens_def demo_genv_def)

lemma demo_gw_ideal: "ideal demo_gw_env = ideal demo_env"
  by (intro ext) (simp add: ideal_def ideal_site_def released_def demo_gw_env_def demo_env_def
      split: option.split)

text \<open>Any requests to the launched gateway have a run that answers them.\<close>

lemma demo_gateway_runs:
  assumes "opens genv (\<lambda>_. True) (\<lambda>b. b) stored" "main_setup os genv mt = (logs, Inr gw)"
  obtains n s where
    "fine_run (gcs_Get plain_bucket plain_mapErr) env map_flight n (demo_fine_of ps (fst (launched gw))) s"
    "\<And>t. t < length ps \<Longrightarrow> \<exists>rw. fn_phase s t = Answered (GET (ps ! t)) None rw"
proof -
  note os = reliable_store.axioms(1) [OF plain_reliable]
  have "store_invar (\<lambda>_. True) (\<lambda>b. b) (w_store (fst (launched gw)))"
    using launched_ok [OF os assms, of env] by (simp add: world_ok_def)
  from demo_fine_runs [OF os this, of env ps] that show thesis by blast
qed

text \<open>A state reached by one request and one sweep.\<close>

definition demo_state :: "((string \<rightharpoonup> bytes) Store, siteKey \<rightharpoonup> int) running \<Rightarrow> ((string \<rightharpoonup> bytes) Store, siteKey \<rightharpoonup> int) running" where
  "demo_state s = (snd (handle (at_time (epoch_plus 1) demo_gw_env) None (GET ''/acme/docs/r1/'') (fst s)), snd s)"

lemma demo_reachable: "reachable demo_gw_env s (demo_state s)"
proof -
  obtain w e where s: "s = (w, e)" by (cases s)
  show ?thesis
    unfolding reachable_def demo_state_def s fst_conv snd_conv
    by (rule r_into_rtranclp, rule gw_step.serve)
qed

subsection \<open>Properties of the running gateway\<close>

text \<open>The program as assembled is stateless towards its clients: in every state the
  gateway \<^verbatim>\<open>main\<close> launches can reach, after any requests, sweeps and evictions and under any settings of
  its environment variables, over a bucket without failures, the answer to any request is the one the
  specification gives from the bucket's objects alone.\<close>

theorem running_gateway_answers:
  assumes st: "reliable_store iv objs (gcs_Get bk mapE)" and env: "wired env bk mapE" and op: "opens genv iv objs stored"
    and gw: "main_setup os genv mt = (logs, Inr gw)" and r: "reachable env (launched gw) (w, e)"
  shows "answer_of (fst (handle (at_time t env) room rq w)) = ideal env stored room rq"
  by (rule running_answer [OF st env op gw r])

lemma running_gateway_answers_witness:
  "\<exists>logs gw. main_setup demo_osenv demo_genv new_metrics = (logs, Inr gw) \<and>
     an_Body (answer_of (fst (handle (at_time (epoch_plus 9) demo_gw_env) None (GET ''/acme/docs/r1/'')
       (fst (demo_state (launched gw)))))) = ''<html>''"
proof -
  obtain logs gw where gw: "main_setup demo_osenv demo_genv new_metrics = (logs, Inr gw)"
    using demo_setup [of new_metrics] by blast
  have "reachable demo_gw_env (launched gw) (fst (demo_state (launched gw)), snd (demo_state (launched gw)))"
    using demo_reachable by simp
  from running_gateway_answers [OF plain_reliable demo_wired demo_opens gw this] gw show ?thesis
    by (simp add: demo_gw_ideal demo_ideal)
qed

text \<open>C2: refinement. The program under load: any requests, their loads and reads interleaving step by step in
  any way, with sweeps in between, sent to the gateway \<^verbatim>\<open>main\<close> launches over a bucket without failures, are
  each answered as the specification says from the bucket's objects and that request alone.\<close>

theorem interleaved_gateway_answers:
  assumes st: "reliable_store iv objs (gcs_Get bk mapE)" and op: "opens genv iv objs stored"
    and gw: "main_setup os genv mt = (logs, Inr gw)" and fl: "flight_contract ops ok leader waiting"
    and s0: "fine_start ok leader waiting s0" "sv_world (fn_server s0) = fst (launched gw)"
    and run: "fine_run (gcs_Get bk mapE) env ops n s0 s" "fn_phase s t = Answered rq room rw"
  shows "fn_phase s0 t = Incoming rq room \<and> answer_of rw = ideal env stored room rq"
  by (rule interleaved_answer [OF st op gw fl s0 run])

lemma interleaved_gateway_answers_witness:
  "\<exists>logs gw n s rw. main_setup demo_osenv demo_genv new_metrics = (logs, Inr gw) \<and>
     fine_run (gcs_Get plain_bucket plain_mapErr) demo_gw_env map_flight n
       (demo_fine_of [''/acme'', ''/acme/docs/r1/'', ''/acme/docs/r1/''] (fst (launched gw))) s \<and>
     fn_phase s 1 = Answered (GET ''/acme/docs/r1/'') None rw \<and> an_Body (answer_of rw) = ''<html>''"
proof -
  let ?ps = "[''/acme'', ''/acme/docs/r1/'', ''/acme/docs/r1/'']"
  obtain logs gw where gw: "main_setup demo_osenv demo_genv new_metrics = (logs, Inr gw)"
    using demo_setup [of new_metrics] by blast
  obtain n s where s: "fine_run (gcs_Get plain_bucket plain_mapErr) demo_gw_env map_flight n (demo_fine_of ?ps (fst (launched gw))) s"
      "\<And>t. t < length ?ps \<Longrightarrow> \<exists>rw. fn_phase s t = Answered (GET (?ps ! t)) None rw"
    by (rule demo_gateway_runs [OF demo_opens gw, of demo_gw_env ?ps]) blast
  from s(2) [of 1] obtain rw where rw: "fn_phase s 1 = Answered (GET ''/acme/docs/r1/'') None rw" by auto
  from interleaved_gateway_answers [OF plain_reliable demo_opens gw map_flight_contract
      demo_fine_facts(1,3) s(1) rw]
  have "an_Body (answer_of rw) = ''<html>''" by (simp add: demo_gw_ideal demo_ideal)
  with gw s(1) rw show ?thesis by blast
qed

text \<open>The same of the runs of \<open>ConcurrentGateway\<close>, whose requests read the store in one step each.\<close>

theorem overlapping_gateway_answers:
  assumes st: "reliable_store iv objs (gcs_Get bk mapE)" and env: "wired env bk mapE" and op: "opens genv iv objs stored"
    and gw: "main_setup os genv mt = (logs, Inr gw)" and fl: "flight_contract ops ok leader waiting"
    and s0: "server_start ok leader waiting s0" "sv_world s0 = fst (launched gw)"
    and run: "serves env ops n s0 s" "sv_phase s t = Answered rq room rw"
  shows "sv_phase s0 t = Incoming rq room \<and> answer_of rw = ideal env stored room rq"
proof -
  note ok = launched_ok [OF reliable_store.axioms(1) [OF st] op gw, of env, folded s0(2)]
  from reliable_store.serves_answers [OF store_Get_reliable_store [OF st] run(1) wiredD(1) [OF env] fl s0(1)
      conjunct1 [OF ok] run(2)] ok
  show ?thesis by simp
qed

lemma overlapping_gateway_answers_witness:
  "\<exists>logs gw n s rw. main_setup demo_osenv demo_genv new_metrics = (logs, Inr gw) \<and>
     serves demo_gw_env map_flight n (demo_server_of [''/acme'', ''/acme/docs/r1/'', ''/acme/docs/r1/''] (fst (launched gw))) s \<and>
     sv_phase s 1 = Answered (GET ''/acme/docs/r1/'') None rw \<and> an_Body (answer_of rw) = ''<html>''"
proof -
  let ?ps = "[''/acme'', ''/acme/docs/r1/'', ''/acme/docs/r1/'']"
  obtain logs gw where gw: "main_setup demo_osenv demo_genv new_metrics = (logs, Inr gw)"
    using demo_setup [of new_metrics] by blast
  obtain n s where s: "serves demo_gw_env map_flight n (demo_server_of ?ps (fst (launched gw))) s"
      "\<And>t. t < length ?ps \<Longrightarrow> \<exists>rw. sv_phase s t = Answered (GET (?ps ! t)) None rw"
    by (rule demo_server_serves [of demo_gw_env ?ps "fst (launched gw)"]) blast
  from s(2) [of 1] obtain rw where rw: "sv_phase s 1 = Answered (GET ''/acme/docs/r1/'') None rw" by auto
  from overlapping_gateway_answers [OF plain_reliable demo_wired demo_opens gw map_flight_contract
      demo_server_facts(1,3) s(1) rw]
  have "an_Body (answer_of rw) = ''<html>''" by (simp add: demo_gw_ideal demo_ideal)
  with gw s(1) rw show ?thesis by blast
qed

subsection \<open>A deployed release under load\<close>

lemma sha_segment:
  assumes "ReleaseSHA rng m = Inr sha"
  shows "sha \<noteq> []" "slash \<notin> set sha"
proof -
  from assms obtain b where "sha = EncodeToString (Sum256 b)"
    by (auto simp: ReleaseSHA_def split: sum.splits)
  with digest_hex [of b] have "length sha = 64" "list_all lower_hex sha" by simp_all
  moreover have "\<not> lower_hex slash" by code_simp
  ultimately show "sha \<noteq> []" "slash \<notin> set sha" by (auto simp: list_all_iff)
qed

text \<open>C1: functional. From the publisher to the client through the whole program: a release written by
  \<^verbatim>\<open>Canonical\<close> and stored under its digest, with the blob of one of its files, is served by the gateway
  \<^verbatim>\<open>main\<close> launches: whatever other requests overlap, whatever is cached, swept or evicted, a plain GET of
  the file at the release's URL is answered 200 with exactly the published bytes, length and validator.\<close>

theorem deployed_release_is_served:
  assumes st: "reliable_store iv objs (gcs_Get bk mapE)" and op: "opens genv iv objs stored"
    and gw: "main_setup os genv mt = (logs, Inr gw)" and fl: "flight_contract ops ok leader waiting"
    and s0: "fine_start ok leader waiting s0" "sv_world (fn_server s0) = fst (launched gw)"
    and run: "fine_run (gcs_Get bk mapE) env ops n s0 s" "fn_phase s t = Answered rq room rw"
    and dec: "e_decode env = decode" and rng: "go_range (e_rng env)" "go_range rng"
    and rel: "distinct (map fst (gomap_entries (Files m)))"
      "list_all (\<lambda>e. canonical (fst e) \<and> Blob (snd e) \<noteq> []) (gomap_entries (Files m))"
    and pub: "Canonical rng m = Inr b" "ReleaseSHA rng m = Inr sha"
    and site: "project \<noteq> []" "name \<noteq> []" "slash \<notin> set project" "slash \<notin> set name"
    and held: "stored (ManifestKey project name sha) = Some b" "(path, f) \<in> set (gomap_entries (Files m))"
      "stored (BlobKey project name (Blob f)) = Some body"
    and req: "rq_Method rq = MethodGet" "rq_Header rq = Map.empty"
      "rq_Path rq = ''/'' @ project @ ''/'' @ name @ ''/'' @ sha @ ''/'' @ path"
  shows "an_Status (answer_of rw) = 200 \<and> an_Body (answer_of rw) = received room body \<and>
    an_Header (answer_of rw) ''Content-Length'' = Some (FormatInt (int (length body))) \<and>
    an_Header (answer_of rw) ''ETag'' = Some (ETag (Blob f))"
proof -
  have a: "answer_of rw = ideal env stored room rq"
    using interleaved_answer [OF st op gw fl s0 run] ..
  let ?fs = "sorted_entries rng (Files m)"
  note set = sorted_entries_set [OF rng(2) rel(1)]
  have d: "e_decode env b = Inr (canonical_content rng m)" "Files (canonical_content rng m) = Some ?fs"
    using Canonical_decodes [OF rng(2) rel(1) pub(1)] dec by (simp_all add: canonical_content_def)
  have c: "canonical q" "TrimLeft q slash = q" "Blob g \<noteq> []" if "(q, g) \<in> set ?fs" for q g
  proof -
    show cq: "canonical q" "Blob g \<noteq> []" using rel(2) set that by (auto simp: list_all_iff)
    then have "\<not> HasPrefix q [slash]"
      using canonical_first_last(1) [of q] by (cases q) (auto simp: canonical_def HasPrefix_def)
    then show "TrimLeft q slash = q" by (rule TrimLeft_id)
  qed
  have f: "(path, f) \<in> set ?fs" using held(2) set by simp
  have u: "\<forall>e \<in> set ?fs. TrimLeft (fst e) slash = path \<longrightarrow> e = (path, f)"
  proof (intro ballI impI)
    fix e assume e: "e \<in> set ?fs" "TrimLeft (fst e) slash = path"
    obtain q g where qg: "e = (q, g)" by (rule prod.exhaust)
    with e c(2) [of q g] have "q = path" by simp
    with e(1) qg eq_key_imp_eq_value [OF sorted_entries_distinct [OF rng(2) rel(1)] f, of g] show "e = (path, f)"
      by simp
  qed
  have blobs: "\<forall>e \<in> set ?fs. Blob (snd e) \<noteq> []"
    using c(3) by (metis prod.collapse)
  have "json_decoder (e_decode env)" using decode_json_decoder dec by simp
  from ideal_published [OF rng(1) this site(1,2) sha_segment(1) [OF pub(2)] site(3,4) sha_segment(2) [OF pub(2)]
      held(1) d(1,2) blobs f c(2) [OF f] c(1) [OF f] u held(3) req, of room]
  obtain m' where "answer_of rw = \<lparr>an_Status = 200,
      an_Header = (blob_header m' f)(''Content-Length'' \<mapsto> FormatInt (int (length body))), an_Body = received room body\<rparr>"
    unfolding a by blast
  then show ?thesis by (simp add: blob_header_def)
qed

lemma demo_deployable:
  "list_all (\<lambda>e. canonical (fst e) \<and> Blob (snd e) \<noteq> []) (gomap_entries (Files demo_release))"
  "(''index.html'', demo_file ''b1'') \<in> set (gomap_entries (Files demo_release))"
proof -
  have "canonical ''index.html''" "canonical ''404.html''" "canonical [CHR 0xC3, CHR 0xA9, dquote]" by code_simp+
  then show "list_all (\<lambda>e. canonical (fst e) \<and> Blob (snd e) \<noteq> []) (gomap_entries (Files demo_release))"
    by (simp add: demo_release_def gomap_entries_def demo_file_def)
  show "(''index.html'', demo_file ''b1'') \<in> set (gomap_entries (Files demo_release))"
    by (simp add: demo_release_def gomap_entries_def)
qed

lemma sha_norm_seg: "ReleaseSHA rng m = Inr sha \<Longrightarrow> norm_seg sha"
proof -
  assume sha: "ReleaseSHA rng m = Inr sha"
  then obtain b where "sha = EncodeToString (Sum256 b)"
    by (auto simp: ReleaseSHA_def split: sum.splits)
  with digest_hex [of b] have "length sha = 64" by simp
  with sha_segment [OF sha] show "norm_seg sha" by (auto simp: norm_seg_def dots_def)
qed

lemma deployed_release_is_served_witness:
  "\<exists>sha logs gw n s rw.
     ReleaseSHA in_order demo_release = Inr sha \<and>
     fine_run (gcs_Get plain_bucket plain_mapErr) (demo_gw_env\<lparr>e_decode := decode\<rparr>) map_flight n
       (demo_fine_of [''/acme/docs/'' @ sha @ ''/index.html'', ''/acme/docs/'' @ sha @ ''/''] (fst (launched gw))) s \<and>
     main_setup demo_osenv (demo_genv\<lparr>env_OpenBucket := (\<lambda>_ _. Inr
       [ManifestKey ''acme'' ''docs'' sha \<mapsto> projr (Canonical in_order demo_release), BlobKey ''acme'' ''docs'' ''b1'' \<mapsto> ''<html>''])\<rparr>)
       new_metrics = (logs, Inr gw) \<and>
     fn_phase s 0 = Answered (GET (''/acme/docs/'' @ sha @ ''/index.html'')) None rw \<and>
     an_Body (answer_of rw) = ''<html>''"
proof -
  obtain b where b: "Canonical in_order demo_release = Inr b"
    using Canonical_success [OF go_range_orders(1) demo_release_ok(1)] demo_release_ok(2) by blast
  then obtain sha where sha: "ReleaseSHA in_order demo_release = Inr sha" by (simp add: ReleaseSHA_def)
  let ?held = "[ManifestKey ''acme'' ''docs'' sha \<mapsto> b, BlobKey ''acme'' ''docs'' ''b1'' \<mapsto> ''<html>'']"
  let ?env = "demo_gw_env\<lparr>e_decode := decode\<rparr>"
  let ?genv = "demo_genv\<lparr>env_OpenBucket := (\<lambda>_ _. Inr ?held)\<rparr>"
  let ?ps = "[''/acme/docs/'' @ sha @ ''/index.html'', ''/acme/docs/'' @ sha @ ''/'']"
  obtain logs gw where gw: "main_setup demo_osenv ?genv new_metrics = (logs, Inr gw)"
    using demo_setup_bucket [of ?held new_metrics] by blast
  have op: "opens ?genv (\<lambda>_. True) (\<lambda>b. b) ?held" by (simp add: opens_def)
  obtain n s where s: "fine_run (gcs_Get plain_bucket plain_mapErr) ?env map_flight n (demo_fine_of ?ps (fst (launched gw))) s"
      "\<And>t. t < length ?ps \<Longrightarrow> \<exists>rw. fn_phase s t = Answered (GET (?ps ! t)) None rw"
    by (rule demo_gateway_runs [OF op gw, of ?env ?ps]) blast
  from s(2) [of 0] obtain rw where rw: "fn_phase s 0 = Answered (GET (''/acme/docs/'' @ sha @ ''/index.html'')) None rw" by auto
  have "norm_seg ''acme''" "norm_seg ''docs''" "norm_seg ''b1''" by (simp_all add: norm_seg_def dots_def)
  then have "ManifestKey ''acme'' ''docs'' sha \<noteq> BlobKey ''acme'' ''docs'' ''b1''"
    using keys_layout [of "''acme''" "''docs''" sha] keys_layout [of "''acme''" "''docs''" "''b1''"] sha_norm_seg [OF sha] by simp
  then have h: "?held (ManifestKey ''acme'' ''docs'' sha) = Some b"
    "?held (BlobKey ''acme'' ''docs'' (Blob (demo_file ''b1''))) = Some ''<html>''"
    by (simp_all add: demo_file_def)
  have "e_decode ?env = decode" "go_range (e_rng ?env)" using go_range_orders(1) by (simp_all add: demo_gw_env_def)
  from deployed_release_is_served [OF plain_reliable op gw map_flight_contract demo_fine_facts(1,3) s(1) rw
      this go_range_orders(1) demo_release_ok(1) demo_deployable(1) b sha _ _ _ _ h(1) demo_deployable(2) h(2)]
  have "an_Body (answer_of rw) = ''<html>''" by (simp add: GET_def MethodGet_def)
  moreover have "projr (Canonical in_order demo_release) = b" using b by simp
  ultimately show ?thesis using sha s(1) gw rw by blast
qed

text \<open>C10: safety. Content integrity of the running program over any bucket that keeps its contract, with
  failing reads, failing connections and whatever is cached, in every interleaving of the requests' loads,
  reads and evictions: a body sent with status 200 is an initial part of the blob stored for a document that
  the release stored at the request's own key has for the path requested. Nothing else is ever sent as a 200.\<close>

theorem interleaved_gateway_integrity:
  assumes bk: "bucket_contract iv objs bk code nf" and op: "opens genv iv objs stored"
    and gw: "main_setup os genv mt = (logs, Inr gw)" and fl: "flight_contract ops ok leader waiting"
    and s0: "fine_start ok leader waiting s0" "sv_world (fn_server s0) = fst (launched gw)"
    and run: "fine_run (gcs_Get bk (mapErr code nf txt)) env ops n s0 s" "fn_phase s t = Answered rq room rw"
    and ok200: "an_Status (answer_of rw) = 200"
  shows "rs_Body rw = [] \<or>
    (\<exists>s m p data. parseSite (rq_Path rq) = Some s \<and> released env stored (site_key s) = Some m \<and>
       snd (Lookup m p) \<and> (p = indexHTML \<or> p \<in> set (candidates (s_rest s))) \<and>
       stored (BlobKey (s_project s) (s_name s) (Blob (fst (Lookup m p)))) = Some data \<and>
       prefix (rs_Body rw) data)"
proof -
  have st: "object_store iv objs (gcs_Get bk (mapErr code nf txt))"
    by (rule gcs_object_store [OF bk])
  note ok = launched_ok [OF st op gw, of env, folded s0(2)]
  have "authentic env stored rq rw"
    using object_store.fine_run_authentic [OF st run(1) fl s0(1) conjunct1 [OF ok] run(2)] ok by simp
  with ok200 show ?thesis by (simp add: authentic_def)
qed

lemma plain_contract: "bucket_contract (\<lambda>_. True) (\<lambda>b. b) plain_bucket (\<lambda>e. e) ''NotFound''"
  by (auto simp: bucket_contract_def plain_bucket_def delivers_bytesReader split: option.split)

lemma interleaved_gateway_integrity_witness:
  "\<exists>logs gw n s rw. main_setup demo_osenv demo_genv new_metrics = (logs, Inr gw) \<and>
     fine_run (gcs_Get plain_bucket plain_mapErr) demo_gw_env map_flight n
       (demo_fine_of [''/acme/docs/r1/'', ''/acme/docs/r1/''] (fst (launched gw))) s \<and>
     fn_phase s 1 = Answered (GET ''/acme/docs/r1/'') None rw \<and> rs_Body rw = ''<html>'' \<and>
     (\<exists>s m p data. released demo_gw_env (fake_objs demo_store) (site_key s) = Some m \<and>
       fake_objs demo_store (BlobKey (s_project s) (s_name s) (Blob (fst (Lookup m p)))) = Some data \<and>
       prefix ''<html>'' data)"
proof -
  let ?ps = "[''/acme/docs/r1/'', ''/acme/docs/r1/'']"
  obtain logs gw where gw: "main_setup demo_osenv demo_genv new_metrics = (logs, Inr gw)"
    using demo_setup [of new_metrics] by blast
  obtain n s where s: "fine_run (gcs_Get plain_bucket plain_mapErr) demo_gw_env map_flight n (demo_fine_of ?ps (fst (launched gw))) s"
      "\<And>t. t < length ?ps \<Longrightarrow> \<exists>rw. fn_phase s t = Answered (GET (?ps ! t)) None rw"
    by (rule demo_gateway_runs [OF demo_opens gw, of demo_gw_env ?ps]) blast
  from s(2) [of 1] obtain rw where rw: "fn_phase s 1 = Answered (GET ''/acme/docs/r1/'') None rw" by auto
  from interleaved_answer [OF plain_reliable demo_opens gw map_flight_contract demo_fine_facts(1,3) s(1) rw]
  have "answer_of rw = ideal demo_env (fake_objs demo_store) None (GET ''/acme/docs/r1/'')" by (simp add: demo_gw_ideal)
  then have a: "an_Status (answer_of rw) = 200" "rs_Body rw = ''<html>''"
    by (simp_all add: demo_ideal answer_of_def)
  from interleaved_gateway_integrity [OF plain_contract demo_opens gw map_flight_contract demo_fine_facts(1,3)
      s(1) [unfolded plain_mapErr_def] rw a(1)] a(2)
  have "\<exists>s m p data. released demo_gw_env (fake_objs demo_store) (site_key s) = Some m \<and>
       fake_objs demo_store (BlobKey (s_project s) (s_name s) (Blob (fst (Lookup m p)))) = Some data \<and>
       prefix ''<html>'' data" by auto
  with gw s(1) rw a(2) show ?thesis by blast
qed

text \<open>The same in the states \<open>GatewayRun\<close> reaches, whose requests are single steps.\<close>

theorem running_gateway_integrity:
  assumes bk: "bucket_contract iv objs bk code nf" and env: "wired env bk (mapErr code nf txt)"
    and op: "opens genv iv objs stored"
    and gw: "main_setup os genv mt = (logs, Inr gw)" and r: "reachable env (launched gw) (w, e)"
    and h: "handle (at_time t env) room rq w = (rw, w')" and ok200: "rs_Status rw = Some 200"
  shows "rs_Body rw = [] \<or>
    (\<exists>s m p data. parseSite (rq_Path rq) = Some s \<and> released env stored (site_key s) = Some m \<and>
       snd (Lookup m p) \<and> (p = indexHTML \<or> p \<in> set (candidates (s_rest s))) \<and>
       stored (BlobKey (s_project s) (s_name s) (Blob (fst (Lookup m p)))) = Some data \<and>
       prefix (rs_Body rw) data)"
proof -
  have st: "object_store iv objs (gcs_Get bk (mapErr code nf txt))"
    by (rule gcs_object_store [OF bk])
  note ok = running_ok [OF st env op gw r]
  have a: "object_store (store_invar iv objs) (store_objs objs) (e_Get (at_time t env))"
    using store_Get_object_store [OF st] env by (simp add: wired_def)
  have "do_runs (at_time t env)" using env by (simp add: wired_def)
  moreover have "world_ok (store_invar iv objs) (store_objs objs) (at_time t env) w" using ok by simp
  ultimately show ?thesis
    using served_body [OF a _ _ h ok200] ok by simp
qed

lemma demo_running_200:
  assumes "main_setup demo_osenv demo_genv new_metrics = (logs, Inr gw)"
    and "handle (at_time t demo_gw_env) None (GET ''/acme/docs/r1/'') (fst (demo_state (launched gw))) = (rw, w')"
  shows "rs_Status rw = Some 200" "rs_Body rw = ''<html>''"
proof -
  have r: "reachable demo_gw_env (launched gw) (fst (demo_state (launched gw)), snd (demo_state (launched gw)))"
    using demo_reachable by simp
  have "answer_of rw = ideal demo_env (fake_objs demo_store) None (GET ''/acme/docs/r1/'')"
    using running_answer [OF plain_reliable demo_wired demo_opens assms(1) r, of t None "GET ''/acme/docs/r1/''"] assms(2)
    by (simp add: demo_gw_ideal)
  then have "(case rs_Status rw of Some c \<Rightarrow> c | None \<Rightarrow> 200) = 200 \<and> rs_Body rw = ''<html>''"
    by (simp add: demo_ideal answer_of_def split: option.splits)
  moreover have "rs_Status rw \<noteq> None"
    using handle_status [of "at_time t demo_gw_env" None "GET ''/acme/docs/r1/''" "fst (demo_state (launched gw))"] assms(2)
    by auto
  ultimately show "rs_Status rw = Some 200" "rs_Body rw = ''<html>''" by auto
qed

lemma running_gateway_integrity_witness:
  "\<exists>logs gw rw w'. main_setup demo_osenv demo_genv new_metrics = (logs, Inr gw) \<and>
     handle (at_time (epoch_plus 9) demo_gw_env) None (GET ''/acme/docs/r1/'') (fst (demo_state (launched gw))) = (rw, w') \<and>
     rs_Body rw = ''<html>'' \<and>
     (\<exists>s m p data. released demo_gw_env (fake_objs demo_store) (site_key s) = Some m \<and>
       fake_objs demo_store (BlobKey (s_project s) (s_name s) (Blob (fst (Lookup m p)))) = Some data \<and>
       prefix ''<html>'' data)"
proof -
  obtain logs gw where gw: "main_setup demo_osenv demo_genv new_metrics = (logs, Inr gw)"
    using demo_setup [of new_metrics] by blast
  obtain rw w' where h: "handle (at_time (epoch_plus 9) demo_gw_env) None (GET ''/acme/docs/r1/'')
      (fst (demo_state (launched gw))) = (rw, w')"
    by (cases "handle (at_time (epoch_plus 9) demo_gw_env) None (GET ''/acme/docs/r1/'') (fst (demo_state (launched gw)))")
  note ok = demo_running_200 [OF gw h]
  have r: "reachable demo_gw_env (launched gw) (fst (demo_state (launched gw)), snd (demo_state (launched gw)))"
    using demo_reachable by simp
  have "wired demo_gw_env plain_bucket (mapErr (\<lambda>e. e) ''NotFound'' (\<lambda>e. e))"
    using demo_wired by (simp add: plain_mapErr_def)
  from running_gateway_integrity [OF plain_contract this demo_opens gw r h ok(1)] ok(2)
  have "\<exists>s m p data. released demo_gw_env (fake_objs demo_store) (site_key s) = Some m \<and>
       fake_objs demo_store (BlobKey (s_project s) (s_name s) (Blob (fst (Lookup m p)))) = Some data \<and>
       prefix ''<html>'' data" by auto
  with gw h ok(2) show ?thesis by blast
qed

subsection \<open>Memory\<close>

definition blob_budget :: "osenv \<Rightarrow> int" where
  "blob_budget os = fst (getenvInt64 os ''BLOB_CACHE_BYTES'' defaultBlobCacheBytes)"

definition manifest_budget :: "osenv \<Rightarrow> int" where
  "manifest_budget os = fst (getenvInt64 os ''MANIFEST_CACHE_BYTES'' defaultManifestCacheBytes)"

definition blob_bytes_held :: "'b Store \<Rightarrow> int" where
  "blob_bytes_held st = (case st of
     Unwrapped _ \<Rightarrow> 0
   | Caching c \<Rightarrow> (\<Sum>e\<leftarrow>bc_entries (cs_cache c). int (length (be_data e))))"

definition manifest_bytes_held :: "manifestCache \<Rightarrow> int" where
  "manifest_bytes_held c = (\<Sum>e\<leftarrow>mc_entries c. ApproxSize (ce_m e))"

lemma budgets_nonneg: "0 \<le> blob_budget os" "0 \<le> manifest_budget os"
  by (simp_all add: blob_budget_def manifest_budget_def getenvInt64_nonneg defaultBlobCacheBytes_def
      defaultManifestCacheBytes_def)

text \<open>The store keeps its budget, the manifest cache its two bounds.\<close>

definition store_within :: "('b \<Rightarrow> bool) \<Rightarrow> ('b \<Rightarrow> string \<Rightarrow> bytes option) \<Rightarrow> int \<Rightarrow> 'b Store \<Rightarrow> bool" where
  "store_within iv objs budget st \<longleftrightarrow> store_invar iv objs st \<and>
     (case st of Unwrapped _ \<Rightarrow> True | Caching c \<Rightarrow> bc_bytesCap (cs_cache c) = budget)"

definition cache_within :: "int \<Rightarrow> int \<Rightarrow> manifestCache \<Rightarrow> bool" where
  "cache_within cap budget c \<longleftrightarrow> mc_invar c \<and> mc_cap c = cap \<and> mc_bytesCap c = budget"

lemma store_within_cap:
  "store_within iv objs budget st \<longleftrightarrow> store_invar iv objs st \<and> store_cap st \<in> {None, Some budget}"
  by (cases st) (simp_all add: store_within_def)

lemma store_within_held: "0 \<le> budget \<Longrightarrow> store_within iv objs budget s \<Longrightarrow> blob_bytes_held s \<le> budget"
  by (cases s) (auto simp: store_within_def blob_bytes_held_def cs_invar_def bc_invar_def bc_wf_def sum_be_size)

lemma cache_within_ops:
  assumes "cache_within cap budget c"
  shows "cache_within cap budget (snd (mc_get k c)) \<and> cache_within cap budget (mc_add k m c)"
  using assms mc_get_spec [OF mc_invar_wf, of c k] mc_add_spec [OF mc_invar_wf, of c k m] mc_get_invar [of c k]
  by (simp add: cache_within_def)

lemma cache_within_held:
  assumes "cache_within cap budget c"
  shows "int (mc_len c) \<le> max 1 cap \<and> (mc_len c \<le> 1 \<or> budget \<le> 0 \<or> manifest_bytes_held c \<le> budget)"
proof -
  have inv: "mc_invar c" and caps: "mc_cap c = cap" "mc_bytesCap c = budget"
    using assms by (simp_all add: cache_within_def)
  have "map ce_size (mc_entries c) = map (\<lambda>e. ApproxSize (ce_m e)) (mc_entries c)"
    using inv by (auto simp: mc_invar_def mc_wf_def list_all_iff)
  then have "sum_list (map ce_size (mc_entries c)) = manifest_bytes_held c"
    by (simp only: manifest_bytes_held_def)
  moreover have "mc_len c = length (mc_entries c)"
    by (simp add: mc_len_def mc_entries_def length_entries)
  ultimately show ?thesis
    using inv by (auto simp: mc_invar_def over_budget_def caps)
qed

lemma launched_within:
  assumes st: "object_store iv objs g" and op: "opens genv iv objs stored"
    and gw: "main_setup os genv mt = (logs, Inr gw)"
  shows "store_within iv objs (blob_budget os) (w_store (fst (launched gw))) \<and>
    cache_within DefaultManifestCacheCap (manifest_budget os) (w_cache (fst (launched gw)))"
proof -
  obtain st0 where b: "OpenGCS genv (os ''SITE_BUCKET'') = Inr st0" "gw = assembled os st0 mt"
    by (rule main_setup_gateway [OF gw])
  then have w: "fst (launched gw) = configured_world os st0 mt" by (simp add: launched_def assembled_def)
  have "store_invar iv objs (w_store (fst (launched gw)))"
    using launched_ok [OF st op gw, of undefined] by (unfold world_ok_def, elim conjE)
  moreover have "case w_store (fst (launched gw)) of Unwrapped _ \<Rightarrow> True
      | Caching c \<Rightarrow> bc_bytesCap (cs_cache c) = blob_budget os"
    by (simp add: w configured_world_def NewCachingStore_def newBlobCache_def blob_budget_def)
  moreover have "cache_within DefaultManifestCacheCap (manifest_budget os) (w_cache (fst (launched gw)))"
    using newManifestCache_invar budgets_nonneg(2) [of os]
    by (simp add: w configured_world_def cache_within_def newManifestCache_caps DefaultManifestCacheCap_def
        manifest_budget_def)
  ultimately show ?thesis by (simp add: store_within_def)
qed

text \<open>C11: bounds. Memory of the running program: over any bucket that keeps its contract, in every state of
  every interleaving, the blob bodies cached stay within \<^verbatim>\<open>BLOB_CACHE_BYTES\<close>, and at most 1024 manifests are
  held, together within \<^verbatim>\<open>MANIFEST_CACHE_BYTES\<close> when that is positive, unless a single one exceeds it.\<close>

theorem interleaved_gateway_bounded:
  assumes bk: "bucket_contract iv objs bk code nf" and op: "opens genv iv objs stored"
    and gw: "main_setup os genv mt = (logs, Inr gw)" and fl: "flight_contract ops ok leader waiting"
    and s0: "fine_start ok leader waiting s0" "sv_world (fn_server s0) = fst (launched gw)"
    and run: "fine_run (gcs_Get bk (mapErr code nf txt)) env ops n s0 s" and w: "w = sv_world (fn_server s)"
  shows "blob_bytes_held (w_store w) \<le> blob_budget os \<and> int (mc_len (w_cache w)) \<le> 1024 \<and>
    (mc_len (w_cache w) \<le> 1 \<or> manifest_budget os \<le> 0 \<or> manifest_bytes_held (w_cache w) \<le> manifest_budget os)"
proof -
  have st: "object_store iv objs (gcs_Get bk (mapErr code nf txt))" by (rule gcs_object_store [OF bk])
  note l = launched_within [OF st op gw, folded s0(2)]
  let ?Q = "cache_within DefaultManifestCacheCap (manifest_budget os)"
  have "?Q (w_cache w)"
    unfolding w by (rule fine_run_cache [where Q = ?Q, OF run]) (use cache_within_ops l in simp_all)
  moreover have "store_within iv objs (blob_budget os) (w_store w)"
    using object_store.fine_run_budget [OF st run fl s0(1)] l unfolding w store_within_cap by simp
  ultimately show ?thesis
    using store_within_held [OF budgets_nonneg(1)] cache_within_held by (fastforce simp: DefaultManifestCacheCap_def)
qed

lemma interleaved_gateway_bounded_witness:
  "\<exists>logs gw n s rw. main_setup demo_osenv demo_genv new_metrics = (logs, Inr gw) \<and>
     fine_run (gcs_Get plain_bucket plain_mapErr) demo_gw_env map_flight n
       (demo_fine_of [''/acme/docs/r1/'', ''/acme/docs/r1/about''] (fst (launched gw))) s \<and>
     fn_phase s 0 = Answered (GET ''/acme/docs/r1/'') None rw \<and>
     blob_bytes_held (fn_store s) \<le> defaultBlobCacheBytes"
proof -
  let ?ps = "[''/acme/docs/r1/'', ''/acme/docs/r1/about'']"
  obtain logs gw where gw: "main_setup demo_osenv demo_genv new_metrics = (logs, Inr gw)"
    using demo_setup [of new_metrics] by blast
  obtain n s where s: "fine_run (gcs_Get plain_bucket plain_mapErr) demo_gw_env map_flight n (demo_fine_of ?ps (fst (launched gw))) s"
      "\<And>t. t < length ?ps \<Longrightarrow> \<exists>rw. fn_phase s t = Answered (GET (?ps ! t)) None rw"
    by (rule demo_gateway_runs [OF demo_opens gw, of demo_gw_env ?ps]) blast
  have "blob_budget demo_osenv = defaultBlobCacheBytes"
    by (simp add: blob_budget_def getenvInt64_def demo_osenv_def)
  with interleaved_gateway_bounded [OF plain_contract demo_opens gw map_flight_contract demo_fine_facts(1,3)
      s(1) [unfolded plain_mapErr_def] refl]
  have "blob_bytes_held (fn_store s) \<le> defaultBlobCacheBytes" by simp
  with gw s(1) s(2) [of 0] show ?thesis by auto
qed

subsection \<open>Memory and cardinality when requests do not overlap\<close>

lemma store_within_get:
  assumes st: "object_store iv objs g" and w: "store_within iv objs budget s"
  shows "store_within iv objs budget (snd (store_Get g k s))"
proof (cases s)
  case (Unwrapped b)
  with object_store.get_invar [OF st, of b k] w show ?thesis
    by (simp add: store_within_def store_Get_def case_prod_beta)
next
  case (Caching c)
  with w have c: "cs_invar iv objs c" "bc_bytesCap (cs_cache c) = budget" by (simp_all add: store_within_def)
  obtain res c' where "CachingStore_Get g k c = Some (res, c')" "cs_invar iv objs c'"
    "bc_bytesCap (cs_cache c') = bc_bytesCap (cs_cache c)"
    using object_store.caching_Get_cases [OF st c(1), of k] by metis
  with Caching c show ?thesis by (simp add: store_within_def cs_Get_def)
qed

text \<open>The bounds in the states \<open>GatewayRun\<close> reaches, whose requests are single steps.\<close>

theorem running_gateway_bounded:
  assumes bk: "bucket_contract iv objs bk code nf" and env: "wired env bk (mapErr code nf txt)"
    and op: "opens genv iv objs stored"
    and gw: "main_setup os genv mt = (logs, Inr gw)" and r: "reachable env (launched gw) (w, e)"
  shows "blob_bytes_held (w_store w) \<le> blob_budget os \<and> int (mc_len (w_cache w)) \<le> 1024 \<and>
    (mc_len (w_cache w) \<le> 1 \<or> manifest_budget os \<le> 0 \<or> manifest_bytes_held (w_cache w) \<le> manifest_budget os)"
proof -
  have st: "object_store iv objs (gcs_Get bk (mapErr code nf txt))" by (rule gcs_object_store [OF bk])
  let ?P = "store_within iv objs (blob_budget os)"
  let ?Q = "cache_within DefaultManifestCacheCap (manifest_budget os)"
  have "?P (w_store (fst (w, e))) \<and> ?Q (w_cache (fst (w, e)))"
  proof (rule reachable_keeps [where P = ?P and Q = ?Q, OF r])
    show "?P (snd (e_Get env k s))" if "?P s" for k s
      using store_within_get [OF st that] env by (simp add: wired_def)
  qed (use env cache_within_ops launched_within [OF st op gw] in \<open>simp_all add: wired_def\<close>)
  then show ?thesis
    using store_within_held [OF budgets_nonneg(1)] cache_within_held by (fastforce simp: DefaultManifestCacheCap_def)
qed

lemma running_gateway_bounded_witness:
  "\<exists>logs gw. main_setup demo_osenv demo_genv new_metrics = (logs, Inr gw) \<and>
     blob_bytes_held (w_store (fst (demo_state (launched gw)))) \<le> defaultBlobCacheBytes"
proof -
  obtain logs gw where gw: "main_setup demo_osenv demo_genv new_metrics = (logs, Inr gw)"
    using demo_setup [of new_metrics] by blast
  have r: "reachable demo_gw_env (launched gw) (fst (demo_state (launched gw)), snd (demo_state (launched gw)))"
    using demo_reachable by simp
  have "wired demo_gw_env plain_bucket (mapErr (\<lambda>e. e) ''NotFound'' (\<lambda>e. e))"
    using demo_wired by (simp add: plain_mapErr_def)
  moreover have "blob_budget demo_osenv = defaultBlobCacheBytes"
    by (simp add: blob_budget_def getenvInt64_def demo_osenv_def)
  ultimately show ?thesis
    using running_gateway_bounded [OF plain_contract _ demo_opens gw r] gw by fastforce
qed

text \<open>What a sweep that visits every record leaves.\<close>

lemma tracked_swept:
  assumes laws: "counter_laws ops val" and t: "tracked val m" and visit: "dom (m_lastSeen m) \<subseteq> set visit"
  shows "case site_view val k (evictIdle ops visit now ttl m) of
       (None, requests, bytes) \<Rightarrow> requests = None \<and> bytes = None
     | (Some seen, _) \<Rightarrow> UnixNano now - ttl \<le> seen"
proof (cases "m_lastSeen m k")
  case None
  then have "site_view val k m = (None, None, None)" "\<not> idle c k m" for c
    using spec [OF t [unfolded tracked_def], of k] by (simp_all add: site_view_def idle_def)
  with evictIdle_view [OF laws, of k visit now ttl m] show ?thesis by simp
next
  case (Some seen)
  with visit have "k \<in> set visit" by blast
  with Some t evictIdle_view [OF laws, of k visit now ttl m] show ?thesis
    by (auto simp: idle_def site_view_def)
qed

text \<open>The metrics in those states: with no request overlapping another or a sweep, series and activity records
  agree, and one sweep that visits every record leaves only series of sites active within the time to live.
  What is left of this when the operations race is \<open>series_have_records\<close> of \<open>MetricsRace\<close>.\<close>

theorem running_gateway_metrics:
  assumes laws: "counter_laws (e_counters env) val" and env: "wired env bk mapE"
    and gw: "main_setup os genv mt = (logs, Inr gw)" and mt: "tracked val mt"
    and r: "reachable env (launched gw) (w, Running ttl)"
    and visit: "dom (m_lastSeen (w_metrics w)) \<subseteq> set visit"
  shows "tracked val (w_metrics w) \<and>
    (case site_view val k (evictIdle (e_counters env) visit now ttl (w_metrics w)) of
       (None, requests, bytes) \<Rightarrow> requests = None \<and> bytes = None
     | (Some seen, _) \<Rightarrow> UnixNano now - ttl \<le> seen)"
proof -
  obtain st0 where "gw = assembled os st0 mt" by (rule main_setup_gateway [OF gw])
  then have "w_metrics (fst (launched gw)) = mt"
    by (simp add: launched_def assembled_def configured_world_def)
  with reachable_tracked [OF r laws wiredD(2) [OF env]] mt have t: "tracked val (w_metrics w)" by simp
  from t tracked_swept [OF laws t visit] show ?thesis ..
qed

lemma running_gateway_metrics_witness:
  "\<exists>logs gw. main_setup demo_osenv demo_genv new_metrics = (logs, Inr gw) \<and>
     tracked id (w_metrics (fst (launched gw)))"
proof -
  obtain logs gw where gw: "main_setup demo_osenv demo_genv new_metrics = (logs, Inr gw)"
    using demo_setup [of new_metrics] by blast
  have "tracked id new_metrics" by (simp add: tracked_def new_metrics_def)
  moreover obtain ttl where "gw_evictor gw = Running ttl"
  proof -
    have "configured_evictor demo_osenv = (Running (36 * 3600000000000), hour)"
    proof -
      have "demo_osenv ''METRICS_TTL'' = show_nat 36 @ ''h''" by (simp add: demo_osenv_def show_nat.simps)
      moreover have "map_of unitMap ''h'' = Some 3600000000000" by (simp add: unitMap_def)
      ultimately have "getenvDuration demo_osenv ''METRICS_TTL'' (48 * hour) = (int (36 * 3600000000000), [])"
        by (rule getenvDuration_set) simp
      moreover have "getenvDuration demo_osenv ''METRICS_SWEEP_INTERVAL'' hour = (hour, [])"
        by (rule getenvDuration_unset) (simp add: demo_osenv_def)
      ultimately show ?thesis by (simp add: configured_evictor_def StartEvictor_def hour_def)
    qed
    moreover obtain st0 where "gw = assembled demo_osenv st0 new_metrics" by (rule main_setup_gateway [OF gw])
    ultimately have "gw_evictor gw = Running (36 * 3600000000000)" by (simp add: assembled_def)
    with that show thesis .
  qed
  then have "reachable demo_gw_env (launched gw) (fst (launched gw), Running ttl)"
    by (simp add: reachable_def launched_def)
  moreover have "dom (m_lastSeen (w_metrics (fst (launched gw)))) \<subseteq> set []"
  proof -
    obtain st0 where "gw = assembled demo_osenv st0 new_metrics" by (rule main_setup_gateway [OF gw])
    then show ?thesis by (simp add: launched_def assembled_def configured_world_def new_metrics_def)
  qed
  moreover have "counter_laws (e_counters demo_gw_env) id" using map_ops_laws by (simp add: demo_gw_env_def)
  ultimately show ?thesis
    using running_gateway_metrics [OF _ demo_wired gw] gw by fast
qed

end
